(* ===== verification/Vesal_Prelude.thy ===== *)
theory Vesal_Prelude
  imports Main "HOL-Library.Word"
begin

text \<open>
  Shared vocabulary of the development: the widths of the C++ integer types, the type of
  pointers, the collections of simplification rules the component proofs use, and the generic
  lemmas on lists, options and words that more than one component needs.

  Conventions used everywhere. \<open>size_t\<close>, \<open>uint64_t\<close> and \<open>uintptr_t\<close> are \<open>u64\<close> where a
  computation may wrap around; counters that the code cannot drive past their width are \<open>nat\<close>.
  A pointer is an \<open>'a option\<close>, with \<open>None\<close> for \<open>nullptr\<close>. An operation that the C++ code leaves
  undefined (null dereference, index out of range, division by zero) returns \<open>None\<close> in an
  option-valued model, so that theorems must show it does not happen.
\<close>

type_synonym u8 = "8 word"
type_synonym u16 = "16 word"
type_synonym u32 = "32 word"
type_synonym u64 = "64 word"

named_theorems vesal_defs "definitions of operations, unfolded by the component proofs"
named_theorems vesal_inv "invariants, unfolded by the preservation proofs"

section \<open>Lists\<close>

lemma indexed_append:
  fixes b :: int
  assumes "\<forall>k < length xs. P (b + int k) (xs ! k)"
    and "\<forall>k < length ys. P (b + int (length xs) + int k) (ys ! k)"
  shows "\<forall>k < length (xs @ ys). P (b + int k) ((xs @ ys) ! k)"
proof (intro allI impI)
  fix k assume k: "k < length (xs @ ys)"
  show "P (b + int k) ((xs @ ys) ! k)"
  proof (cases "k < length xs")
    case True
    with assms(1) show ?thesis by (simp add: nth_append)
  next
    case False
    with k have "k - length xs < length ys"
      and "b + int (length xs) + int (k - length xs) = b + int k" by auto
    with assms(2) have "P (b + int k) (ys ! (k - length xs))" by metis
    with False show ?thesis by (simp add: nth_append)
  qed
qed

section \<open>Maps\<close>

lemma map_le_upd_same: "t \<subseteq>\<^sub>m m \<Longrightarrow> m k = Some c \<Longrightarrow> t(k \<mapsto> c) \<subseteq>\<^sub>m m"
  by (auto simp: map_le_def)

lemma map_le_SomeD: "t \<subseteq>\<^sub>m m \<Longrightarrow> t k = Some c \<Longrightarrow> m k = Some c"
  by (metis domI map_le_def)

section \<open>Words\<close>

lemma unat_u64_less: "unat (w :: u64) < 2 ^ 64"
  by (rule order_less_le_trans [OF unsigned_less]) simp

lemma unat_of_nat_u64: "n < 2 ^ 64 \<Longrightarrow> unat (of_nat n :: u64) = n"
  by (simp add: unsigned_of_nat take_bit_nat_eq_self)

lemma unat_add_u64: "unat a + unat b < 2 ^ 64 \<Longrightarrow> unat (a + b :: u64) = unat a + unat b"
  by (simp add: unat_add_lem [THEN iffD1])

lemma unat_diff_u64: "unat b \<le> unat a \<Longrightarrow> unat (a - b :: u64) = unat a - unat b"
  by (simp add: unat_sub word_le_nat_alt)

lemma sint_u32_small: "uint w < 2 ^ 31 \<Longrightarrow> sint w = uint w" for w :: u32
proof -
  assume "uint w < 2 ^ 31"
  moreover have "- (2 ^ 31) \<le> uint w"
    using uint_ge_0 [of w] by (rule order_trans [rotated]) simp
  ultimately show ?thesis
    using signed_take_bit_int_eq_self [of 31 "uint w"] by (simp add: sint_uint)
qed

end
