(* ===== verification/Vesal_Status.thy ===== *)
theory Vesal_Status
  imports Vesal_Prelude
begin

text \<open>
  \<open>include/vesal/status.h\<close> and \<open>src/common/status.cc\<close>: the status codes every component returns,
  their numeric values and names, the \<open>Status\<close> class, and the translation of the QAT driver's
  return values (\<open>src/codec/qat/qat_error_handling.h\<close>).
\<close>

section \<open>Status codes\<close>

datatype StatusCode =
    kOk | kInvalidArgument | kNotSupported | kResourceBusy | kHardwareError | kChannelError
  | kTimeout | kOverflow | kBadData | kShouldRetry | kDropped | kPermanentError | kUnknown
  | kSliceHang

fun code_value :: "StatusCode \<Rightarrow> nat" where
  "code_value kOk = 0"
| "code_value kInvalidArgument = 1"
| "code_value kNotSupported = 2"
| "code_value kResourceBusy = 3"
| "code_value kHardwareError = 4"
| "code_value kChannelError = 5"
| "code_value kTimeout = 6"
| "code_value kOverflow = 7"
| "code_value kBadData = 8"
| "code_value kShouldRetry = 9"
| "code_value kDropped = 10"
| "code_value kPermanentError = 11"
| "code_value kUnknown = 12"
| "code_value kSliceHang = 13"

definition GetAllStatusCodes :: "StatusCode list" where
  "GetAllStatusCodes =
     [kOk, kInvalidArgument, kNotSupported, kResourceBusy, kHardwareError, kChannelError,
      kTimeout, kOverflow, kBadData, kShouldRetry, kDropped, kPermanentError, kUnknown,
      kSliceHang]"

definition IsStatusCode :: "int \<Rightarrow> bool" where
  "IsStatusCode code \<longleftrightarrow> code \<ge> int (code_value kOk) \<and> code \<le> int (code_value kSliceHang)"

definition CanDeallocZeroCopyBuffer :: "StatusCode \<Rightarrow> bool" where
  "CanDeallocZeroCopyBuffer c \<longleftrightarrow> c \<noteq> kTimeout \<and> c \<noteq> kDropped \<and> c \<noteq> kSliceHang"

fun StatusCodeToString :: "StatusCode \<Rightarrow> string" where
  "StatusCodeToString kOk = ''OK''"
| "StatusCodeToString kInvalidArgument = ''INVALID_ARGUMENT''"
| "StatusCodeToString kNotSupported = ''NOT_SUPPORTED''"
| "StatusCodeToString kResourceBusy = ''RESOURCE_BUSY''"
| "StatusCodeToString kHardwareError = ''HARDWARE_ERROR''"
| "StatusCodeToString kChannelError = ''CHANNEL_ERROR''"
| "StatusCodeToString kTimeout = ''TIMEOUT''"
| "StatusCodeToString kUnknown = ''UNKNOWN''"
| "StatusCodeToString kOverflow = ''OVERFLOW''"
| "StatusCodeToString kBadData = ''BAD_DATE''"
| "StatusCodeToString kShouldRetry = ''SHOULD_RETRY''"
| "StatusCodeToString kDropped = ''DROPPED''"
| "StatusCodeToString kPermanentError = ''PERMANENT_ERROR''"
| "StatusCodeToString kSliceHang = ''SLICE_HANG''"

section \<open>The Status class\<close>

record Status =
  st_code :: StatusCode
  st_message :: string

definition OkStatus :: Status where
  "OkStatus = \<lparr>st_code = kOk, st_message = []\<rparr>"

definition status_ok :: "Status \<Rightarrow> bool" where
  "status_ok s \<longleftrightarrow> st_code s = kOk"

definition ToString :: "Status \<Rightarrow> string" where
  "ToString s = (let t = StatusCodeToString (st_code s)
                 in if status_ok s then t else t @ '': '' @ st_message s)"

definition StatusCodeToStatus :: "StatusCode \<Rightarrow> string \<Rightarrow> Status" where
  "StatusCodeToStatus c msg =
     (if c = kOk then OkStatus else \<lparr>st_code = c, st_message = msg\<rparr>)"

section \<open>Driver status codes\<close>

text \<open>
  \<open>CpaStatus\<close> and \<open>CpaDcReqStatus\<close> are signed integers of the driver; the names below are the
  values of \<open>cpa.h\<close> and \<open>cpa_dc.h\<close> that the translation mentions.
\<close>

abbreviation (input) CPA_STATUS_SUCCESS :: int where "CPA_STATUS_SUCCESS \<equiv> 0"
abbreviation (input) CPA_STATUS_FAIL :: int where "CPA_STATUS_FAIL \<equiv> -1"
abbreviation (input) CPA_STATUS_RETRY :: int where "CPA_STATUS_RETRY \<equiv> -2"
abbreviation (input) CPA_STATUS_RESOURCE :: int where "CPA_STATUS_RESOURCE \<equiv> -3"
abbreviation (input) CPA_STATUS_INVALID_PARAM :: int where "CPA_STATUS_INVALID_PARAM \<equiv> -4"
abbreviation (input) CPA_STATUS_FATAL :: int where "CPA_STATUS_FATAL \<equiv> -5"
abbreviation (input) CPA_STATUS_UNSUPPORTED :: int where "CPA_STATUS_UNSUPPORTED \<equiv> -6"
abbreviation (input) CPA_STATUS_RESTARTING :: int where "CPA_STATUS_RESTARTING \<equiv> -7"

abbreviation (input) CPA_DC_OK :: int where "CPA_DC_OK \<equiv> 0"
abbreviation (input) CPA_DC_INVALID_DIST :: int where "CPA_DC_INVALID_DIST \<equiv> -10"
abbreviation (input) CPA_DC_INVALID_BLOCK_TYPE :: int where "CPA_DC_INVALID_BLOCK_TYPE \<equiv> -1"
abbreviation (input) CPA_DC_OVERFLOW :: int where "CPA_DC_OVERFLOW \<equiv> -11"
abbreviation (input) CPA_DC_SOFTERR :: int where "CPA_DC_SOFTERR \<equiv> -12"
abbreviation (input) CPA_DC_FATALERR :: int where "CPA_DC_FATALERR \<equiv> -13"
abbreviation (input) CPA_DC_MAX_RESUBITERR :: int where "CPA_DC_MAX_RESUBITERR \<equiv> -14"
abbreviation (input) CPA_DC_INCOMPLETE_FILE_ERR :: int where "CPA_DC_INCOMPLETE_FILE_ERR \<equiv> -15"
abbreviation (input) CPA_DC_WDOG_TIMER_ERR :: int where "CPA_DC_WDOG_TIMER_ERR \<equiv> -16"
abbreviation (input) CPA_DC_VERIFY_ERROR :: int where "CPA_DC_VERIFY_ERROR \<equiv> -18"
abbreviation (input) CPA_DC_LZ4_MAX_BLOCK_SIZE_EXCEEDED :: int
  where "CPA_DC_LZ4_MAX_BLOCK_SIZE_EXCEEDED \<equiv> -93"
abbreviation (input) CPA_DC_LZ4_BLOCK_OVERFLOW_ERR :: int
  where "CPA_DC_LZ4_BLOCK_OVERFLOW_ERR \<equiv> -95"
abbreviation (input) CPA_DC_LZ4_TOKEN_IS_ZERO_ERR :: int
  where "CPA_DC_LZ4_TOKEN_IS_ZERO_ERR \<equiv> -98"
abbreviation (input) CPA_DC_LZ4_DISTANCE_OUT_OF_RANGE_ERR :: int
  where "CPA_DC_LZ4_DISTANCE_OUT_OF_RANGE_ERR \<equiv> -100"

text \<open>
  The ten codes from \<open>CPA_DC_INVALID_BLOCK_TYPE\<close> down to \<open>CPA_DC_INVALID_DIST\<close> are consecutive
  and the code lists every one of them.
\<close>

definition CpaDcReqStatusToVesalStatusCode :: "int \<Rightarrow> StatusCode" where
  "CpaDcReqStatusToVesalStatusCode s =
     (if s = CPA_DC_OK then kOk
      else if s = CPA_DC_SOFTERR \<or> s = CPA_DC_MAX_RESUBITERR
           \<or> s = CPA_DC_LZ4_MAX_BLOCK_SIZE_EXCEEDED then kResourceBusy
      else if s = CPA_DC_OVERFLOW then kOverflow
      else if s = CPA_DC_VERIFY_ERROR then kChannelError
      else if CPA_DC_INVALID_DIST \<le> s \<and> s \<le> CPA_DC_INVALID_BLOCK_TYPE
           \<or> s = CPA_DC_LZ4_BLOCK_OVERFLOW_ERR \<or> s = CPA_DC_LZ4_TOKEN_IS_ZERO_ERR
           \<or> s = CPA_DC_LZ4_DISTANCE_OUT_OF_RANGE_ERR then kBadData
      else if s = CPA_DC_FATALERR then kHardwareError
      else if s = CPA_DC_INCOMPLETE_FILE_ERR then kInvalidArgument
      else if s = CPA_DC_WDOG_TIMER_ERR then kTimeout
      else kUnknown)"

definition CpaStatusToVesalStatusCode :: "int \<Rightarrow> StatusCode" where
  "CpaStatusToVesalStatusCode s =
     (if s = CPA_STATUS_SUCCESS then kOk
      else if s = CPA_STATUS_RESOURCE then kResourceBusy
      else if s = CPA_STATUS_RESTARTING \<or> s = CPA_STATUS_RETRY then kShouldRetry
      else if s = CPA_STATUS_INVALID_PARAM then kInvalidArgument
      else if s = CPA_STATUS_UNSUPPORTED then kNotSupported
      else if s = CPA_STATUS_FAIL then kChannelError
      else if s = CPA_STATUS_FATAL then kHardwareError
      else kUnknown)"

definition CpaStatusToVesalStatusCode2 :: "int \<Rightarrow> int \<Rightarrow> StatusCode" where
  "CpaStatusToVesalStatusCode2 cpa_status req_status =
     (if req_status \<noteq> CPA_DC_OK then CpaDcReqStatusToVesalStatusCode req_status
      else CpaStatusToVesalStatusCode cpa_status)"

definition CpaStatusToVesalStatus :: "int \<Rightarrow> string \<Rightarrow> Status" where
  "CpaStatusToVesalStatus cpa_status msg = StatusCodeToStatus (CpaStatusToVesalStatusCode cpa_status) msg"

section \<open>Lemmas\<close>

lemma GetAllStatusCodes_nth:
  "code_value c < length GetAllStatusCodes \<and> GetAllStatusCodes ! code_value c = c"
  by (cases c) (simp_all add: GetAllStatusCodes_def eval_nat_numeral)

lemma StatusCodeToString_inj: "StatusCodeToString a = StatusCodeToString b \<Longrightarrow> a = b"
  by (cases a; cases b) simp_all

lemma code_StatusCodeToStatus [simp]: "st_code (StatusCodeToStatus c msg) = c"
  by (simp add: StatusCodeToStatus_def OkStatus_def)

lemma CpaStatus_ok_iff [simp]: "CpaStatusToVesalStatusCode s = kOk \<longleftrightarrow> s = CPA_STATUS_SUCCESS"
  by (simp add: CpaStatusToVesalStatusCode_def)

lemma CpaDcReqStatus_ok_iff [simp]: "CpaDcReqStatusToVesalStatusCode s = kOk \<longleftrightarrow> s = CPA_DC_OK"
  by (auto simp add: CpaDcReqStatusToVesalStatusCode_def)

lemma CpaStatusToVesalStatus_ok [simp]: "status_ok (CpaStatusToVesalStatus s msg) \<longleftrightarrow> s = CPA_STATUS_SUCCESS"
  by (simp add: status_ok_def CpaStatusToVesalStatus_def)

lemma status_ok_OkStatus [simp]: "status_ok OkStatus"
  by (simp add: status_ok_def OkStatus_def)

lemma status_ok_StatusCodeToStatus [simp]: "status_ok (StatusCodeToStatus c msg) \<longleftrightarrow> c = kOk"
  by (simp add: status_ok_def)

lemma CpaStatus2_ok_iff:
  "CpaStatusToVesalStatusCode2 s r = kOk \<longleftrightarrow> s = CPA_STATUS_SUCCESS \<and> r = CPA_DC_OK"
  by (simp add: CpaStatusToVesalStatusCode2_def)

end
