(* ===== verification/Ring_Queue.thy ===== *)
theory Ring_Queue
  imports Vesal_Prelude "HOL-Library.Signed_Division"
begin

text \<open>
  \<open>src/common/req_ring_queue.h\<close>: \<open>InflightReqRingQueue\<close>, the ring that hands results back in the
  order in which the requests were created. Request ids are \<open>int64_t\<close> in the code and never
  reach their bound (one id per request), so they are \<open>int\<close> here; the array index is computed
  with C's truncating remainder and an index outside the array is undefined (\<open>None\<close>).
  The specification is a list of pending slots, one per id from \<open>head_id\<close> to \<open>tail_id - 1\<close>.
\<close>

section \<open>State and operations\<close>

record 'r InflightReq =
  result :: 'r
  req_id :: int

record 'r ring_queue =
  reqs :: "'r InflightReq list"
  ring_size :: int
  head_id :: int
  tail_id :: int

definition InflightReqRingQueue :: "'r \<Rightarrow> nat \<Rightarrow> 'r ring_queue" where
  "InflightReqRingQueue d n =
     \<lparr>reqs = replicate n \<lparr>result = d, req_id = -1\<rparr>, ring_size = int n, head_id = 0, tail_id = 0\<rparr>"

definition IsFull :: "'r ring_queue \<Rightarrow> bool" where
  "IsFull q \<longleftrightarrow> tail_id q - head_id q = ring_size q"

definition GetSize :: "'r ring_queue \<Rightarrow> int" where
  "GetSize q = tail_id q - head_id q"

definition NewReq :: "'r ring_queue \<Rightarrow> int \<times> 'r ring_queue" where
  "NewReq q = (if IsFull q then (-1, q) else (tail_id q, q\<lparr>tail_id := tail_id q + 1\<rparr>))"

definition ring_index :: "'r ring_queue \<Rightarrow> int \<Rightarrow> nat option" where
  "ring_index q i = (if 0 \<le> i \<and> nat i < length (reqs q) then Some (nat i) else None)"

definition PushResult :: "'r \<Rightarrow> int \<Rightarrow> 'r ring_queue \<Rightarrow> 'r ring_queue option" where
  "PushResult r k q =
     (if ring_size q = 0 then None
      else case ring_index q (k smod ring_size q) of
             None \<Rightarrow> None
           | Some i \<Rightarrow> Some (q\<lparr>reqs := (reqs q)[i := \<lparr>result = r, req_id = k\<rparr>]\<rparr>))"

function pop_loop :: "'r ring_queue \<Rightarrow> int \<Rightarrow> int \<Rightarrow> int \<Rightarrow> ('r list \<times> 'r ring_queue) option" where
  "pop_loop q i cnt sz =
     (if head_id q < tail_id q \<and> cnt < sz then
        (case ring_index q i of
           None \<Rightarrow> None
         | Some j \<Rightarrow>
             if req_id (reqs q ! j) < head_id q then Some ([], q)
             else (case pop_loop (q\<lparr>head_id := head_id q + 1\<rparr>) ((i + 1) smod ring_size q)
                           (cnt + 1) sz of
                     None \<Rightarrow> None
                   | Some (rs, q') \<Rightarrow> Some (result (reqs q ! j) # rs, q')))
      else Some ([], q))"
  by pat_completeness auto
termination
  by (relation "measure (\<lambda>(q, i, cnt, sz). nat (tail_id q - head_id q))") auto

declare pop_loop.simps [simp del]

definition PopResults :: "'r ring_queue \<Rightarrow> int \<Rightarrow> ('r list \<times> 'r ring_queue) option" where
  "PopResults q sz =
     (if ring_size q = 0 then None else pop_loop q (head_id q smod ring_size q) 0 sz)"

section \<open>Invariant and specification\<close>

definition ring_inv :: "'r ring_queue \<Rightarrow> bool" where
  "ring_inv q \<longleftrightarrow>
     0 < ring_size q \<and> length (reqs q) = nat (ring_size q) \<and>
     0 \<le> head_id q \<and> head_id q \<le> tail_id q \<and> tail_id q \<le> head_id q + ring_size q \<and>
     (\<forall>i < length (reqs q). req_id (reqs q ! i) = -1 \<or>
        (0 \<le> req_id (reqs q ! i) \<and> req_id (reqs q ! i) < tail_id q \<and>
         req_id (reqs q ! i) mod ring_size q = int i))"

definition slot_of :: "'r ring_queue \<Rightarrow> int \<Rightarrow> 'r option" where
  "slot_of q k = (let s = reqs q ! nat (k mod ring_size q)
                  in if req_id s = k then Some (result s) else None)"

definition pending :: "'r ring_queue \<Rightarrow> 'r option list" where
  "pending q = map (slot_of q) [head_id q .. tail_id q - 1]"

fun deliver :: "nat \<Rightarrow> 'r option list \<Rightarrow> 'r list \<times> 'r option list" where
  "deliver (Suc n) (Some r # xs) = (let (rs, ys) = deliver n xs in (r # rs, ys))"
| "deliver n xs = ([], xs)"

section \<open>Lemmas\<close>

lemma smod_nonneg: "0 \<le> (a::int) \<Longrightarrow> 0 < b \<Longrightarrow> a smod b = a mod b"
  by (cases "a = 0") (simp_all add: signed_modulo_int_def signed_divide_int_def)

lemma ring_inv_bounds:
  assumes "ring_inv q"
  shows "0 < ring_size q" and "0 \<le> head_id q" and "head_id q \<le> tail_id q"
    and "tail_id q \<le> head_id q + ring_size q" and "length (reqs q) = nat (ring_size q)"
  using assms unfolding ring_inv_def by blast+

lemma ring_inv_slot:
  assumes "ring_inv q" and "i < length (reqs q)" and "req_id (reqs q ! i) \<noteq> -1"
  shows "0 \<le> req_id (reqs q ! i)" and "req_id (reqs q ! i) < tail_id q"
    and "req_id (reqs q ! i) mod ring_size q = int i"
  using assms unfolding ring_inv_def by blast+

lemma ring_inv_new: "0 < n \<Longrightarrow> ring_inv (InflightReqRingQueue d n)"
  by (simp add: ring_inv_def InflightReqRingQueue_def)

lemma pending_new: "pending (InflightReqRingQueue d n) = []"
  by (simp add: pending_def InflightReqRingQueue_def)

lemma head_new [simp]: "head_id (InflightReqRingQueue d n) = 0"
  by (simp add: InflightReqRingQueue_def)

lemma length_pending: "length (pending q) = nat (tail_id q - head_id q)"
  by (simp add: pending_def)

lemma ring_index_mod:
  assumes "ring_inv q" and "0 \<le> k"
  shows "ring_index q (k smod ring_size q) = Some (nat (k mod ring_size q))"
    and "nat (k mod ring_size q) < length (reqs q)"
  using ring_inv_bounds[OF assms(1)] assms(2) by (auto simp: ring_index_def smod_nonneg)

lemma window_mod_eq:
  fixes a b s :: int
  assumes "a mod s = b mod s" and "\<bar>a - b\<bar> < s"
  shows "a = b"
proof -
  from assms(1) have "s dvd a - b" by (simp add: mod_eq_dvd_iff)
  with assms(2) show ?thesis
    using dvd_imp_le_int[of "a - b" s] by force
qed

lemma slot_id_in_window:
  assumes "ring_inv q" and "head_id q \<le> k" and "k < tail_id q"
    and "req_id (reqs q ! nat (k mod ring_size q)) \<ge> head_id q"
  shows "req_id (reqs q ! nat (k mod ring_size q)) = k"
proof -
  let ?s = "ring_size q" and ?j = "req_id (reqs q ! nat (k mod ring_size q))"
  from assms(2) ring_inv_bounds[OF assms(1)] have pos: "0 < ?s" and "0 \<le> k" by auto
  then have lt: "nat (k mod ?s) < length (reqs q)"
    using ring_index_mod(2)[OF assms(1)] by blast
  from assms(4) ring_inv_bounds(2)[OF assms(1)] have "?j \<noteq> -1" by linarith
  then have "?j < tail_id q" and "?j mod ?s = int (nat (k mod ?s))"
    using ring_inv_slot[OF assms(1) lt] by auto
  moreover from pos have "int (nat (k mod ?s)) = k mod ?s" by simp
  moreover note ring_inv_bounds(4)[OF assms(1)]
  ultimately show ?thesis
    using assms(2-4) by - (rule window_mod_eq[of _ ?s], auto)
qed

lemma pending_Cons:
  assumes "head_id q < tail_id q"
  shows "pending q = slot_of q (head_id q) # pending (q\<lparr>head_id := head_id q + 1\<rparr>)"
  using assms by (simp add: pending_def slot_of_def upto_rec1[of "head_id q" "tail_id q - 1"])

lemma NewReq_refines:
  assumes "ring_inv q" and "\<not> IsFull q"
  shows "ring_inv (snd (NewReq q))" and "pending (snd (NewReq q)) = pending q @ [None]"
proof -
  let ?t = "tail_id q"
  have b: "head_id q \<le> ?t" "0 \<le> ?t" "?t < head_id q + ring_size q"
    using ring_inv_bounds[OF assms(1)] assms(2) by (auto simp: IsFull_def)
  have new: "snd (NewReq q) = q\<lparr>tail_id := ?t + 1\<rparr>"
    using assms(2) by (simp add: NewReq_def)
  show "ring_inv (snd (NewReq q))"
    unfolding new ring_inv_def
  proof (intro conjI allI impI)
    fix i assume "i < length (reqs (q\<lparr>tail_id := ?t + 1\<rparr>))"
    then have i: "i < length (reqs q)" by simp
    show "req_id (reqs (q\<lparr>tail_id := ?t + 1\<rparr>) ! i) = -1 \<or>
       0 \<le> req_id (reqs (q\<lparr>tail_id := ?t + 1\<rparr>) ! i) \<and>
       req_id (reqs (q\<lparr>tail_id := ?t + 1\<rparr>) ! i) < tail_id (q\<lparr>tail_id := ?t + 1\<rparr>) \<and>
       req_id (reqs (q\<lparr>tail_id := ?t + 1\<rparr>) ! i) mod ring_size (q\<lparr>tail_id := ?t + 1\<rparr>) = int i"
      using ring_inv_slot[OF assms(1) i] by force
  qed (use ring_inv_bounds[OF assms(1)] b in auto)
  have lt: "nat (?t mod ring_size q) < length (reqs q)"
    using ring_index_mod(2)[OF assms(1) b(2)] .
  have "req_id (reqs q ! nat (?t mod ring_size q)) \<noteq> ?t"
    using ring_inv_slot(2)[OF assms(1) lt] b(2) by force
  then have "slot_of q ?t = None" by (simp add: slot_of_def)
  moreover have "[head_id q .. ?t] = [head_id q .. ?t - 1] @ [?t]"
    using b(1) by (rule upto_rec2)
  ultimately show "pending (snd (NewReq q)) = pending q @ [None]"
    using assms(2) by (simp add: NewReq_def pending_def slot_of_def)
qed

lemma PushResult_refines:
  assumes inv: "ring_inv q" and k: "head_id q \<le> k" "k < tail_id q"
  shows "\<exists>q'. PushResult r k q = Some q' \<and> ring_inv q' \<and> head_id q' = head_id q \<and>
              tail_id q' = tail_id q \<and> pending q' = (pending q)[nat (k - head_id q) := Some r]"
proof -
  let ?s = "ring_size q" and ?i = "nat (k mod ring_size q)"
  let ?q = "q\<lparr>reqs := (reqs q)[?i := \<lparr>result = r, req_id = k\<rparr>]\<rparr>"
  have pos: "0 < ?s" and k0: "0 \<le> k" and win: "tail_id q \<le> head_id q + ?s"
    using ring_inv_bounds[OF inv] k by auto
  have idx: "ring_index q (k smod ?s) = Some ?i" "?i < length (reqs q)"
    using ring_index_mod[OF inv k0] by auto
  have "PushResult r k q = Some ?q"
    using pos by (simp add: PushResult_def idx)
  moreover have "ring_inv ?q"
    using inv k k0 pos by (simp add: ring_inv_def nth_list_update)
  moreover have "pending ?q = (pending q)[nat (k - head_id q) := Some r]"
  proof (rule nth_equalityI)
    fix j assume "j < length (pending ?q)"
    then have j: "head_id q + int j < tail_id q" by (simp add: pending_def)
    have same: "nat ((head_id q + int j) mod ?s) = ?i \<longleftrightarrow> head_id q + int j = k"
    proof
      assume "nat ((head_id q + int j) mod ?s) = ?i"
      with pos have "(head_id q + int j) mod ?s = k mod ?s"
        by (metis eq_nat_nat_iff pos_mod_sign)
      then show "head_id q + int j = k"
        using j k win by - (rule window_mod_eq[of _ ?s], auto)
    qed simp
    have "slot_of ?q (head_id q + int j) =
            (if head_id q + int j = k then Some r else slot_of q (head_id q + int j))"
      using idx(2) same by (auto simp: slot_of_def Let_def)
    then show "pending ?q ! j = (pending q)[nat (k - head_id q) := Some r] ! j"
      using j k(1) by (auto simp: pending_def nth_list_update)
  qed (simp add: pending_def)
  ultimately show ?thesis by auto
qed

lemma pop_loop_refines:
  assumes "ring_inv q" and "i = head_id q mod ring_size q"
  shows "\<exists>q'. pop_loop q i cnt sz = Some (fst (deliver (nat (sz - cnt)) (pending q)), q') \<and>
              ring_inv q' \<and> pending q' = snd (deliver (nat (sz - cnt)) (pending q)) \<and>
              tail_id q' = tail_id q \<and>
              head_id q' = head_id q + int (length (fst (deliver (nat (sz - cnt)) (pending q))))"
  using assms
proof (induction q i cnt sz rule: pop_loop.induct)
  case (1 q i cnt sz)
  let ?h = "head_id q" and ?s = "ring_size q" and ?q = "q\<lparr>head_id := head_id q + 1\<rparr>"
  note pos = ring_inv_bounds(1,2)[OF "1.prems"(1)]
  show ?case
  proof (cases "?h < tail_id q \<and> cnt < sz")
    case False
    then have "nat (sz - cnt) = 0 \<or> pending q = []" by (auto simp: pending_def)
    with False "1.prems"(1) show ?thesis by (auto simp: pop_loop.simps[of q])
  next
    case True
    have idx: "ring_index q i = Some (nat i)"
      using ring_index_mod(1)[OF "1.prems"(1) pos(2)] pos "1.prems"(2) by (simp add: smod_nonneg)
    define n where "n = nat (sz - (cnt + 1))"
    with True have n: "nat (sz - cnt) = Suc n" "nat (sz - (cnt + 1)) = n" by auto
    show ?thesis
    proof (cases "req_id (reqs q ! nat i) < ?h")
      case old: True
      then have "slot_of q ?h = None" using "1.prems"(2) by (simp add: slot_of_def)
      then have "deliver (nat (sz - cnt)) (pending q) = ([], pending q)"
        using True n by (simp add: pending_Cons[of q])
      with True idx old "1.prems"(1) show ?thesis by (simp add: pop_loop.simps[of q])
    next
      case new: False
      then have "req_id (reqs q ! nat i) = ?h"
        using slot_id_in_window[OF "1.prems"(1), of ?h] True "1.prems"(2) by simp
      then have slot: "slot_of q ?h = Some (result (reqs q ! nat i))"
        using "1.prems"(2) by (simp add: slot_of_def)
      have inv': "ring_inv ?q" using "1.prems"(1) True by (simp add: ring_inv_def)
      have i': "(i + 1) smod ?s = head_id ?q mod ring_size ?q"
        using pos "1.prems"(2) by (simp add: smod_nonneg mod_add_left_eq)
      from "1.IH"[OF True idx new inv' i'] n
      show ?thesis
        using True idx new slot
        by (auto simp: pop_loop.simps[of q] pending_Cons[of q] split: prod.splits)
    qed
  qed
qed

lemma PopResults_refines:
  assumes "ring_inv q"
  shows "\<exists>q'. PopResults q sz = Some (fst (deliver (nat sz) (pending q)), q') \<and>
              ring_inv q' \<and> pending q' = snd (deliver (nat sz) (pending q)) \<and>
              tail_id q' = tail_id q \<and>
              head_id q' = head_id q + int (length (fst (deliver (nat sz) (pending q))))"
  using pop_loop_refines[OF assms refl, of 0 sz] ring_inv_bounds(1,2)[OF assms]
  by (simp add: PopResults_def smod_nonneg)

section \<open>Whole runs\<close>

text \<open>
  A client creates requests, pushes the result of a request that is in flight and has no result
  yet, and pops. \<open>ring_client\<close> is that contract, checked along the run of the queue itself.
\<close>

datatype 'r ring_op = NewR | PushR 'r int | PopR int

fun ring_exec :: "'r ring_op list \<Rightarrow> 'r ring_queue \<Rightarrow> ('r list \<times> 'r ring_queue) option" where
  "ring_exec [] q = Some ([], q)"
| "ring_exec (NewR # ops) q = ring_exec ops (snd (NewReq q))"
| "ring_exec (PushR r k # ops) q =
     (case PushResult r k q of None \<Rightarrow> None | Some q' \<Rightarrow> ring_exec ops q')"
| "ring_exec (PopR n # ops) q =
     (case PopResults q n of
        None \<Rightarrow> None
      | Some (rs, q') \<Rightarrow>
          (case ring_exec ops q' of None \<Rightarrow> None | Some (rs', q'') \<Rightarrow> Some (rs @ rs', q'')))"

fun ring_client :: "'r ring_op list \<Rightarrow> 'r ring_queue \<Rightarrow> bool" where
  "ring_client [] q = True"
| "ring_client (NewR # ops) q = ring_client ops (snd (NewReq q))"
| "ring_client (PushR r k # ops) q =
     (head_id q \<le> k \<and> k < tail_id q \<and> slot_of q k = None \<and>
      (case PushResult r k q of None \<Rightarrow> False | Some q' \<Rightarrow> ring_client ops q'))"
| "ring_client (PopR n # ops) q =
     (case PopResults q n of None \<Rightarrow> False | Some (rs, q') \<Rightarrow> ring_client ops q')"

fun pushed :: "'r ring_op list \<Rightarrow> (int \<times> 'r) list" where
  "pushed [] = []"
| "pushed (PushR r k # ops) = (k, r) # pushed ops"
| "pushed (NewR # ops) = pushed ops"
| "pushed (PopR n # ops) = pushed ops"

definition logged :: "(int \<times> 'r) set \<Rightarrow> 'r ring_queue \<Rightarrow> bool" where
  "logged L q \<longleftrightarrow>
     (\<forall>j < length (pending q). \<forall>r. pending q ! j = Some r \<longrightarrow> (head_id q + int j, r) \<in> L)"

lemma deliver_split: "map Some (fst (deliver n xs)) @ snd (deliver n xs) = xs"
  by (induction n xs rule: deliver.induct) (auto split: prod.splits)

lemma deliver_nth:
  assumes "j < length (fst (deliver n xs))"
  shows "j < length xs" and "xs ! j = Some (fst (deliver n xs) ! j)"
proof -
  have "length xs = length (fst (deliver n xs)) + length (snd (deliver n xs))"
    by (subst deliver_split[of n xs, symmetric]) simp
  with assms show "j < length xs" by simp
  show "xs ! j = Some (fst (deliver n xs) ! j)"
    by (subst (1) deliver_split[of n xs, symmetric]) (simp add: nth_append assms)
qed

lemma deliver_rest:
  "snd (deliver n xs) ! j = xs ! (length (fst (deliver n xs)) + j)"
  by (subst (2) deliver_split[of n xs, symmetric]) (simp add: nth_append)

lemma deliver_rest_length:
  "length xs = length (fst (deliver n xs)) + length (snd (deliver n xs))"
  by (subst deliver_split[of n xs, symmetric]) simp

lemma NewReq_full: "IsFull q \<Longrightarrow> snd (NewReq q) = q"
  by (simp add: NewReq_def)

lemma NewReq_head [simp]: "head_id (snd (NewReq q)) = head_id q"
  by (simp add: NewReq_def)

lemma logged_NewReq:
  assumes "ring_inv q" and "logged L q"
  shows "logged L (snd (NewReq q))"
proof (cases "IsFull q")
  case True
  with assms show ?thesis by (simp add: NewReq_full)
next
  case False
  then show ?thesis
    using assms NewReq_refines(2)[OF assms(1) False]
    by (auto simp: logged_def nth_append less_Suc_eq)
qed

lemma ring_inv_NewReq: "ring_inv q \<Longrightarrow> ring_inv (snd (NewReq q))"
  by (cases "IsFull q") (simp_all add: NewReq_full NewReq_refines(1))

lemma ring_exec_logged:
  assumes "ring_inv q" and "ring_client ops q" and "logged L q"
  shows "\<exists>outs q'. ring_exec ops q = Some (outs, q') \<and> ring_inv q' \<and>
           head_id q' = head_id q + int (length outs) \<and>
           (\<forall>k < length outs. (head_id q + int k, outs ! k) \<in> L \<union> set (pushed ops))"
  using assms
proof (induction ops q arbitrary: L rule: ring_exec.induct)
  case (1 q)
  then show ?case by simp
next
  case (2 ops q)
  from "2.IH"[OF ring_inv_NewReq[OF "2.prems"(1)] _ logged_NewReq[OF "2.prems"(1,3)]] "2.prems"(2)
  show ?case by simp
next
  case (3 r k ops q)
  from "3.prems" have k: "head_id q \<le> k" "k < tail_id q" by auto
  from PushResult_refines[OF "3.prems"(1) k, of r] obtain q1 where q1:
    "PushResult r k q = Some q1" "ring_inv q1" "head_id q1 = head_id q"
    "pending q1 = (pending q)[nat (k - head_id q) := Some r]" by blast
  have "nat (k - head_id q) < length (pending q)"
    using k by (simp add: length_pending)
  then have "logged (L \<union> {(k, r)}) q1"
    using "3.prems"(3) k q1(3,4) by (auto simp: logged_def nth_list_update split: if_splits)
  from "3.IH"[OF q1(1,2) _ this] "3.prems"(2) q1 show ?case by auto
next
  case (4 n ops q)
  let ?d = "deliver (nat n) (pending q)"
  from PopResults_refines[OF "4.prems"(1), of n] obtain q1 where q1:
    "PopResults q n = Some (fst ?d, q1)" "ring_inv q1" "pending q1 = snd ?d"
    "head_id q1 = head_id q + int (length (fst ?d))" by blast
  have "logged L q1"
    unfolding logged_def q1(3)
  proof (intro allI impI)
    fix j r assume j: "j < length (snd ?d)" "snd ?d ! j = Some r"
    let ?m = "length (fst ?d) + j"
    have "?m < length (pending q)"
      using j(1) deliver_rest_length[of "pending q" "nat n"] by simp
    moreover have "pending q ! ?m = Some r" using j(2) by (simp add: deliver_rest)
    ultimately have "(head_id q + int ?m, r) \<in> L"
      using "4.prems"(3) unfolding logged_def by blast
    then show "(head_id q1 + int j, r) \<in> L" by (simp add: q1(4) add.assoc)
  qed
  with "4.IH"[OF q1(1) refl q1(2), of L] "4.prems"(2) q1(1)
  obtain outs q2 where q2: "ring_exec ops q1 = Some (outs, q2)" "ring_inv q2"
    "head_id q2 = head_id q1 + int (length outs)"
    "\<forall>k < length outs. (head_id q1 + int k, outs ! k) \<in> L \<union> set (pushed ops)" by auto
  have "\<forall>k < length (fst ?d). (head_id q + int k, fst ?d ! k) \<in> L \<union> set (pushed ops)"
    using "4.prems"(3) deliver_nth[of _ "nat n" "pending q"] by (auto simp: logged_def)
  from indexed_append[OF this q2(4)[unfolded q1(4)]] q2(1,2,3) q1(1,4) show ?case by simp
qed

section \<open>Properties\<close>

text \<open>C16: \<open>PopResults\<close> implements the abstract queue of pending slots: it is never undefined, it
  returns the longest run of completed results from the front that fits the caller's array, it
  removes exactly these from the queue and advances \<open>head_id\<close> by their number.
\<close>

theorem ring_PopResults_refines:
  assumes "ring_inv q"
  shows "\<exists>q'. PopResults q n = Some (fst (deliver (nat n) (pending q)), q') \<and> ring_inv q' \<and>
              pending q' = snd (deliver (nat n) (pending q)) \<and>
              head_id q' = head_id q + int (length (fst (deliver (nat n) (pending q))))"
  using PopResults_refines[OF assms, of n] by blast

theorem ring_PopResults_refines_witness:
  "ring_inv (InflightReqRingQueue (0::nat) 2) \<and>
   (\<exists>q'. PopResults (InflightReqRingQueue (0::nat) 2) 1 = Some ([], q'))"
  using ring_PopResults_refines[OF ring_inv_new[of 2 "0::nat"], of 1]
  by (auto simp: ring_inv_new pending_new)

text \<open>C2: in-order delivery. Whatever the interleaving of creations, completions and pops, and in
  whatever order the requests complete, the \<open>k\<close>-th result the client pops is a result that was
  pushed for request \<open>k\<close>; no operation of the run is undefined.
\<close>

theorem ring_in_order_delivery:
  assumes "0 < n" and "ring_client ops (InflightReqRingQueue d n)"
  shows "\<exists>outs q. ring_exec ops (InflightReqRingQueue d n) = Some (outs, q) \<and>
           head_id q = int (length outs) \<and>
           (\<forall>k < length outs. (int k, outs ! k) \<in> set (pushed ops))"
proof -
  have "logged {} (InflightReqRingQueue d n)"
    by (simp add: logged_def pending_new)
  from ring_exec_logged[OF ring_inv_new[OF assms(1)] assms(2) this]
  show ?thesis by auto
qed

theorem ring_in_order_delivery_witness:
  "ring_client [NewR, NewR, PushR ''b'' 1, PopR 9, PushR ''a'' 0, PopR 9]
     (InflightReqRingQueue [] 2) \<and>
   (\<exists>outs q. ring_exec [NewR, NewR, PushR ''b'' 1, PopR 9, PushR ''a'' 0, PopR 9]
      (InflightReqRingQueue [] 2) = Some (outs, q) \<and> head_id q = int (length outs))"
proof -
  have c: "ring_client [NewR, NewR, PushR ''b'' 1, PopR 9, PushR ''a'' 0, PopR 9]
     (InflightReqRingQueue [] 2)"
    by code_simp
  show ?thesis
    using c ring_in_order_delivery[OF _ c] by auto
qed

end
