(* ===== verification/Crc_Poly.thy ===== *)
theory Crc_Poly
  imports Vesal_Prelude
begin

text \<open>The arithmetic behind the CRC-32C code of \<^verbatim>\<open>src/src/common/checksum_impl.cc\<close>:
  polynomials over GF(2) modulo the CRC-32C polynomial in the bit-reflected
  representation the code uses.  Bit 31 of a word is the coefficient of $x^0$
  and bit 0 the coefficient of $x^{31}$, so that one reduction step of the code,
  \<^verbatim>\<open>b & 1 ? (b >> 1) ^ kCrc32cPolyReflect : b >> 1\<close>, is multiplication by $x$
  (\<open>xstep\<close>).  \<open>pmul\<close> is the product of two such polynomials, defined as an
  exclusive-or sum of shifted copies; it is shown to be bilinear and commutative,
  which gives \<open>pmul_xpow\<close>: multiplying by the polynomial $x^n$ is \<open>n\<close> reduction steps.
  \<open>rval n v\<close> reads a wider carry-less product as a polynomial: bit \<open>k\<close> of
  \<open>v\<close> stands for $x^{n-k}$.\<close>

unbundle bit_operations_syntax

definition kCrc32cPolyReflect :: u32 where
  "kCrc32cPolyReflect = 0x82f63b78"

definition xstep :: "u32 \<Rightarrow> u32" where
  "xstep b = (if bit b 0 then drop_bit 1 b XOR kCrc32cPolyReflect else drop_bit 1 b)"

definition pone :: u32 where
  "pone = 0x80000000"

definition xpow :: "nat \<Rightarrow> u32" where
  "xpow n = (xstep ^^ n) pone"

interpretation xorsum: comm_monoid_set "(XOR) :: u32 \<Rightarrow> u32 \<Rightarrow> u32" 0
  by unfold_locales (simp_all add: ac_simps)

definition pmul :: "u32 \<Rightarrow> u32 \<Rightarrow> u32" where
  "pmul a b = xorsum.F (\<lambda>j. if bit a j then (xstep ^^ (31 - j)) b else 0) {..<32}"

definition rval :: "nat \<Rightarrow> ('w :: len) word \<Rightarrow> u32" where
  "rval n v = xorsum.F (\<lambda>k. if bit v k then xpow (n - k) else 0) {..n}"

definition fits :: "nat \<Rightarrow> ('w :: len) word \<Rightarrow> bool" where
  "fits n v \<longleftrightarrow> (\<forall>k. bit v k \<longrightarrow> k \<le> n)"

text \<open>The \<^verbatim>\<open>crc32\<close> instruction on a \<open>w\<close>-bit operand feeds the bits of the operand,
  least significant first, into the 32-bit remainder; the carry-less multiplication
  instruction is the exclusive-or sum of shifted copies of its second operand.\<close>

definition crc32_insn :: "nat \<Rightarrow> ('w :: len) word \<Rightarrow> u32 \<Rightarrow> u32" where
  "crc32_insn w src crc = foldl (\<lambda>c i. xstep (if bit src i then c XOR 1 else c)) crc [0..<w]"

definition clmul :: "u64 \<Rightarrow> u64 \<Rightarrow> 128 word" where
  "clmul a b = foldr (\<lambda>i acc. if bit a i then push_bit i (ucast b) XOR acc else acc) [0..<64] 0"

subsection \<open>Linearity\<close>

lemma xstep_xor: "xstep (a XOR b) = xstep a XOR xstep b"
  by (simp add: xstep_def bit_xor_iff ac_simps)

lemma xstep_0 [simp]: "xstep 0 = 0"
  by (simp add: xstep_def)

lemma xsteps_xor: "(xstep ^^ n) (a XOR b) = (xstep ^^ n) a XOR (xstep ^^ n) b"
  by (induction n) (simp_all add: xstep_xor)

lemma xsteps_0 [simp]: "(xstep ^^ n) 0 = 0"
  by (induction n) simp_all

lemma xsteps_sum:
  "(xstep ^^ n) (xorsum.F f A) = xorsum.F (\<lambda>i. (xstep ^^ n) (f i)) A"
proof (cases "finite A")
  case True
  then show ?thesis
    by (induction A rule: finite_induct) (simp_all add: xsteps_xor)
next
  case False
  then show ?thesis by simp
qed

lemma xsteps_add: "(xstep ^^ m) ((xstep ^^ n) b) = (xstep ^^ (m + n)) b"
  by (simp add: funpow_add)

lemma xsteps_xpow: "(xstep ^^ m) (xpow n) = xpow (m + n)"
  by (simp add: xpow_def xsteps_add)

lemma pmul_xor_right: "pmul a (b XOR c) = pmul a b XOR pmul a c"
  unfolding pmul_def xorsum.distrib [symmetric]
  by (rule xorsum.cong) (simp_all add: xsteps_xor)

lemma pmul_0_right [simp]: "pmul a 0 = 0"
  by (simp add: pmul_def xorsum.neutral)

lemma pmul_xsteps_right: "pmul a ((xstep ^^ n) b) = (xstep ^^ n) (pmul a b)"
  unfolding pmul_def xsteps_sum
  by (rule xorsum.cong) (simp_all add: xsteps_add add.commute)

lemma pmul_sum_right: "pmul a (xorsum.F f A) = xorsum.F (\<lambda>i. pmul a (f i)) A"
proof (cases "finite A")
  case True
  then show ?thesis
    by (induction A rule: finite_induct) (simp_all add: pmul_xor_right)
next
  case False
  then show ?thesis by simp
qed

subsection \<open>Powers of $x$ and the unit\<close>

lemma xstep_push_bit: "k < 31 \<Longrightarrow> xstep (push_bit (Suc k) 1) = push_bit k 1"
  by (rule bit_word_eqI) (auto simp: xstep_def bit_simps simp del: push_bit_of_1)

lemma xpow_small: "n \<le> 31 \<Longrightarrow> xpow n = push_bit (31 - n) 1"
proof (induction n)
  case 0
  show ?case by (simp add: xpow_def pone_def)
next
  case (Suc n)
  have "31 - n = Suc (31 - Suc n)"
    using Suc.prems by arith
  then have "xpow (Suc n) = xstep (push_bit (Suc (31 - Suc n)) 1)"
    using Suc by (simp only: xpow_def funpow.simps o_def)
  also have "\<dots> = push_bit (31 - Suc n) 1"
    by (rule xstep_push_bit) simp
  finally show ?case .
qed

lemma xor_eq_0_iff: "a XOR b = 0 \<longleftrightarrow> a = (b :: u32)"
  by (metis xor.assoc xor.right_neutral xor_self_eq)

lemma take_bit_Suc_xor:
  "take_bit (Suc n) (a :: u32) = (if bit a n then push_bit n 1 else 0) XOR take_bit n a"
  by (rule bit_word_eqI) (auto simp: bit_simps less_Suc_eq simp del: push_bit_of_1)

lemma xorsum_bits: "xorsum.F (\<lambda>j. if bit a j then push_bit j 1 else 0) {..<n} = take_bit n a"
proof (induction n)
  case (Suc n)
  then show ?case
    by (simp only: lessThan_Suc take_bit_Suc_xor) (simp del: push_bit_of_1)
qed simp

lemma pmul_pone_right [simp]: "pmul a pone = a"
proof -
  have "pmul a pone = xorsum.F (\<lambda>j. if bit a j then push_bit j 1 else 0) {..<32}"
    unfolding pmul_def
    by (rule xorsum.cong) (simp_all add: xpow_def [symmetric] xpow_small)
  then show ?thesis
    by (simp add: xorsum_bits take_bit_word_eq_self)
qed

lemma pmul_xpow_right: "pmul a (xpow n) = (xstep ^^ n) a"
  by (simp add: xpow_def pmul_xsteps_right)

lemma pmul_eq_sum: "pmul a b = xorsum.F (\<lambda>j. if bit b j then (xstep ^^ (31 - j)) a else 0) {..<32}"
proof -
  have "b = xorsum.F (\<lambda>j. if bit b j then xpow (31 - j) else 0) {..<32}"
    using pmul_pone_right [of b] unfolding pmul_def xpow_def by (rule sym)
  then have "pmul a b = pmul a (xorsum.F (\<lambda>j. if bit b j then xpow (31 - j) else 0) {..<32})"
    by simp
  also have "\<dots> = xorsum.F (\<lambda>j. if bit b j then (xstep ^^ (31 - j)) a else 0) {..<32}"
    unfolding pmul_sum_right by (rule xorsum.cong) (simp_all add: pmul_xpow_right)
  finally show ?thesis .
qed

lemma pmul_commute: "pmul a b = pmul b a"
  by (simp add: pmul_eq_sum [of a b]) (simp add: pmul_def)

lemma pmul_xpow: "pmul (xpow n) b = (xstep ^^ n) b"
  by (simp add: pmul_commute [of "xpow n"] pmul_xpow_right)

lemma xstep_eq_0_iff: "xstep b = 0 \<longleftrightarrow> b = 0"
proof
  assume z: "xstep b = 0"
  have "\<not> bit b 0"
  proof
    assume "bit b 0"
    with z have "drop_bit 1 b = kCrc32cPolyReflect"
      by (simp add: xstep_def xor_eq_0_iff)
    then have "bit (drop_bit 1 b) 31"
      by (simp add: kCrc32cPolyReflect_def)
    then show False
      using bit_imp_le_length [of b 32] by (simp add: bit_drop_bit_eq)
  qed
  with z have "drop_bit 1 b = 0" "\<not> bit b 0"
    by (simp_all add: xstep_def)
  then show "b = 0"
    by (metis bit_0 bit_eq_rec div_0 drop_bit_Suc drop_bit_0 drop_bit_eq_div One_nat_def
        even_zero power_one_right)
qed simp

lemma xpow_nonzero: "xpow n \<noteq> 0"
  by (induction n) (simp_all add: xpow_def pone_def xstep_eq_0_iff)

subsection \<open>The \<^verbatim>\<open>crc32\<close> instruction\<close>

lemma crc32_insn_0 [simp]: "crc32_insn 0 src c = c"
  by (simp add: crc32_insn_def)

lemma crc32_insn_Suc:
  "crc32_insn (Suc w) src c = xstep (if bit src w then crc32_insn w src c XOR 1 else crc32_insn w src c)"
  by (simp add: crc32_insn_def)

lemma crc32_insn_linear: "crc32_insn w src c = (xstep ^^ w) c XOR crc32_insn w src 0"
  by (induction w) (simp_all add: crc32_insn_Suc xstep_xor ac_simps)

lemma crc32_insn_zero_operand [simp]: "crc32_insn w 0 c = (xstep ^^ w) c"
  by (induction w) (simp_all add: crc32_insn_Suc)

lemma crc32_insn_append:
  "crc32_insn (m + n) src c = crc32_insn n (drop_bit m src) (crc32_insn m src c)"
  by (induction n) (simp_all add: crc32_insn_Suc bit_drop_bit_eq)

lemma crc32_insn_cong:
  "(\<And>i. i < w \<Longrightarrow> bit s i \<longleftrightarrow> bit t i) \<Longrightarrow> crc32_insn w s c = crc32_insn w t c"
  by (induction w) (simp_all add: crc32_insn_Suc)

lemma one_eq_xpow: "(1 :: u32) = xpow 31"
  by (simp add: xpow_small)

lemma rval_Suc: "rval (Suc n) v = (if bit v (Suc n) then pone else 0) XOR xstep (rval n v)"
proof -
  have "xorsum.F (\<lambda>k. if bit v k then xpow (Suc n - k) else 0) {..n}
      = xorsum.F (\<lambda>k. (xstep ^^ 1) (if bit v k then xpow (n - k) else 0)) {..n}"
    by (rule xorsum.cong) (auto simp: xpow_def Suc_diff_le)
  then show ?thesis
    by (simp add: rval_def atMost_Suc xsteps_sum [of 1, simplified] xpow_def)
qed

lemma crc32_insn_rval: "crc32_insn (Suc w) src 0 = (xstep ^^ 32) (rval w src)"
proof (induction w)
  case 0
  show ?case
    by (simp add: crc32_insn_Suc rval_def one_eq_xpow xpow_def eval_nat_numeral)
next
  case (Suc w)
  have x: "xstep 1 = (xstep ^^ 32) pone"
    by (simp add: one_eq_xpow xpow_def eval_nat_numeral)
  show ?case
    by (simp add: crc32_insn_Suc [of "Suc w"] Suc rval_Suc xsteps_xor xstep_xor x
        funpow_swap1 ac_simps del: funpow.simps)
qed

subsection \<open>Carry-less products\<close>

lemma rval_xor: "rval n (a XOR b) = rval n a XOR rval n b"
  unfolding rval_def xorsum.distrib [symmetric]
  by (rule xorsum.cong) (simp_all add: bit_xor_iff)

lemma rval_0 [simp]: "rval n 0 = 0"
  by (simp add: rval_def xorsum.neutral)

lemma rval_eq: "rval 31 (a :: u32) = a"
proof -
  have "{..31} = {..<32 :: nat}" by auto
  then have "rval 31 a = pmul a pone"
    by (simp only: rval_def pmul_def xpow_def)
  then show ?thesis by simp
qed

lemma rval_cong:
  "(\<And>k. k \<le> n \<Longrightarrow> bit v k \<longleftrightarrow> bit w k) \<Longrightarrow> rval n v = rval n w"
  unfolding rval_def by (rule xorsum.cong) auto

lemma rval_low_bits:
  assumes "fits m v"
  shows "rval (m + s) v = (xstep ^^ s) (rval m v)"
proof (induction s)
  case (Suc s)
  have "\<not> bit v (Suc (m + s))"
    using assms by (force simp: fits_def)
  then show ?case
    using Suc by (simp add: rval_Suc)
qed simp

lemma rval_push_bit:
  fixes v :: "('w :: len) word"
  assumes "n + s < LENGTH('w)"
  shows "rval (n + s) (push_bit s v) = rval n v"
  using assms
proof (induction n)
  case 0
  have "rval s (push_bit s v) = xorsum.F (\<lambda>k. if k = s \<and> bit v 0 then pone else 0) {..s}"
    unfolding rval_def using 0
    by (intro xorsum.cong) (auto simp: bit_push_bit_iff xpow_def)
  also have "\<dots> = (if bit v 0 then pone else 0)"
    by (cases "bit v 0") (simp_all add: xorsum.neutral)
  finally show ?case
    by (simp add: rval_def xpow_def)
next
  case (Suc n)
  then have "bit (push_bit s v) (Suc (n + s)) \<longleftrightarrow> bit v (Suc n)"
    by (simp add: bit_push_bit_iff)
  then show ?case
    using Suc by (simp add: rval_Suc)
qed

lemma rval_ucast:
  "n < LENGTH('b) \<Longrightarrow> rval n (ucast (v :: ('a :: len) word) :: ('b :: len) word) = rval n v"
  by (rule rval_cong) (auto simp: bit_ucast_iff)

lemma rval_sum_left: "pmul (rval n a) b = xorsum.F (\<lambda>k. if bit a k then (xstep ^^ (n - k)) b else 0) {..n}"
  unfolding rval_def pmul_commute [of _ b] pmul_sum_right
  by (rule xorsum.cong) (simp_all add: pmul_xpow_right)

lemma rval_shifted:
  fixes b :: u64
  assumes "fits m b" and "i \<le> n" and "n + m < 128"
  shows "rval (n + m) (push_bit i (ucast b :: 128 word)) = (xstep ^^ (n - i)) (rval m b)"
proof -
  have b': "fits (m + i) (push_bit i (ucast b :: 128 word))"
    using assms(1) by (auto simp: fits_def bit_simps)
  have "rval (n + m) (push_bit i (ucast b :: 128 word))
      = (xstep ^^ (n - i)) (rval (m + i) (push_bit i (ucast b :: 128 word)))"
    using rval_low_bits [OF b', where s = "n - i"] assms(2) by (simp add: ac_simps)
  also have "rval (m + i) (push_bit i (ucast b :: 128 word)) = rval m b"
    using assms by (simp add: rval_push_bit rval_ucast)
  finally show ?thesis .
qed

lemma rval_clmul:
  assumes a: "fits n a" and b: "fits m b"
    and nm: "n < 64" "n + m < 128"
  shows "rval (n + m) (clmul a b) = pmul (rval n a) (rval m b)"
proof -
  have "rval (n + m) (foldr (\<lambda>i acc. if bit a i then push_bit i (ucast b) XOR acc else acc) js (0 :: 128 word))
      = xorsum.F (\<lambda>i. if bit a i then (xstep ^^ (n - i)) (rval m b) else 0) (set js)"
    if "distinct js" for js
    using that
  proof (induction js)
    case (Cons i js)
    then show ?case
      using rval_shifted [OF b, where i = i and n = n] a nm by (auto simp: rval_xor fits_def)
  qed simp
  from this [of "[0..<64]"] have "rval (n + m) (clmul a b)
      = xorsum.F (\<lambda>i. if bit a i then (xstep ^^ (n - i)) (rval m b) else 0) {0..<64}"
    by (simp only: clmul_def set_upt distinct_upt simp_thms)
  also have "\<dots> = xorsum.F (\<lambda>i. if bit a i then (xstep ^^ (n - i)) (rval m b) else 0) {..n}"
    by (rule xorsum.mono_neutral_right) (use nm a in \<open>auto simp: fits_def\<close>)
  also have "\<dots> = pmul (rval n a) (rval m b)"
    by (simp add: rval_sum_left)
  finally show ?thesis .
qed

end
