(* ===== verification/Crc_Table.thy ===== *)
theory Crc_Table
  imports Crc_Poly
begin

text \<open>The table \<^verbatim>\<open>kCRC32X64NTable\<close> of \<^verbatim>\<open>src/src/common/checksum_impl.cc\<close>, row by
  row, and the proof that each of its 324 initialised entries is the power of $x$ the
  code takes it for: entry \<open>64 * i + j\<close> is $x^{8 j 64^i}$.  The array has 384 elements;
  the last 60 have no initialiser and are zero.  A row is verified by multiplying from
  entry to entry by the row's generator; \<open>row_ok\<close> shares the shifted copies of the
  generator over the row.\<close>

unbundle bit_operations_syntax

definition x64n_row0 :: "u32 list" where
  "x64n_row0 = [
    0x80000000, 0x00800000, 0x00008000, 0x00000080, 0x82f63b78, 0xfbc3faf9, 0x8b277743, 0x52a0c93f,
    0x6ea2d55c, 0x1c08b7d6, 0xf56e0ef4, 0x34019664, 0xa66805eb, 0x7a1f6b24, 0xe75d06aa, 0xc94ec098,
    0x18b8ea18, 0x9a9f274a, 0x2a03aaa3, 0xb13145f8, 0x790606ff, 0xad045557, 0x8542ba6d, 0xde6b9d0b,
    0x9957c0a6, 0x8473058e, 0x2e0af75a, 0x3ae9f81c, 0x5d27e147, 0x95ec5eb6, 0x9421797f, 0x2f1f4950,
    0x510ac59a, 0xf91bdeea, 0x882b9bfc, 0xbea58b3e, 0x9c25531d, 0xafeaaeef, 0xbd8c7e90, 0x92157069,
    0x19e65dde, 0x7fb2b8d1, 0x21c7d010, 0x107f00bf, 0xec1631ed, 0x5cf4f2f8, 0x79ebc348, 0xcbdbaeb0,
    0xb2dea967, 0xb5be2920, 0x200830f7, 0x278403ae, 0x0e148e82, 0x63c35f01, 0xf208405c, 0x1c941d43,
    0x52377a55, 0x6486f9b5, 0x8780e02c, 0x6d79c1ee, 0x4f256efc, 0xbe6285cb, 0x5abaef7a, 0x1a20c6da]"

definition x64n_row1 :: "u32 list" where
  "x64n_row1 = [
    0x80000000, 0xb82be955, 0xb8fdb1e7, 0x18e4a304, 0x88e56f72, 0x9030a49c, 0x67db2c4a, 0xe744dcb2,
    0x74c360a4, 0x8e9906a7, 0xb469724f, 0x24d84074, 0x631bb273, 0xee2a2d56, 0x654f84e7, 0x629069c6,
    0xe4172b16, 0xd3cb2137, 0x4f47bf52, 0x35202632, 0x71892b1b, 0xd27285db, 0x69c2af09, 0xd271158e,
    0x835305c9, 0xeaa500ac, 0x0e36a726, 0x46951631, 0x196b1eae, 0x584ea70d, 0x15e8653c, 0xb5a65826,
    0x0d65762a, 0xebfcce28, 0xe6aef08f, 0x013ee85b, 0xafc81338, 0x61c30b85, 0xe31e7f5b, 0x5e3750cd,
    0xb5a50ab7, 0x1977c75d, 0x46bf959e, 0xe78cd046, 0xf373c3ac, 0x950979dd, 0xe31b4008, 0xc726c863,
    0x5f60970f, 0xf977f383, 0x9e7b1c10, 0xea2110f8, 0xd46d3063, 0xe2220529, 0xebd59d26, 0xedbe69a1,
    0x3a5275ea, 0x1a2bbe21, 0xd597ad7e, 0xcb8c45a6, 0x02331c01, 0xe8639712, 0xa957c550, 0xbcfda51c]"

definition x64n_row2 :: "u32 list" where
  "x64n_row2 = [
    0x80000000, 0x35d73a62, 0x28461564, 0x43eefc9f, 0xbf455269, 0x5edcdeb9, 0x65059450, 0x4e6f41a4,
    0xe2ea32dc, 0xf5b95b32, 0x695a4c87, 0xf204502c, 0x9a4f01b6, 0x941a0916, 0x4303cb97, 0x4c3d3d65,
    0xfe7740e6, 0xf0cb95d2, 0xab4c722a, 0xba35e2e1, 0x99569602, 0x294060e6, 0xd65a1d78, 0x18103ff9,
    0x78b57ca2, 0x97b3a098, 0x30a8edff, 0x3fb4e611, 0x999dcda1, 0xd9dd2e27, 0x5918f954, 0x8ee73513,
    0xf946610b, 0xa5f4742d, 0x424b8555, 0xd017c143, 0xc274d1e2, 0x0280b04e, 0xd25bb5e0, 0x552a0918,
    0xf5942afb, 0x55d7a3f8, 0xd1b533ee, 0x9fa8def5, 0x24c42589, 0x5988dbb3, 0xa7e1cab4, 0xebaee1b4,
    0xa0a51f5f, 0xbd1a9096, 0x1ced05cc, 0x6748e206, 0x506431b0, 0x6c399e24, 0x30af367f, 0x129ee2f5,
    0x8fd57416, 0x85ee5ed0, 0x97504a07, 0x52e710c7, 0x4ea3e89b, 0xde8567b5, 0xb5c84194, 0x80526793]"

definition x64n_row3 :: "u32 list" where
  "x64n_row3 = [
    0x80000000, 0x3c204f8f, 0x538586e3, 0x683988b2, 0x59726915, 0x30c6966d, 0x5be8b36e, 0x42c5623c,
    0x734d5309, 0x1084fed0, 0x68a5f0f9, 0x1573fe60, 0xdb1b3315, 0xe0a82539, 0xe5c304f7, 0xce8068d1,
    0xbc1ac763, 0x47514f16, 0xf7f919a7, 0x5005a217, 0x11b31f9d, 0x496f21b8, 0x0bc2a806, 0xbba39916,
    0x5414bce3, 0x401f0313, 0xe0ee85d5, 0x4fb6f7ac, 0x54f2f77b, 0x738279cb, 0x6b645133, 0x05a44de1,
    0x7d0722cc, 0x8ca9c7c7, 0x50806311, 0x58ba16a0, 0xbae70d08, 0xde3a8229, 0x6652a6cc, 0x36b6490b,
    0x238acb2b, 0xe3f9a08b, 0x23a7923f, 0xb0609b9b, 0xd2074e2b, 0x342f6e39, 0x5bcf2cf2, 0x8096907d,
    0x546dfa6e, 0x75337ed4, 0x9c1de396, 0x91e7afe7, 0x3f76a96c, 0x00032b5e, 0x1a2a93d0, 0x3b0c8728,
    0xa3aa3946, 0x9b170192, 0xcc33e9f6, 0x4152bdb8, 0xf054ca48, 0x0369fe6a, 0x6ec7bef8, 0x3fe8b9ff]"

definition x64n_row4 :: "u32 list" where
  "x64n_row4 = [
    0x80000000, 0xd289cabe, 0xe94ca9bc, 0x6ac5538f, 0x05b74f3f, 0x9e0b2298, 0x14de47cd, 0x3a9fb07d,
    0xa51e1f42, 0xfe578179, 0x038d778c, 0x5fe3cf44, 0xb7c64e40, 0x20cbb8e3, 0x4f04f803, 0x56745358,
    0x40000000, 0x6944e55f, 0x74a654de, 0xb79492bf, 0x802d9ce7, 0x4f05914c, 0x8899189e, 0x9fb9e346,
    0x528f0fa1, 0xfdddfbc4, 0x01c6bbc6, 0x2ff1e7a2, 0x5be32720, 0x9293e709, 0xa5744779, 0x2b3a29ac,
    0x20000000, 0xb65449d7, 0x3a532a6f, 0xd93c7227, 0xc2e0f50b, 0x2782c8a6, 0x444c8c4f, 0x4fdcf1a3,
    0xabb1bca8, 0x7eeefde2, 0x00e35de3, 0x17f8f3d1, 0x2df19390, 0xcbbfc8fc, 0xd04c18c4, 0x159d14d6,
    0x10000000, 0xd9dc1f93, 0x9fdfae4f, 0xee68026b, 0xe38641fd, 0x13c16453, 0xa0d07d5f, 0xa51843a9,
    0x55d8de54, 0x3f777ef1, 0x82879589, 0x890a4290, 0x16f8c9c8, 0x65dfe47e, 0x68260c62, 0x0ace8a6b]"

definition x64n_row5 :: "u32 list" where
  "x64n_row5 = [
    0x80000000, 0x08000000, 0x00800000, 0x00080000]"

definition kCRC32X64NTable :: "u32 list" where
  "kCRC32X64NTable =
    concat [x64n_row0, x64n_row1, x64n_row2, x64n_row3, x64n_row4, x64n_row5] @ replicate 60 0"

fun xsteps_list :: "nat \<Rightarrow> u32 \<Rightarrow> u32 list" where
  "xsteps_list 0 g = []"
| "xsteps_list (Suc n) g = g # xsteps_list n (xstep g)"

fun comb :: "u32 \<Rightarrow> nat \<Rightarrow> u32 list \<Rightarrow> u32" where
  "comb e n [] = 0"
| "comb e n (x # xs) = (if bit e (n - 1) then x XOR comb e (n - 1) xs else comb e (n - 1) xs)"

fun row_ok :: "u32 list \<Rightarrow> u32 \<Rightarrow> u32 list \<Rightarrow> bool" where
  "row_ok G e [] \<longleftrightarrow> True"
| "row_ok G e (y # ys) \<longleftrightarrow> y = e \<and> row_ok G (comb e 32 G) ys"

subsection \<open>Soundness of the row check\<close>

lemma comb_xsteps_list:
  "comb a n (xsteps_list n b) = xorsum.F (\<lambda>j. if bit a j then (xstep ^^ (n - 1 - j)) b else 0) {..<n}"
proof (induction n arbitrary: b)
  case (Suc n)
  have "xorsum.F (\<lambda>j. if bit a j then (xstep ^^ (n - 1 - j)) (xstep b) else 0) {..<n}
      = xorsum.F (\<lambda>j. if bit a j then (xstep ^^ (n - j)) b else 0) {..<n}"
  proof (rule xorsum.cong)
    fix j assume "j \<in> {..<n}"
    then have "n - j = Suc (n - 1 - j)" by auto
    then show "(if bit a j then (xstep ^^ (n - 1 - j)) (xstep b) else 0)
        = (if bit a j then (xstep ^^ (n - j)) b else 0)"
      by (simp add: funpow_swap1)
  qed simp
  then show ?case
    by (simp add: Suc lessThan_Suc cong: if_cong)
qed simp

lemma comb_eq_pmul: "comb e 32 (xsteps_list 32 g) = pmul e g"
  by (simp add: comb_xsteps_list pmul_def cong: if_cong)

lemma row_ok_nth:
  "row_ok (xsteps_list 32 (xpow k)) (xpow m) ys \<Longrightarrow> j < length ys \<Longrightarrow> ys ! j = xpow (m + j * k)"
proof (induction ys arbitrary: m j)
  case (Cons y ys)
  have "row_ok (xsteps_list 32 (xpow k)) (xpow (k + m)) ys"
    using Cons.prems by (simp add: comb_eq_pmul pmul_xpow_right xsteps_xpow)
  with Cons show ?case
    by (cases j) (auto simp: ac_simps)
qed simp

subsection \<open>The rows\<close>

lemma xstep_num: "xstep b = (if odd b then (b div 2) XOR 0x82f63b78 else b div 2)"
  by (simp add: xstep_def kCrc32cPolyReflect_def drop_bit_eq_div bit_0)

lemma xsteps_list_num:
  "xsteps_list (numeral n) b = b # xsteps_list (pred_numeral n) (xstep b)"
  by (simp add: numeral_eq_Suc)

lemmas row_eval = xsteps_list_num xstep_num

lemma row0_ok: "row_ok (xsteps_list 32 0x00800000) 0x80000000 (x64n_row0 @ [0xb82be955])"
  by (simp add: x64n_row0_def row_eval)

lemma row1_ok: "row_ok (xsteps_list 32 0xb82be955) 0x80000000 (x64n_row1 @ [0x35d73a62])"
  by (simp add: x64n_row1_def row_eval)

lemma row2_ok: "row_ok (xsteps_list 32 0x35d73a62) 0x80000000 (x64n_row2 @ [0x3c204f8f])"
  by (simp add: x64n_row2_def row_eval)

lemma row3_ok: "row_ok (xsteps_list 32 0x3c204f8f) 0x80000000 (x64n_row3 @ [0xd289cabe])"
  by (simp add: x64n_row3_def row_eval)

lemma row4_ok: "row_ok (xsteps_list 32 0xd289cabe) 0x80000000 (x64n_row4 @ [0x08000000])"
  by (simp add: x64n_row4_def row_eval)

lemma row5_ok: "row_ok (xsteps_list 32 0x08000000) 0x80000000 x64n_row5"
  by (simp add: x64n_row5_def row_eval)

lemma length_rows [simp]:
  "length x64n_row0 = 64" "length x64n_row1 = 64" "length x64n_row2 = 64"
  "length x64n_row3 = 64" "length x64n_row4 = 64" "length x64n_row5 = 4"
  by (simp_all add: x64n_row0_def x64n_row1_def x64n_row2_def x64n_row3_def x64n_row4_def
      x64n_row5_def)

lemma length_kCRC32X64NTable [simp]: "length kCRC32X64NTable = 384"
  by (simp add: kCRC32X64NTable_def)

lemma row_step:
  assumes "row_ok (xsteps_list 32 g) 0x80000000 (row @ [g'])" "g = xpow k" "length row = 64"
  shows "\<And>j. j < 64 \<Longrightarrow> row ! j = xpow (j * k)" and "g' = xpow (64 * k)"
proof -
  have r: "row_ok (xsteps_list 32 (xpow k)) (xpow 0) (row @ [g'])"
    using assms by (simp add: xpow_def pone_def)
  show "row ! j = xpow (j * k)" if "j < 64" for j
    using row_ok_nth [OF r, of j] that assms(3) by (simp add: nth_append)
  show "g' = xpow (64 * k)"
    using row_ok_nth [OF r, of 64] assms(3) by (simp add: nth_append)
qed

lemma gen0: "0x00800000 = xpow 8"
  by (simp add: xpow_small)

lemma gen1: "0xb82be955 = xpow (8 * 64 ^ 1)"
  using row_step(2) [OF row0_ok gen0] by simp

lemma gen2: "0x35d73a62 = xpow (8 * 64 ^ 2)"
  using row_step(2) [OF row1_ok gen1] by simp

lemma gen3: "0x3c204f8f = xpow (8 * 64 ^ 3)"
  using row_step(2) [OF row2_ok gen2] by simp

lemma gen4: "0xd289cabe = xpow (8 * 64 ^ 4)"
  using row_step(2) [OF row3_ok gen3] by simp

lemma gen5: "0x08000000 = xpow (8 * 64 ^ 5)"
  using row_step(2) [OF row4_ok gen4] by simp

lemma row5_nth: "j < 4 \<Longrightarrow> x64n_row5 ! j = xpow (j * (8 * 64 ^ 5))"
  using row_ok_nth [of "8 * 64 ^ 5" 0 x64n_row5 j] row5_ok gen5 by (simp add: xpow_def pone_def)

lemmas rows_nth =
  row_step(1) [OF row0_ok gen0 length_rows(1)] row_step(1) [OF row1_ok gen1 length_rows(2)]
  row_step(1) [OF row2_ok gen2 length_rows(3)] row_step(1) [OF row3_ok gen3 length_rows(4)]
  row_step(1) [OF row4_ok gen4 length_rows(5)] row5_nth

lemma table_nth:
  assumes "i < 6" "j < 64" "i = 5 \<Longrightarrow> j < 4"
  shows "kCRC32X64NTable ! (i * 64 + j) = xpow (8 * (j * 64 ^ i))"
proof -
  consider "i = 5" | "i = 4" | "i = 3" | "i = 2" | "i = 1" | "i = 0"
    using assms(1) by linarith
  then show ?thesis
    using assms(2,3)
    by cases (simp_all add: kCRC32X64NTable_def nth_append rows_nth mult.commute [of j])
qed

end
