(* ===== verification/Byte_Order.thy ===== *)
theory Byte_Order
  imports Vesal_Prelude
begin

text \<open>Integers as byte sequences: little-endian loads and stores, the byte swaps of
  \<^verbatim>\<open>byteswap.h\<close>, and copies of byte blocks into a buffer.\<close>

unbundle bit_operations_syntax

fun load_le :: "u8 list \<Rightarrow> u64" where
  "load_le [] = 0"
| "load_le (b # bs) = ucast b OR push_bit 8 (load_le bs)"

primrec store_le :: "nat \<Rightarrow> u64 \<Rightarrow> u8 list" where
  "store_le 0 x = []"
| "store_le (Suc n) x = ucast x # store_le n (drop_bit 8 x)"

definition bswap_64 :: "u64 \<Rightarrow> u64" where
  "bswap_64 x = load_le (rev (store_le 8 x))"

text \<open>The bytes of a 64-bit variable in memory; \<open>le\<close> is \<^verbatim>\<open>__BYTE_ORDER == __LITTLE_ENDIAN\<close>.\<close>

definition mem_bytes :: "bool \<Rightarrow> u64 \<Rightarrow> u8 list" where
  "mem_bytes le x = (if le then store_le 8 x else rev (store_le 8 x))"

definition mem_value :: "bool \<Rightarrow> u8 list \<Rightarrow> u64" where
  "mem_value le bs = (if le then load_le bs else load_le (rev bs))"

text \<open>\<^verbatim>\<open>memcpy(buf + k, bs, n)\<close> for a block inside the buffer.\<close>

definition overwrite :: "nat \<Rightarrow> 'a list \<Rightarrow> 'a list \<Rightarrow> 'a list" where
  "overwrite k bs buf = take k buf @ bs @ drop (k + length bs) buf"

lemma length_store_le [simp]: "length (store_le n x) = n"
  by (induction n arbitrary: x) auto

lemma load_store_le: "load_le (store_le n x) = take_bit (8 * n) x"
proof (induction n arbitrary: x)
  case (Suc n)
  show ?case
    by (rule bit_word_eqI) (auto simp: Suc bit_simps less_diff_conv)
qed simp

lemma load_store_le_8 [simp]: "load_le (store_le 8 x) = x"
  using load_store_le [of 8 x] by (simp add: take_bit_word_eq_self)

lemma bit_load_le_low: "i < 8 \<Longrightarrow> bit (load_le (b # bs)) i \<longleftrightarrow> bit b i"
  by (auto simp: bit_simps)

lemma drop_bit_load_le:
  "length bs < 8 \<Longrightarrow> drop_bit 8 (load_le (b # bs)) = load_le bs"
proof -
  have fit: "length bs \<le> n \<Longrightarrow> bit (load_le bs) i \<Longrightarrow> i < 8 * n" for bs n i
  proof (induction bs arbitrary: n i)
    case (Cons b bs)
    then show ?case
      by (cases n) (force simp: bit_simps dest: bit_imp_le_length)+
  qed simp
  assume "length bs < 8"
  then show ?thesis
    using fit [of bs 7] by (intro bit_word_eqI) (force simp: bit_simps dest: bit_imp_le_length)
qed

lemma store_load_le: "length bs \<le> 8 \<Longrightarrow> store_le (length bs) (load_le bs) = bs"
proof (induction bs)
  case (Cons b bs)
  have "ucast (load_le (b # bs)) = b"
    by (rule bit_word_eqI) (auto simp: bit_simps dest: bit_imp_le_length)
  then show ?case
    using Cons drop_bit_load_le [of bs b] by simp
qed simp

lemma store_load_le_8: "length bs = 8 \<Longrightarrow> store_le 8 (load_le bs) = bs"
  using store_load_le [of bs] by simp

lemma store_bswap: "store_le 8 (bswap_64 x) = rev (store_le 8 x)"
  by (simp add: bswap_64_def store_load_le_8)

lemma bswap_64_involution [simp]: "bswap_64 (bswap_64 x) = x"
  unfolding bswap_64_def [of "bswap_64 x"] store_bswap by simp

lemma mem_value_bytes [simp]: "mem_value le (mem_bytes le x) = x"
  by (simp add: mem_value_def mem_bytes_def)

lemma length_overwrite [simp]: "k + length bs \<le> length buf \<Longrightarrow> length (overwrite k bs buf) = length buf"
  by (simp add: overwrite_def)

end
