(* ===== verification/Checksum.thy ===== *)
theory Checksum
  imports Crc_Table Byte_Order
begin

text \<open>The checksums of \<^verbatim>\<open>src/src/common/checksum_impl.{h,cc}\<close>: the accelerated CRC-32C
  loop, the combination of the checksums of two adjacent buffers in its portable form
  (\<open>CRC32CombineGen\<close>, \<open>crc32Mult\<close>) and in its carry-less multiplication form
  (\<open>crc32ff_pclmul\<close>, \<open>crc32mul_pclmul\<close>), and \<open>XxHash\<close>.
  A buffer is its list of bytes; \<^verbatim>\<open>size_t\<close> is \<open>u64\<close>.  The flag \<open>hw\<close> is the outcome of
  \<^verbatim>\<open>__builtin_cpu_supports\<close> for \<^verbatim>\<open>pclmul\<close> and \<^verbatim>\<open>sse4.2\<close>; \<open>None\<close> is an endless loop, an
  access outside the table or a failed \<^verbatim>\<open>VESAL_CHECK\<close>, and the theorems show where it does
  not occur.\<close>

unbundle bit_operations_syntax

subsection \<open>The accelerated loop\<close>

function crc32q_loop :: "u8 list \<Rightarrow> u32 \<Rightarrow> u32 \<times> u8 list" where
  "crc32q_loop buf crc =
    (if 8 \<le> length buf
     then crc32q_loop (drop 8 buf) (crc32_insn 64 (load_le (take 8 buf)) crc)
     else (crc, buf))"
  by pat_completeness auto

termination crc32q_loop
  by (relation "measure (\<lambda>(buf, crc). length buf)") auto

fun crc32b_loop :: "u8 list \<Rightarrow> u32 \<Rightarrow> u32" where
  "crc32b_loop [] crc = crc"
| "crc32b_loop (b # buf) crc = crc32b_loop buf (crc32_insn 8 b crc)"

definition ComputeCRC32_Accelerate :: "u32 \<Rightarrow> u8 list \<Rightarrow> u32" where
  "ComputeCRC32_Accelerate init_crc buf =
    (let (crc, rest) = crc32q_loop buf init_crc in crc32b_loop rest crc)"

definition Get_ComputeCRC32_Impl :: "bool \<Rightarrow> (u32 \<Rightarrow> u8 list \<Rightarrow> u32) option" where
  "Get_ComputeCRC32_Impl sse4_2 = (if sse4_2 then Some ComputeCRC32_Accelerate else None)"

definition ComputeCRC32 :: "bool \<Rightarrow> u32 \<Rightarrow> u8 list \<Rightarrow> u32 option" where
  "ComputeCRC32 sse4_2 init_crc buf =
    (case Get_ComputeCRC32_Impl sse4_2 of
       None \<Rightarrow> None
     | Some compute_crc32_impl \<Rightarrow> Some (compute_crc32_impl init_crc buf))"

subsection \<open>Products of two polynomials\<close>

definition lo64 :: "128 word \<Rightarrow> u64" where
  "lo64 v = ucast v"

definition hi64 :: "128 word \<Rightarrow> u64" where
  "hi64 v = ucast (drop_bit 64 v)"

definition crc32mul_pclmul :: "u32 \<Rightarrow> u32 \<Rightarrow> u32" where
  "crc32mul_pclmul a b =
    (let v = clmul (ucast a) (ucast b);
         m = lo64 v;
         lo = ucast (drop_bit 31 m) :: u32;
         hi = ucast (push_bit 1 (m AND 0x7fffffff)) :: u32
     in crc32_insn 32 (0 :: u32) hi XOR lo)"

partial_function (option) crc32Mult_loop :: "u32 \<Rightarrow> u32 \<Rightarrow> u32 \<Rightarrow> u32 \<Rightarrow> u32 option" where
  "crc32Mult_loop a b m p =
    (if a AND m \<noteq> 0 \<and> a AND (m - 1) = 0 then Some (p XOR b)
     else crc32Mult_loop a
            (if b AND 1 \<noteq> 0 then drop_bit 1 b XOR kCrc32cPolyReflect else drop_bit 1 b)
            (drop_bit 1 m)
            (if a AND m \<noteq> 0 then p XOR b else p))"

definition crc32Mult :: "bool \<Rightarrow> u32 \<Rightarrow> u32 \<Rightarrow> u32 option" where
  "crc32Mult hw a b =
    (if hw then Some (crc32mul_pclmul a b) else crc32Mult_loop a b 0x80000000 0)"

subsection \<open>Combination\<close>

definition reduce_len :: "u64 \<Rightarrow> u64" where
  "reduce_len len =
    (if 0x80000000 \<le> len then
       let len = (len AND 0x7fffffff) + drop_bit 31 len in
       if 0x80000000 \<le> len then (len AND 0x7fffffff) + drop_bit 31 len else len
     else len)"

definition table_at :: "nat \<Rightarrow> u32 option" where
  "table_at k = (if k < 384 then Some (kCRC32X64NTable ! k) else None)"

partial_function (option) gen_skip :: "u64 \<Rightarrow> nat \<Rightarrow> (u64 \<times> nat) option" where
  "gen_skip len i =
    (if len AND 63 = 0 then gen_skip (drop_bit 6 len) (i + 1) else Some (len, i))"

function gen_loop :: "bool \<Rightarrow> u64 \<Rightarrow> nat \<Rightarrow> u32 \<Rightarrow> u32 option" where
  "gen_loop hw len i p =
    (if len = 0 then Some p
     else if len AND 63 \<noteq> 0 then
       (case table_at (i * 64 + unat (len AND 63)) of
          None \<Rightarrow> None
        | Some t \<Rightarrow>
            (case crc32Mult hw t p of
               None \<Rightarrow> None
             | Some p' \<Rightarrow> gen_loop hw (drop_bit 6 len) (i + 1) p'))
     else gen_loop hw (drop_bit 6 len) (i + 1) p)"
  by pat_completeness auto

lemma unat_drop_bit_6: "unat (drop_bit 6 (len :: u64)) = unat len div 64"
  by (subst unat_drop_bit_eq) (simp add: drop_bit_eq_div)

lemma drop_bit_6_less: "len \<noteq> 0 \<Longrightarrow> unat (drop_bit 6 (len :: u64)) < unat len"
  by (simp add: unat_drop_bit_6 unat_gt_0)

termination gen_loop
  by (relation "measure (\<lambda>(hw, len, i, p). unat len)") (auto simp: drop_bit_6_less)

definition CRC32CombineGen :: "bool \<Rightarrow> u64 \<Rightarrow> u32 option" where
  "CRC32CombineGen hw len =
    (let len = reduce_len len in
     if len = 0 then Some 0x80000000
     else
       (case gen_skip len 0 of
          None \<Rightarrow> None
        | Some (len, i) \<Rightarrow>
            (case table_at (i * 64 + unat (len AND 63)) of
               None \<Rightarrow> None
             | Some p \<Rightarrow> gen_loop hw (drop_bit 6 len) (i + 1) p)))"

definition CRC32CombineOp :: "bool \<Rightarrow> u32 \<Rightarrow> u32 \<Rightarrow> u32 \<Rightarrow> u32 option" where
  "CRC32CombineOp hw crc1 crc2 op =
    (case crc32Mult hw op crc1 of None \<Rightarrow> None | Some r \<Rightarrow> Some (r XOR crc2))"

definition ff_step :: "u32 \<Rightarrow> nat \<Rightarrow> 128 word \<Rightarrow> nat \<times> 128 word" where
  "ff_step c0 d v =
    (if d < 2 then (d + 1, clmul (lo64 v) (push_bit 1 (ucast c0)))
     else
       let c1 = crc32_insn 64 (0 :: u64) c0;
           v = push_bit 32 v;
           p = clmul (lo64 v) (push_bit 1 (ucast c1));
           v = clmul (hi64 v) (push_bit 1 (ucast c0))
       in (d, v XOR p))"

function ff_loop :: "u64 \<Rightarrow> nat \<Rightarrow> nat \<Rightarrow> 128 word \<Rightarrow> (nat \<times> 128 word) option" where
  "ff_loop len i d v =
    (if len = 0 then Some (d, v)
     else if len AND 63 \<noteq> 0 then
       (case table_at (i * 64 + unat (len AND 63)) of
          None \<Rightarrow> None
        | Some c0 \<Rightarrow> (case ff_step c0 d v of (d', v') \<Rightarrow> ff_loop (drop_bit 6 len) (i + 1) d' v'))
     else ff_loop (drop_bit 6 len) (i + 1) d v)"
  by pat_completeness auto

termination ff_loop
  by (relation "measure (\<lambda>(len, i, d, v). unat len)") (auto simp: drop_bit_6_less)

definition crc32ff_pclmul :: "u32 \<Rightarrow> u64 \<Rightarrow> u32 option" where
  "crc32ff_pclmul crc len =
    (let len = reduce_len len in
     if len = 0 then Some crc
     else
       (case ff_loop len 0 0 (ucast crc) of
          None \<Rightarrow> None
        | Some (d, v) \<Rightarrow>
            if d < 2 then
              let u0 = lo64 v; lo = ucast (drop_bit 32 u0) :: u32; hi = ucast u0 :: u32
              in Some (crc32_insn 32 (0 :: u32) hi XOR lo)
            else Some (crc32_insn 64 (lo64 v) 0 XOR ucast (hi64 v))))"

definition CRC32Combine :: "bool \<Rightarrow> u32 \<Rightarrow> u32 \<Rightarrow> u64 \<Rightarrow> u32 option" where
  "CRC32Combine hw crc1 crc2 size2 =
    (if hw then (case crc32ff_pclmul crc1 size2 of None \<Rightarrow> None | Some r \<Rightarrow> Some (r XOR crc2))
     else (case CRC32CombineGen hw size2 of
             None \<Rightarrow> None
           | Some op \<Rightarrow> CRC32CombineOp hw crc1 crc2 op))"

definition CombineThreeCRC32 :: "bool \<Rightarrow> u32 \<Rightarrow> u32 \<Rightarrow> u32 \<Rightarrow> u32 \<Rightarrow> u64 \<Rightarrow> u64 \<Rightarrow> u32 option" where
  "CombineThreeCRC32 hw init_value crc1 crc2 crc3 size2 size3 =
    (case CRC32Combine hw (init_value XOR crc1) crc2 size2 of
       None \<Rightarrow> None
     | Some r \<Rightarrow> CRC32Combine hw (init_value XOR r) crc3 size3)"

declare crc32q_loop.simps [simp del] gen_loop.simps [simp del] ff_loop.simps [simp del]

subsection \<open>The accelerated loop is the bytewise checksum\<close>

text \<open>\<open>crc32c init buf\<close> is the remainder after feeding every byte of \<open>buf\<close>.\<close>

definition crc32c :: "u32 \<Rightarrow> u8 list \<Rightarrow> u32" where
  "crc32c init_crc buf = foldl (\<lambda>crc b. crc32_insn 8 b crc) init_crc buf"

lemma crc32b_loop_eq: "crc32b_loop buf crc = crc32c crc buf"
  by (induction buf arbitrary: crc) (simp_all add: crc32c_def)

lemma crc32_insn_load_le:
  "length bs \<le> 8 \<Longrightarrow> crc32_insn (8 * length bs) (load_le bs) crc = crc32c crc bs"
proof (induction bs arbitrary: crc)
  case (Cons b bs)
  have "crc32_insn 8 (load_le (b # bs)) crc = crc32_insn 8 b crc"
    by (rule crc32_insn_cong) (simp only: bit_load_le_low)
  with Cons show ?case
    by (simp add: crc32_insn_append drop_bit_load_le crc32c_def del: load_le.simps)
qed (simp add: crc32c_def)

lemma crc32c_append: "crc32c crc (xs @ ys) = crc32c (crc32c crc xs) ys"
  by (simp add: crc32c_def)

lemma crc32q_loop_eq:
  "crc32q_loop buf crc = (crc', rest) \<Longrightarrow> crc32c crc' rest = crc32c crc buf"
proof (induction buf crc rule: crc32q_loop.induct)
  case (1 buf crc)
  show ?case
  proof (cases "8 \<le> length buf")
    case True
    then have "crc32c crc' rest = crc32c (crc32_insn 64 (load_le (take 8 buf)) crc) (drop 8 buf)"
      using 1 by (simp add: crc32q_loop.simps [of buf])
    also have "crc32_insn 64 (load_le (take 8 buf)) crc = crc32c crc (take 8 buf)"
      using crc32_insn_load_le [of "take 8 buf" crc] True by simp
    finally show ?thesis
      by (metis append_take_drop_id crc32c_append)
  next
    case False
    then show ?thesis
      using 1(2) by (simp add: crc32q_loop.simps [of buf])
  qed
qed

lemma ComputeCRC32_Accelerate_eq: "ComputeCRC32_Accelerate crc buf = crc32c crc buf"
  unfolding ComputeCRC32_Accelerate_def
  by (auto simp: crc32b_loop_eq crc32q_loop_eq split: prod.splits)

lemma crc32c_linear: "crc32c crc buf = (xstep ^^ (8 * length buf)) crc XOR crc32c 0 buf"
proof (induction buf rule: rev_induct)
  case (snoc b buf)
  have "crc32c crc (buf @ [b]) = (xstep ^^ 8) (crc32c crc buf) XOR crc32_insn 8 b 0"
    using crc32_insn_linear by (simp add: crc32c_def)
  moreover have "crc32c 0 (buf @ [b]) = (xstep ^^ 8) (crc32c 0 buf) XOR crc32_insn 8 b 0"
    using crc32_insn_linear by (simp add: crc32c_def)
  ultimately show ?case
    by (subst (asm) snoc) (simp add: xsteps_xor xsteps_add ac_simps)
qed (simp add: crc32c_def)

subsection \<open>Both multiplications are the product of polynomials\<close>

lemma xstep_code:
  "(if b AND 1 \<noteq> 0 then drop_bit 1 b XOR kCrc32cPolyReflect else drop_bit 1 b) = xstep b"
  by (simp add: xstep_def and_one_eq odd_iff_mod_2_eq_one bit_0)

lemma crc32Mult_loop_step:
  "crc32Mult_loop a b (2 ^ k) p =
    (if bit a k \<and> take_bit k a = 0 then Some (p XOR b)
     else crc32Mult_loop a (xstep b) (drop_bit 1 (2 ^ k)) (if bit a k then p XOR b else p))"
proof -
  have "a AND (2 ^ k - 1) = take_bit k a"
    by (simp add: take_bit_eq_mask mask_eq_exp_minus_1)
  then show ?thesis
    by (subst crc32Mult_loop.simps) (simp only: xstep_code and_exp_eq_0_iff_not_bit simp_thms)
qed

definition partial_pmul :: "u32 \<Rightarrow> nat \<Rightarrow> u32 \<Rightarrow> u32" where
  "partial_pmul a k b = xorsum.F (\<lambda>j. if bit a j then (xstep ^^ (k - j)) b else 0) {..<Suc k}"

lemma partial_pmul_Suc:
  "partial_pmul a (Suc k) b = (if bit a (Suc k) then b else 0) XOR partial_pmul a k (xstep b)"
proof -
  have "xorsum.F (\<lambda>j. if bit a j then (xstep ^^ (Suc k - j)) b else 0) {..<Suc k}
      = partial_pmul a k (xstep b)"
    unfolding partial_pmul_def
    by (rule xorsum.cong) (auto simp: Suc_diff_le funpow_swap1)
  then show ?thesis
    by (simp add: partial_pmul_def [of a "Suc k"] lessThan_Suc [of "Suc k"])
qed

lemma take_bit_eq_0D: "take_bit n a = (0 :: u32) \<Longrightarrow> j < n \<Longrightarrow> \<not> bit a j"
  by (metis bit_0_eq bit_take_bit_iff bot_apply bot_bool_def)

lemma partial_pmul_top:
  assumes "bit a k" "take_bit k a = 0"
  shows "partial_pmul a k b = b"
proof -
  have "xorsum.F (\<lambda>j. if bit a j then (xstep ^^ (k - j)) b else 0) {..<k} = 0"
    using take_bit_eq_0D [OF assms(2)] by (intro xorsum.neutral) auto
  then show ?thesis
    using assms(1) by (simp add: partial_pmul_def lessThan_Suc)
qed

lemma take_bit_eq_0_iff_bits: "take_bit n a = (0 :: u32) \<longleftrightarrow> (\<forall>j<n. \<not> bit a j)"
  using take_bit_eq_0D by (auto intro!: bit_word_eqI simp: bit_simps)

lemma take_bit_Suc_eq_0:
  "take_bit (Suc k) a = (0 :: u32) \<longleftrightarrow> \<not> bit a k \<and> take_bit k a = 0"
  by (auto simp only: take_bit_eq_0_iff_bits less_Suc_eq)

lemma crc32Mult_loop_eq:
  "k < 32 \<Longrightarrow> take_bit (Suc k) a \<noteq> 0 \<Longrightarrow>
    crc32Mult_loop a b (2 ^ k) p = Some (p XOR partial_pmul a k b)"
proof (induction k arbitrary: b p)
  case 0
  then have "bit a 0"
    by (simp only: take_bit_Suc_eq_0) simp
  then show ?case
    by (subst crc32Mult_loop_step) (simp add: partial_pmul_top)
next
  case (Suc k)
  show ?case
  proof (cases "bit a (Suc k) \<and> take_bit (Suc k) a = 0")
    case True
    then show ?thesis
      by (subst crc32Mult_loop_step) (simp add: partial_pmul_top)
  next
    case False
    then have ne: "take_bit (Suc k) a \<noteq> 0"
      using Suc.prems(2) take_bit_Suc_eq_0 by blast
    have half: "drop_bit 1 (2 ^ Suc k :: u32) = 2 ^ k"
      using Suc.prems(1) by (intro bit_word_eqI) (auto simp: bit_simps)
    show ?thesis
      using Suc.IH [OF _ ne] Suc.prems(1) False
      by (subst crc32Mult_loop_step, subst half)
        (simp add: partial_pmul_Suc ac_simps del: power_Suc)
  qed
qed

lemma crc32Mult_loop_pmul:
  assumes "a \<noteq> 0"
  shows "crc32Mult_loop a b 0x80000000 0 = Some (pmul a b)"
proof -
  have "partial_pmul a 31 b = pmul a b"
    by (simp add: partial_pmul_def pmul_def)
  moreover have "take_bit (Suc 31) a \<noteq> 0"
    using assms by (simp add: take_bit_word_eq_self)
  ultimately show ?thesis
    using crc32Mult_loop_eq [of 31 a b 0] by simp
qed

lemma fits_ucast: "fits 31 (ucast (a :: u32) :: ('w :: len) word)"
  by (auto simp: fits_def bit_ucast_iff dest: bit_imp_le_length)

lemma fits_any: "n = LENGTH('w) - 1 \<Longrightarrow> fits n (v :: ('w :: len) word)"
  by (auto simp: fits_def dest: bit_imp_le_length)

lemma fits_xor: "fits n v \<Longrightarrow> fits n w \<Longrightarrow> fits n (v XOR w)"
  by (auto simp: fits_def bit_xor_iff)

lemma fits_push_bit: "fits n v \<Longrightarrow> fits (n + s) (push_bit s v)"
  by (auto simp: fits_def bit_push_bit_iff)

lemma fits_clmul:
  assumes "fits n a" "fits m b"
  shows "fits (n + m) (clmul a b)"
proof -
  have "fits (n + m) (foldr (\<lambda>i acc. if bit a i then push_bit i (ucast b) XOR acc else acc) js (0 :: 128 word))"
    for js
  proof (induction js)
    case (Cons i js)
    have "fits (n + m) (push_bit i (ucast b :: 128 word))" if "bit a i"
      using assms that by (fastforce simp: fits_def bit_simps)
    with Cons show ?case
      by (simp add: fits_xor)
  qed (simp add: fits_def)
  then show ?thesis
    unfolding clmul_def .
qed

lemma rval_shifted_factor: "rval 32 (push_bit 1 (ucast (c :: u32) :: u64)) = c"
  using rval_push_bit [of 31 1 "ucast c :: u64"] by (simp add: rval_ucast rval_eq)

lemma fits_shifted_factor: "fits 32 (push_bit 1 (ucast (c :: u32) :: u64))"
  using fits_push_bit [OF fits_ucast, of 1 c] by simp

text \<open>The final reduction: the low \<open>s\<close> bits carry the powers from $x^{32}$ on.\<close>

lemma rval_split:
  "rval (m + Suc s) v = (xstep ^^ Suc m) (rval s v) XOR rval m (drop_bit (Suc s) v)"
proof (induction m)
  case 0
  show ?case
    by (simp add: rval_Suc rval_def [of 0] bit_drop_bit_eq xpow_def ac_simps)
next
  case (Suc m)
  then show ?case
    by (simp add: rval_Suc bit_drop_bit_eq xstep_xor ac_simps)
qed

lemma push_bit_ucast: "push_bit s (ucast (w :: u64) :: u32) = ucast (push_bit s w)"
  by (rule bit_word_eqI) (auto simp: bit_simps)

lemma crc32mul_pclmul_eq: "crc32mul_pclmul a b = pmul a b"
proof -
  define v where "v = clmul (ucast a) (ucast b)"
  have "pmul a b = rval 62 v"
    using rval_clmul [OF fits_ucast fits_ucast, of a b] by (simp add: v_def rval_ucast rval_eq)
  also have "\<dots> = (xstep ^^ 32) (rval 30 v) XOR rval 31 (drop_bit 31 v)"
    using rval_split [of 31 30 v] by simp
  also have "rval 31 (drop_bit 31 v) = ucast (drop_bit 31 (lo64 v))"
  proof -
    have "rval 31 (drop_bit 31 v) = rval 31 (ucast (drop_bit 31 (lo64 v)) :: u32)"
      by (rule rval_cong) (auto simp: lo64_def bit_simps)
    then show ?thesis
      by (simp only: rval_eq)
  qed
  also have "rval 30 v = ucast (push_bit 1 (lo64 v AND 0x7fffffff))"
  proof -
    have m: "(0x7fffffff :: u64) = mask 31"
      by (simp add: mask_eq_exp_minus_1)
    have "rval 30 v = rval 31 (push_bit 1 (ucast (lo64 v AND mask 31)) :: u32)"
      using rval_push_bit [of 30 1 "ucast (lo64 v AND mask 31) :: u32"]
        rval_cong [of 30 v "ucast (lo64 v AND mask 31) :: u32"]
      by (simp add: lo64_def bit_simps)
    then show ?thesis
      by (simp only: rval_eq m push_bit_ucast)
  qed
  finally show ?thesis
    by (simp add: crc32mul_pclmul_def Let_def v_def [symmetric])
qed

lemma crc32Mult_pmul: "a \<noteq> 0 \<Longrightarrow> crc32Mult hw a b = Some (pmul a b)"
  by (simp add: crc32Mult_def crc32mul_pclmul_eq crc32Mult_loop_pmul)

subsection \<open>Raising $x$ to the length of the second buffer\<close>

lemma and_63: "unat (len AND 63) = unat (len :: u64) mod 64"
proof -
  have "len AND 63 = take_bit 6 len"
    by (simp add: take_bit_eq_mask mask_eq_exp_minus_1)
  then show ?thesis
    by (simp only: unsigned_take_bit_eq) (simp add: take_bit_eq_mod)
qed

lemma and_63_eq_0: "len AND 63 = 0 \<longleftrightarrow> unat (len :: u64) mod 64 = 0"
  by (metis and_63 unat_eq_zero)

lemma unat_div_bound: "unat (len :: u64) div 2 ^ 31 < 2 ^ 33"
proof -
  have "unat len < 2 ^ 64"
    by (rule order_less_le_trans [OF unsigned_less]) simp
  then show ?thesis
    by (simp add: less_mult_imp_div_less)
qed

lemma unat_reduce_step:
  fixes len :: u64
  shows "unat ((len AND 0x7fffffff) + drop_bit 31 len) = unat len mod 2 ^ 31 + unat len div 2 ^ 31"
proof -
  have m: "len AND 0x7fffffff = take_bit 31 len"
    by (simp add: take_bit_eq_mask mask_eq_exp_minus_1)
  have lo: "unat (take_bit 31 len) = unat len mod 2 ^ 31"
    by (subst unsigned_take_bit_eq) (simp add: take_bit_eq_mod)
  have hi: "unat (drop_bit 31 len) = unat len div 2 ^ 31"
    by (subst unat_drop_bit_eq) (simp add: drop_bit_eq_div)
  note unat_div_bound [of len]
  moreover have "unat len mod 2 ^ 31 < 2 ^ 31"
    by simp
  ultimately show ?thesis
    unfolding m by (subst unat_add_lem [THEN iffD1]) (simp_all add: lo hi)
qed

lemma xsteps_order: "(xstep ^^ (8 * 2 ^ 31)) b = (xstep ^^ 8) b"
proof -
  have "(0x08000000 :: u32) = xpow 4"
    by (simp add: xpow_small)
  with gen5 have e: "xpow (8 * 64 ^ 5) = xpow 4"
    by simp
  have "(xstep ^^ (8 * 64 ^ 5)) c = (xstep ^^ 4) c" for c
    by (metis e pmul_xpow)
  then have "(xstep ^^ (8 * 64 ^ 5 + 8 * 64 ^ 5)) b = (xstep ^^ (4 + 4)) b"
    unfolding funpow_add o_def by metis
  then show ?thesis by simp
qed

lemma xsteps_reduce: "(xstep ^^ (8 * n)) b = (xstep ^^ (8 * (n mod 2 ^ 31 + n div 2 ^ 31))) b"
proof -
  have "(xstep ^^ (8 * 2 ^ 31 * h)) c = (xstep ^^ (8 * h)) c" for h c
  proof (induction h)
    case (Suc h)
    have "(xstep ^^ (8 * 2 ^ 31 * Suc h)) c = (xstep ^^ (8 * 2 ^ 31)) ((xstep ^^ (8 * 2 ^ 31 * h)) c)"
      by (simp only: xsteps_add mult_Suc_right)
    also have "\<dots> = (xstep ^^ 8) ((xstep ^^ (8 * h)) c)"
      by (simp only: xsteps_order Suc)
    finally show ?case
      by (simp only: xsteps_add mult_Suc_right)
  qed simp
  then have "(xstep ^^ (8 * (n mod 2 ^ 31) + 8 * 2 ^ 31 * (n div 2 ^ 31))) b
      = (xstep ^^ (8 * (n mod 2 ^ 31) + 8 * (n div 2 ^ 31))) b"
    by (simp only: funpow_add o_def)
  moreover have "8 * (n mod 2 ^ 31) + 8 * 2 ^ 31 * (n div 2 ^ 31) = 8 * n"
    using mod_mult_div_eq [of n "2 ^ 31"] by linarith
  ultimately show ?thesis
    by (simp only: distrib_left)
qed

lemma reduce_len_xsteps: "(xstep ^^ (8 * unat (reduce_len len))) b = (xstep ^^ (8 * unat len)) b"
  unfolding reduce_len_def Let_def
  by (simp only: unat_reduce_step xsteps_reduce [symmetric] split: if_splits) simp

lemma reduce_len_bound: "unat (reduce_len len) < 3 * 2 ^ 30"
proof -
  have small: "unat l < 3 * 2 ^ 30" if "\<not> 0x80000000 \<le> l" for l :: u64
    using that by (simp add: word_le_nat_alt)
  define l1 where "l1 = (len AND 0x7fffffff) + drop_bit 31 len"
  note unat_div_bound [of len]
  moreover have "unat len mod 2 ^ 31 < 2 ^ 31" by simp
  ultimately have "unat l1 < 2 ^ 33 + 2 ^ 31"
    unfolding l1_def unat_reduce_step by linarith
  then have "unat l1 div 2 ^ 31 < 5"
    by (simp add: less_mult_imp_div_less)
  moreover have "unat l1 mod 2 ^ 31 < 2 ^ 31" by simp
  ultimately have "unat l1 mod 2 ^ 31 + unat l1 div 2 ^ 31 < 3 * 2 ^ 30"
    by simp
  then show ?thesis
    using small [of len] small [of l1] unat_reduce_step [of l1]
    by (simp add: reduce_len_def Let_def l1_def [symmetric])
qed

lemma digit_split: "unat (len :: u64) * 64 ^ i
    = unat len mod 64 * 64 ^ i + unat (drop_bit 6 len) * 64 ^ (i + 1)"
proof -
  have "unat len = unat len mod 64 + unat len div 64 * 64"
    by simp
  then have "unat len * 64 ^ i = (unat len mod 64 + unat len div 64 * 64) * 64 ^ i"
    by (rule arg_cong)
  also have "\<dots> = unat len mod 64 * 64 ^ i + unat len div 64 * (64 * 64 ^ i)"
    by (simp only: distrib_right mult.assoc)
  finally show ?thesis
    by (simp only: unat_drop_bit_6 power_add power_one_right mult.commute [of "64 ^ i"])
qed

lemma digit_bound: "unat (len :: u64) * 64 ^ i < n \<Longrightarrow> unat (drop_bit 6 len) * 64 ^ (i + 1) < n"
  using digit_split [of len i] by linarith

lemma table_at_digit:
  assumes "unat (len :: u64) * 64 ^ i < 3 * 2 ^ 30" "len AND 63 \<noteq> 0"
  shows "table_at (i * 64 + unat (len AND 63)) = Some (xpow (8 * (unat len mod 64 * 64 ^ i)))"
proof -
  have pos: "0 < unat len"
    using assms(2) by (intro gr0I) (simp add: and_63_eq_0)
  have "i < 6"
  proof (rule ccontr)
    assume "\<not> i < 6"
    then have "(64 :: nat) ^ 6 \<le> 64 ^ i"
      by (intro power_increasing) auto
    also have "\<dots> \<le> unat len * 64 ^ i"
      using pos by simp
    finally show False
      using assms(1) by simp
  qed
  moreover have "unat len mod 64 < 4" if "i = 5"
    using assms(1) that by simp
  moreover have "unat len mod 64 < 64"
    by simp
  ultimately show ?thesis
    using table_nth [of i "unat len mod 64"] by (simp add: table_at_def and_63)
qed

lemma gen_loop_eq:
  "unat len * 64 ^ i < 3 * 2 ^ 30 \<Longrightarrow>
    gen_loop hw len i (xpow n) = Some (xpow (8 * (unat len * 64 ^ i) + n))"
proof (induction hw len i "xpow n" arbitrary: n rule: gen_loop.induct)
  case (1 hw len i)
  note ds = digit_split [of len i]
  consider "len = 0" | "len \<noteq> 0" "len AND 63 = 0" | "len \<noteq> 0" "len AND 63 \<noteq> 0"
    by blast
  then show ?case
  proof cases
    case 2
    then have "unat len mod 64 = 0"
      by (simp add: and_63_eq_0)
    then have "unat (drop_bit 6 len) * 64 ^ (i + 1) = unat len * 64 ^ i"
      using ds by simp
    moreover have "gen_loop hw len i (xpow n) = gen_loop hw (drop_bit 6 len) (i + 1) (xpow n)"
      using 2 by (subst gen_loop.simps) simp
    moreover have "gen_loop hw (drop_bit 6 len) (i + 1) (xpow n)
        = Some (xpow (8 * (unat (drop_bit 6 len) * 64 ^ (i + 1)) + n))"
      using 2 by (intro 1(2) [OF 2(1) _ refl] digit_bound [OF "1.prems"]) simp
    ultimately show ?thesis
      by (simp only:)
  next
    case 3
    note t = table_at_digit [OF "1.prems" 3(2)]
    define k where "k = 8 * (unat len mod 64 * 64 ^ i)"
    have m: "crc32Mult hw (xpow k) (xpow n) = Some (xpow (k + n))"
      by (simp add: crc32Mult_pmul xpow_nonzero pmul_xpow xsteps_xpow)
    have "gen_loop hw len i (xpow n) = gen_loop hw (drop_bit 6 len) (i + 1) (xpow (k + n))"
      using 3 t m by (subst gen_loop.simps) (simp add: k_def)
    also have "\<dots> = Some (xpow (8 * (unat (drop_bit 6 len) * 64 ^ (i + 1)) + (k + n)))"
      using 1(1) [OF 3 t m [unfolded k_def] digit_bound [OF "1.prems"]] by (simp only: k_def)
    also have "8 * (unat (drop_bit 6 len) * 64 ^ (i + 1)) + (k + n) = 8 * (unat len * 64 ^ i) + n"
      using ds by (simp add: k_def)
    finally show ?thesis .
  qed (simp add: gen_loop.simps)
qed

lemma gen_skip_eq:
  "len \<noteq> 0 \<Longrightarrow> \<exists>len' i'. gen_skip len i = Some (len', i') \<and> len' AND 63 \<noteq> 0
    \<and> unat len' * 64 ^ i' = unat len * 64 ^ i"
proof (induction "unat len" arbitrary: len i rule: less_induct)
  case less
  show ?case
  proof (cases "len AND 63 = 0")
    case True
    then have "unat len mod 64 = 0"
      by (simp add: and_63_eq_0)
    then have eq: "unat (drop_bit 6 len) * 64 ^ (i + 1) = unat len * 64 ^ i"
      using digit_split [of len i] by simp
    then have "drop_bit 6 len \<noteq> 0"
      using less.prems by (metis mult_is_0 power_not_zero unat_0 unat_eq_zero zero_neq_numeral)
    then show ?thesis
      using less.hyps [OF drop_bit_6_less [OF less.prems], of "i + 1"] True
      by (subst gen_skip.simps) (simp only: eq if_True simp_thms)
  next
    case False
    then show ?thesis
      by (subst gen_skip.simps) simp
  qed
qed

lemma CRC32CombineGen_eq: "CRC32CombineGen hw len = Some (xpow (8 * unat len))"
proof -
  define l where "l = reduce_len len"
  have goal: "xpow (8 * unat l) = xpow (8 * unat len)"
    by (simp add: xpow_def l_def reduce_len_xsteps)
  show ?thesis
  proof (cases "l = 0")
    case True
    then show ?thesis
      using goal by (simp add: CRC32CombineGen_def l_def [symmetric] xpow_def pone_def)
  next
    case False
    then obtain l' i' where s: "gen_skip l 0 = Some (l', i')" "l' AND 63 \<noteq> 0"
      and e: "unat l' * 64 ^ i' = unat l"
      using gen_skip_eq [of l 0] by auto
    have b: "unat l' * 64 ^ i' < 3 * 2 ^ 30"
      using reduce_len_bound [of len] e by (simp add: l_def)
    note gen_loop_eq [OF digit_bound [OF b], of hw "8 * (unat l' mod 64 * 64 ^ i')"]
    moreover have "8 * (unat (drop_bit 6 l') * 64 ^ (i' + 1)) + 8 * (unat l' mod 64 * 64 ^ i') = 8 * unat l"
      using digit_split [of l' i'] e by simp
    ultimately show ?thesis
      using False s goal table_at_digit [OF b s(2)]
      by (simp add: CRC32CombineGen_def l_def [symmetric])
  qed
qed

subsection \<open>The carry-less multiplication path\<close>

text \<open>The accumulator \<open>v\<close> after \<open>d\<close> unreduced products has at most \<open>32 + 32 * d\<close> bits and
  stands for \<open>acc d v\<close>.\<close>

definition acc :: "nat \<Rightarrow> 128 word \<Rightarrow> u32" where
  "acc d v = rval (31 + 32 * d) v"

lemma rval_lo64: "n < 64 \<Longrightarrow> rval n (lo64 v) = rval n v"
  by (simp add: lo64_def rval_ucast)

lemma fits_lo64: "fits n v \<Longrightarrow> fits n (lo64 v)"
  by (auto simp: fits_def lo64_def bit_ucast_iff)

lemma rval_hi64: "n < 64 \<Longrightarrow> rval n (hi64 v) = rval n (drop_bit 64 v)"
  by (simp add: hi64_def rval_ucast)

lemma ff_step_early:
  assumes "d < 2" "fits (31 + 32 * d) v" "ff_step c d v = (d', v')"
  shows "d' = d + 1 \<and> fits (31 + 32 * d') v' \<and> acc d' v' = pmul (acc d v) c"
proof -
  note f = fits_lo64 [OF assms(2)]
  have v': "v' = clmul (lo64 v) (push_bit 1 (ucast c))" and d': "d' = d + 1"
    using assms by (simp_all add: ff_step_def)
  have "fits (31 + 32 * d + 32) v'"
    unfolding v' by (rule fits_clmul [OF f fits_shifted_factor])
  moreover have "rval (31 + 32 * d + 32) v' = pmul (rval (31 + 32 * d) v) c"
    unfolding v' using assms(1)
    by (subst rval_clmul [OF f fits_shifted_factor]) (simp_all only: rval_shifted_factor rval_lo64)
  ultimately show ?thesis
    unfolding d' acc_def by (simp add: algebra_simps)
qed

lemma pmul_xor_left: "pmul (a XOR b) c = pmul a c XOR pmul b c"
  by (simp only: pmul_commute [of _ c] pmul_xor_right)

lemma pmul_xsteps_left: "pmul ((xstep ^^ n) a) c = (xstep ^^ n) (pmul a c)"
  by (simp only: pmul_commute [of _ c] pmul_xsteps_right)

lemma ff_step_late:
  assumes "fits 95 v" "ff_step c 2 v = (d', v')"
  shows "d' = 2 \<and> fits 95 v' \<and> acc d' v' = pmul (acc 2 v) c"
proof -
  define w where "w = push_bit 32 v"
  define c1 where "c1 = (xstep ^^ 64) c"
  have v': "v' = clmul (hi64 w) (push_bit 1 (ucast c)) XOR clmul (lo64 w) (push_bit 1 (ucast c1))"
    and d': "d' = 2"
    using assms(2) by (simp_all add: ff_step_def w_def c1_def Let_def)
  have f: "fits 63 (u :: u64)" for u
    by (rule fits_any) simp
  have "fits (63 + 32) v'"
    unfolding v' by (intro fits_xor fits_clmul f fits_shifted_factor)
  moreover have "rval (63 + 32) v' = pmul (rval 63 (hi64 w)) c XOR pmul (rval 63 (lo64 w)) c1"
    unfolding v' rval_xor
    by (subst (1 2) rval_clmul [OF f fits_shifted_factor]) (simp_all only: rval_shifted_factor)
  moreover have "pmul (rval 63 (hi64 w)) c XOR pmul (rval 63 (lo64 w)) c1 = pmul (rval 127 w) c"
    using rval_split [of 63 63 w]
    by (simp add: rval_lo64 rval_hi64 c1_def pmul_xor_left pmul_xsteps_left pmul_xsteps_right
        ac_simps del: funpow.simps)
  moreover have "rval 127 w = rval 95 v"
    using rval_push_bit [of 95 32 v] by (simp add: w_def)
  ultimately show ?thesis
    unfolding d' acc_def by simp
qed

lemma ff_step_eq:
  assumes "d \<le> 2" "fits (31 + 32 * d) v" "ff_step c d v = (d', v')"
  shows "0 < d' \<and> d' \<le> 2 \<and> fits (31 + 32 * d') v' \<and> acc d' v' = pmul (acc d v) c"
  using assms ff_step_early [OF _ assms(2,3)] ff_step_late [of v c d' v']
  by (cases "d = 2") auto

definition ff_result :: "nat \<Rightarrow> u32 \<Rightarrow> nat \<times> 128 word \<Rightarrow> bool" where
  "ff_result n crc r \<longleftrightarrow> (case r of (d, v) \<Rightarrow>
     d \<le> 2 \<and> fits (31 + 32 * d) v \<and> acc d v = (xstep ^^ (8 * n)) crc)"

lemma ff_loop_eq:
  "d \<le> 2 \<Longrightarrow> fits (31 + 32 * d) v \<Longrightarrow> unat len * 64 ^ i < 3 * 2 ^ 30 \<Longrightarrow>
    \<exists>r. ff_loop len i d v = Some r \<and> ff_result (unat len * 64 ^ i) (acc d v) r
      \<and> (len \<noteq> 0 \<or> 0 < d \<longrightarrow> 0 < fst r)"
proof (induction len i d v rule: ff_loop.induct)
  case (1 len i d v)
  note ds = digit_split [of len i]
  consider "len = 0" | "len \<noteq> 0" "len AND 63 = 0" | "len \<noteq> 0" "len AND 63 \<noteq> 0"
    by blast
  then show ?case
  proof cases
    case 1
    then show ?thesis
      using "1.prems" by (subst ff_loop.simps) (simp add: ff_result_def)
  next
    case 2
    then have "unat len mod 64 = 0"
      by (simp add: and_63_eq_0)
    then have eq: "unat (drop_bit 6 len) * 64 ^ (i + 1) = unat len * 64 ^ i"
      using ds by simp
    then have "drop_bit 6 len \<noteq> 0"
      using 2(1) by (metis mult_is_0 power_not_zero unat_0 unat_eq_zero zero_neq_numeral)
    then show ?thesis
      using "1.IH"(2) [OF 2(1) _ "1.prems"(1,2) digit_bound [OF "1.prems"(3)]] 2
      by (subst ff_loop.simps) (simp only: eq if_False simp_thms)
  next
    case 3
    note t = table_at_digit [OF "1.prems"(3) 3(2)]
    obtain d' v' where st: "ff_step (xpow (8 * (unat len mod 64 * 64 ^ i))) d v = (d', v')"
      by fastforce
    note f = ff_step_eq [OF "1.prems"(1,2) st]
    obtain r where r: "ff_loop (drop_bit 6 len) (i + 1) d' v' = Some r"
      "ff_result (unat (drop_bit 6 len) * 64 ^ (i + 1)) (acc d' v') r" "0 < fst r"
      using "1.IH"(1) [OF 3 t st [symmetric] _ _ digit_bound [OF "1.prems"(3)]] f by auto
    have "ff_loop len i d v = Some r"
      using 3 t st r(1) by (subst ff_loop.simps) simp
    moreover have "ff_result (unat len * 64 ^ i) (acc d v) r"
      using r(2) f ds
      by (simp add: ff_result_def pmul_xpow_right xsteps_add distrib_left split: prod.splits)
        (simp only: add.commute)
    ultimately show ?thesis
      using r(3) by blast
  qed
qed

lemma rval_31_ucast: "rval 31 v = (ucast v :: u32)"
proof -
  have "rval 31 v = rval 31 (ucast v :: u32)"
    by (rule rval_cong) (auto simp: bit_simps)
  then show ?thesis by (simp only: rval_eq)
qed

lemma crc32ff_pclmul_eq: "crc32ff_pclmul crc len = Some ((xstep ^^ (8 * unat len)) crc)"
proof -
  define l where "l = reduce_len len"
  have goal: "(xstep ^^ (8 * unat l)) crc = (xstep ^^ (8 * unat len)) crc"
    by (simp add: l_def reduce_len_xsteps)
  show ?thesis
  proof (cases "l = 0")
    case True
    then show ?thesis
      using goal by (simp add: crc32ff_pclmul_def l_def [symmetric])
  next
    case False
    have a0: "acc 0 (ucast crc) = crc"
      by (simp add: acc_def rval_ucast rval_eq)
    obtain d v where r: "ff_loop l 0 0 (ucast crc) = Some (d, v)" "0 < d"
      "ff_result (unat l) crc (d, v)"
      using ff_loop_eq [of 0 "ucast crc" l 0] False reduce_len_bound [of len]
      by (auto simp: fits_ucast a0 l_def)
    have u: "ucast (lo64 v) = rval 31 v" "ucast (hi64 v) = rval 31 (drop_bit 64 v)"
      "ucast (drop_bit 32 (lo64 v)) = rval 31 (drop_bit 32 v)"
      by (auto simp: rval_31_ucast [symmetric] lo64_def hi64_def bit_simps intro!: rval_cong)
    have v1: "(xstep ^^ 32) (rval 31 v) XOR rval 31 (drop_bit 32 v) = acc 1 v"
      using rval_split [of 31 31 v] by (simp add: acc_def)
    have v2: "crc32_insn 64 (lo64 v) 0 XOR rval 31 (drop_bit 64 v) = acc 2 v"
      using rval_split [of 31 63 v] crc32_insn_rval [of 63 "lo64 v"] by (simp add: acc_def rval_lo64)
    have "d = 1 \<or> d = 2"
      using r by (auto simp: ff_result_def)
    then show ?thesis
      using r(3) False goal
      by (auto simp: crc32ff_pclmul_def l_def [symmetric] r(1) u v1 v2 ff_result_def Let_def)
  qed
qed

lemma CRC32Combine_eq: "CRC32Combine hw crc1 crc2 n = Some ((xstep ^^ (8 * unat n)) crc1 XOR crc2)"
  by (simp add: CRC32Combine_def CRC32CombineOp_def CRC32CombineGen_eq crc32ff_pclmul_eq
      crc32Mult_pmul xpow_nonzero pmul_xpow)

lemma CRC32Combine_crc32c:
  assumes "length d2 < 2 ^ 64"
  shows "CRC32Combine hw (crc32c a d1 XOR b) (crc32c b d2) (word_of_nat (length d2))
    = Some (crc32c a (d1 @ d2))"
proof -
  have n: "unat (word_of_nat (length d2) :: u64) = length d2"
    using assms by (simp add: unsigned_of_nat take_bit_nat_eq_self)
  show ?thesis
    unfolding CRC32Combine_eq n crc32c_append
    by (subst (2) crc32c_linear, subst (4) crc32c_linear) (simp add: xsteps_xor ac_simps)
qed

subsection \<open>Properties\<close>

lemma CombineThreeCRC32_crc32c:
  assumes "length d2 < 2 ^ 64" "length d3 < 2 ^ 64"
  shows "CombineThreeCRC32 hw init (crc32c init d1) (crc32c init d2) (crc32c init d3)
      (word_of_nat (length d2)) (word_of_nat (length d3)) = Some (crc32c init (d1 @ d2 @ d3))"
  unfolding CombineThreeCRC32_def
  using CRC32Combine_crc32c [OF assms(1), of hw init d1 init] CRC32Combine_crc32c [OF assms(2), of hw init "d1 @ d2" init]
  by (simp add: xor.commute)

text \<open>C1: On every processor path, the checksums of three consecutive buffers, each computed
  from the same initial value, combine to the checksum of their concatenation.\<close>

theorem CombineThreeCRC32_correct:
  assumes "length d2 < 2 ^ 64" "length d3 < 2 ^ 64"
  shows "CombineThreeCRC32 hw init (ComputeCRC32_Accelerate init d1)
      (ComputeCRC32_Accelerate init d2) (ComputeCRC32_Accelerate init d3)
      (word_of_nat (length d2)) (word_of_nat (length d3))
    = Some (ComputeCRC32_Accelerate init (d1 @ d2 @ d3))"
  unfolding ComputeCRC32_Accelerate_eq using assms by (rule CombineThreeCRC32_crc32c)

theorem CombineThreeCRC32_correct_witness:
  "CombineThreeCRC32 False 0xFFFFFFFF (ComputeCRC32_Accelerate 0xFFFFFFFF [1, 2])
      (ComputeCRC32_Accelerate 0xFFFFFFFF [3, 4, 5]) (ComputeCRC32_Accelerate 0xFFFFFFFF [6])
      (word_of_nat 3) (word_of_nat 1)
    = Some (ComputeCRC32_Accelerate 0xFFFFFFFF [1, 2, 3, 4, 5, 6])"
  using CombineThreeCRC32_correct [of "[3, 4, 5]" "[6]" False "0xFFFFFFFF" "[1, 2]"] by simp

text \<open>\<^verbatim>\<open>CRC32Combine\<close> terminates on every input and computes the checksum of the
  concatenation from the checksum of the first buffer and the checksum of the second
  buffer taken from initial value 0, on the portable and on the carry-less path.\<close>

theorem CRC32Combine_correct:
  assumes "length d2 < 2 ^ 64"
  shows "CRC32Combine hw (ComputeCRC32_Accelerate init d1) (ComputeCRC32_Accelerate 0 d2)
      (word_of_nat (length d2))
    = Some (ComputeCRC32_Accelerate init (d1 @ d2))"
  unfolding ComputeCRC32_Accelerate_eq
  using CRC32Combine_crc32c [OF assms, of hw init d1 0] by simp

theorem CRC32Combine_correct_witness:
  "CRC32Combine True (ComputeCRC32_Accelerate 7 [1, 2]) (ComputeCRC32_Accelerate 0 [3])
      (word_of_nat 1) = Some (ComputeCRC32_Accelerate 7 [1, 2, 3])"
  using CRC32Combine_correct [of "[3]" True 7 "[1, 2]"] by simp

text \<open>The word-at-a-time loop over \<^verbatim>\<open>crc32q\<close> and \<^verbatim>\<open>crc32b\<close> computes the bytewise
  CRC-32C of the buffer for every buffer length.\<close>

theorem ComputeCRC32_bytewise: "ComputeCRC32 True init buf = Some (crc32c init buf)"
  by (simp add: ComputeCRC32_def Get_ComputeCRC32_Impl_def ComputeCRC32_Accelerate_eq)

text \<open>The carry-less multiplication path and the portable path of \<^verbatim>\<open>CRC32Combine\<close> return
  the same value for all checksums and lengths; in particular the portable loops end and
  stay inside the table.\<close>

theorem CRC32Combine_paths_agree:
  "CRC32Combine True crc1 crc2 n = CRC32Combine False crc1 crc2 n
    \<and> CRC32Combine False crc1 crc2 n \<noteq> None"
  by (simp add: CRC32Combine_eq)

text \<open>C18: The portable polynomial multiplication ends for every non-zero first factor, and
  then agrees with the carry-less one.\<close>

theorem crc32Mult_paths_agree:
  "a \<noteq> 0 \<Longrightarrow> crc32Mult False a b = crc32Mult True a b \<and> crc32Mult False a b \<noteq> None"
  by (simp add: crc32Mult_pmul)

theorem crc32Mult_paths_agree_witness:
  "crc32Mult False 0x80000000 5 = crc32Mult True 0x80000000 5"
  using crc32Mult_paths_agree [of "0x80000000" 5] by simp

end
