(* ===== verification/Fifo_Interface.thy ===== *)
theory Fifo_Interface
  imports Vesal_Prelude
begin

text \<open>What the users of a queue rely on: a push appends to the contents, a pop returns the
  oldest element or reports emptiness, and neither touches memory it must not (\<open>None\<close>).
  \<open>ready m q\<close> says that \<open>m\<close>, what the environment supplies to a push (a node address from the
  allocator, or nothing), is acceptable in state \<open>q\<close>.  \<open>pop_upto\<close> is the shape of the loops that
  empty a queue, bounded by a count.\<close>

fun pop_upto :: "('q \<Rightarrow> ('e option \<times> 'q) option) \<Rightarrow> nat \<Rightarrow> 'q \<Rightarrow> ('e list \<times> 'q) option" where
  "pop_upto pop 0 q = Some ([], q)"
| "pop_upto pop (Suc n) q =
    (case pop q of
       None \<Rightarrow> None
     | Some (None, q') \<Rightarrow> Some ([], q')
     | Some (Some e, q') \<Rightarrow>
         (case pop_upto pop n q' of None \<Rightarrow> None | Some (es, q'') \<Rightarrow> Some (e # es, q'')))"

fun push_all :: "('m \<Rightarrow> 'e \<Rightarrow> 'q \<Rightarrow> 'q option) \<Rightarrow> ('m \<times> 'e) list \<Rightarrow> 'q \<Rightarrow> 'q option" where
  "push_all push [] q = Some q"
| "push_all push ((m, e) # es) q = (case push m e q of None \<Rightarrow> None | Some q' \<Rightarrow> push_all push es q')"

fun all_ready :: "('m \<Rightarrow> 'q \<Rightarrow> bool) \<Rightarrow> ('m \<Rightarrow> 'e \<Rightarrow> 'q \<Rightarrow> 'q option) \<Rightarrow> ('m \<times> 'e) list \<Rightarrow> 'q \<Rightarrow> bool" where
  "all_ready ready push [] q \<longleftrightarrow> True"
| "all_ready ready push ((m, e) # es) q \<longleftrightarrow> ready m q
     \<and> (case push m e q of None \<Rightarrow> False | Some q' \<Rightarrow> all_ready ready push es q')"

locale fifo_queue =
  fixes push :: "'m \<Rightarrow> 'e \<Rightarrow> 'q \<Rightarrow> 'q option"
    and pop :: "'q \<Rightarrow> ('e option \<times> 'q) option"
    and ready :: "'m \<Rightarrow> 'q \<Rightarrow> bool"
    and inv :: "'q \<Rightarrow> bool"
    and contents :: "'q \<Rightarrow> 'e list"
  assumes push_appends:
      "inv q \<Longrightarrow> ready m q \<Longrightarrow> \<exists>q'. push m e q = Some q' \<and> inv q' \<and> contents q' = contents q @ [e]"
    and pop_nothing:
      "inv q \<Longrightarrow> contents q = [] \<Longrightarrow> \<exists>q'. pop q = Some (None, q') \<and> inv q' \<and> contents q' = []"
    and pop_oldest:
      "inv q \<Longrightarrow> contents q = e # es \<Longrightarrow> \<exists>q'. pop q = Some (Some e, q') \<and> inv q' \<and> contents q' = es"
begin

lemma pop_upto_takes:
  "inv q \<Longrightarrow> \<exists>q'. pop_upto pop n q = Some (take n (contents q), q') \<and> inv q'
    \<and> contents q' = drop n (contents q)"
proof (induction n arbitrary: q)
  case (Suc n)
  show ?case
  proof (cases "contents q")
    case Nil
    then show ?thesis
      using pop_nothing [OF Suc.prems] by fastforce
  next
    case (Cons e es)
    then obtain q1 where q1: "pop q = Some (Some e, q1)" "inv q1" "contents q1 = es"
      using pop_oldest [OF Suc.prems] by blast
    then show ?thesis
      using Suc.IH [OF q1(2)] Cons by fastforce
  qed
qed simp

lemma push_all_appends:
  "inv q \<Longrightarrow> all_ready ready push es q \<Longrightarrow>
    \<exists>q'. push_all push es q = Some q' \<and> inv q' \<and> contents q' = contents q @ map snd es"
proof (induction es arbitrary: q)
  case (Cons me es)
  obtain m e where me: "me = (m, e)" by fastforce
  then obtain q1 where q1: "push m e q = Some q1" "inv q1" "contents q1 = contents q @ [e]"
    using push_appends [OF Cons.prems(1), of m e] Cons.prems(2) by auto
  then show ?case
    using Cons.IH [OF q1(2)] Cons.prems(2) me by fastforce
qed simp

lemma push_then_pop_order:
  assumes "inv q" "all_ready ready push es q"
  shows "\<exists>q1 q2. push_all push es q = Some q1
    \<and> pop_upto pop (length (contents q) + length es) q1 = Some (contents q @ map snd es, q2)
    \<and> contents q2 = []"
proof -
  obtain q1 where q1: "push_all push es q = Some q1" "inv q1" "contents q1 = contents q @ map snd es"
    using push_all_appends [OF assms] by blast
  then show ?thesis
    using pop_upto_takes [OF q1(2), of "length (contents q) + length es"] by fastforce
qed

end

end
