(* ===== verification/Mpsc_Queue.thy ===== *)
theory Mpsc_Queue
  imports Fifo_Interface
begin

text \<open>The multi-producer single-consumer queue of \<^verbatim>\<open>src/src/common/mpsc_queue.h\<close>, at the
  granularity of its atomic operations.  Nodes live in an explicit heap; \<^verbatim>\<open>Push\<close> is the
  three steps exchange, link and count of a producer thread, and \<^verbatim>\<open>Pop\<close> the load, check,
  spin, unlink, take, delete and subtract steps of the consumer.  Any number of producers may
  be between any two of their steps.  \<open>mpsc_step\<close> returns \<open>None\<close> exactly when a step reads or
  writes a node that is not allocated.  The history fields \<open>enq\<close> and \<open>deq\<close> record the
  elements in the order of the exchanges and of the takes; the code has no such fields.
  Atomic accesses are interleaved; the release/acquire orders of the code are those that make
  the write of \<^verbatim>\<open>next\<close> publish the node it points to.\<close>

record 'a Node =
  element :: "'a option"
  next_node :: "nat option"

datatype producer_pc = PIdle | PLink nat nat | PCount

datatype consumer_pc = CIdle | CCheck | CSpin | CUnlink nat | CTake nat | CDelete nat | CSub

record 'a MPSCQueue =
  heap :: "nat \<rightharpoonup> 'a Node"
  head_ptr :: nat
  tail_ptr :: nat
  size_ctr :: u64
  producers :: "nat \<Rightarrow> producer_pc"
  consumer :: consumer_pc
  enq :: "'a list"
  deq :: "'a list"

definition mpsc_init :: "nat \<Rightarrow> 'a MPSCQueue" where
  "mpsc_init stub = \<lparr> heap = [stub \<mapsto> \<lparr> element = None, next_node = None \<rparr>],
     head_ptr = stub, tail_ptr = stub, size_ctr = 0, producers = (\<lambda>_. PIdle), consumer = CIdle,
     enq = [], deq = [] \<rparr>"

text \<open>The actions carry what the environment chooses: the thread, the pushed element and the
  address the allocator returns.\<close>

datatype 'a mpsc_action =
    Exchange nat 'a nat
  | Link nat
  | Count nat
  | LoadNext
  | CheckHead
  | Spin
  | Unlink
  | Take
  | Delete
  | Sub

fun mpsc_enabled :: "'a mpsc_action \<Rightarrow> 'a MPSCQueue \<Rightarrow> bool" where
  "mpsc_enabled (Exchange t e a) s \<longleftrightarrow> producers s t = PIdle \<and> heap s a = None"
| "mpsc_enabled (Link t) s \<longleftrightarrow> (case producers s t of PLink _ _ \<Rightarrow> True | _ \<Rightarrow> False)"
| "mpsc_enabled (Count t) s \<longleftrightarrow> producers s t = PCount"
| "mpsc_enabled LoadNext s \<longleftrightarrow> consumer s = CIdle"
| "mpsc_enabled CheckHead s \<longleftrightarrow> consumer s = CCheck"
| "mpsc_enabled Spin s \<longleftrightarrow> consumer s = CSpin"
| "mpsc_enabled Unlink s \<longleftrightarrow> (case consumer s of CUnlink _ \<Rightarrow> True | _ \<Rightarrow> False)"
| "mpsc_enabled Take s \<longleftrightarrow> (case consumer s of CTake _ \<Rightarrow> True | _ \<Rightarrow> False)"
| "mpsc_enabled Delete s \<longleftrightarrow> (case consumer s of CDelete _ \<Rightarrow> True | _ \<Rightarrow> False)"
| "mpsc_enabled Sub s \<longleftrightarrow> consumer s = CSub"

fun store_next :: "nat \<Rightarrow> nat option \<Rightarrow> (nat \<rightharpoonup> 'a Node) \<Rightarrow> (nat \<rightharpoonup> 'a Node) option" where
  "store_next a n h = (case h a of None \<Rightarrow> None | Some nd \<Rightarrow> Some (h(a \<mapsto> nd\<lparr>next_node := n\<rparr>)))"

fun mpsc_step :: "'a mpsc_action \<Rightarrow> 'a MPSCQueue \<Rightarrow> 'a MPSCQueue option" where
  "mpsc_step (Exchange t e a) s =
    Some (s\<lparr> heap := (heap s)(a \<mapsto> \<lparr> element = Some e, next_node = None \<rparr>),
             head_ptr := a,
             producers := (producers s)(t := PLink (head_ptr s) a),
             enq := enq s @ [e] \<rparr>)"
| "mpsc_step (Link t) s =
    (case producers s t of
       PLink oldhead newNode \<Rightarrow>
         (case store_next oldhead (Some newNode) (heap s) of
            None \<Rightarrow> None
          | Some h \<Rightarrow> Some (s\<lparr> heap := h, producers := (producers s)(t := PCount) \<rparr>))
     | _ \<Rightarrow> None)"
| "mpsc_step (Count t) s =
    Some (s\<lparr> size_ctr := size_ctr s + 1, producers := (producers s)(t := PIdle) \<rparr>)"
| "mpsc_step LoadNext s =
    (case heap s (tail_ptr s) of
       None \<Rightarrow> None
     | Some nd \<Rightarrow> Some (s\<lparr> consumer := (case next_node nd of None \<Rightarrow> CCheck | Some n \<Rightarrow> CUnlink n) \<rparr>))"
| "mpsc_step CheckHead s =
    Some (s\<lparr> consumer := (if head_ptr s = tail_ptr s then CIdle else CSpin) \<rparr>)"
| "mpsc_step Spin s =
    (case heap s (tail_ptr s) of
       None \<Rightarrow> None
     | Some nd \<Rightarrow> Some (s\<lparr> consumer := (case next_node nd of None \<Rightarrow> CSpin | Some n \<Rightarrow> CUnlink n) \<rparr>))"
| "mpsc_step Unlink s =
    (case consumer s of
       CUnlink n \<Rightarrow>
         (case store_next (tail_ptr s) None (heap s) of
            None \<Rightarrow> None
          | Some h \<Rightarrow> Some (s\<lparr> heap := h, consumer := CTake n \<rparr>))
     | _ \<Rightarrow> None)"
| "mpsc_step Take s =
    (case consumer s of
       CTake n \<Rightarrow>
         (case heap s n of
            None \<Rightarrow> None
          | Some nd \<Rightarrow>
              (case element nd of
                 None \<Rightarrow> None
               | Some e \<Rightarrow> Some (s\<lparr> tail_ptr := n, consumer := CDelete (tail_ptr s), deq := deq s @ [e] \<rparr>)))
     | _ \<Rightarrow> None)"
| "mpsc_step Delete s =
    (case consumer s of
       CDelete t \<Rightarrow>
         (case heap s t of
            None \<Rightarrow> None
          | Some _ \<Rightarrow> Some (s\<lparr> heap := (heap s)(t := None), consumer := CSub \<rparr>))
     | _ \<Rightarrow> None)"
| "mpsc_step Sub s = Some (s\<lparr> size_ctr := size_ctr s - 1, consumer := CIdle \<rparr>)"

inductive mpsc_reach :: "nat \<Rightarrow> 'a MPSCQueue \<Rightarrow> bool" for stub :: nat where
  mpsc_start: "mpsc_reach stub (mpsc_init stub)"
| mpsc_next: "mpsc_reach stub s \<Longrightarrow> mpsc_enabled a s \<Longrightarrow> mpsc_step a s = Some s' \<Longrightarrow> mpsc_reach stub s'"

text \<open>Without interleaving, the steps of one call make up the sequential operations.\<close>

fun mpsc_run :: "'a mpsc_action list \<Rightarrow> 'a MPSCQueue \<Rightarrow> 'a MPSCQueue option" where
  "mpsc_run [] s = Some s"
| "mpsc_run (a # as) s =
    (if mpsc_enabled a s then (case mpsc_step a s of None \<Rightarrow> None | Some s' \<Rightarrow> mpsc_run as s') else None)"

definition Push :: "nat \<Rightarrow> 'a \<Rightarrow> nat \<Rightarrow> 'a MPSCQueue \<Rightarrow> (u64 \<times> 'a MPSCQueue) option" where
  "Push t elem addr s =
    (case mpsc_run [Exchange t elem addr, Link t] s of
       None \<Rightarrow> None
     | Some s1 \<Rightarrow>
         (case mpsc_run [Count t] s1 of None \<Rightarrow> None | Some s2 \<Rightarrow> Some (size_ctr s1, s2)))"

definition Pop :: "'a MPSCQueue \<Rightarrow> ('a option \<times> 'a MPSCQueue) option" where
  "Pop s =
    (case mpsc_run [LoadNext] s of
       None \<Rightarrow> None
     | Some s1 \<Rightarrow>
         (if consumer s1 = CCheck then
            (case mpsc_run [CheckHead] s1 of
               None \<Rightarrow> None
             | Some s2 \<Rightarrow> if consumer s2 = CIdle then Some (None, s2) else None)
          else
            (case mpsc_run [Unlink, Take, Delete, Sub] s1 of
               None \<Rightarrow> None
             | Some s2 \<Rightarrow> Some (Some (last (deq s2)), s2))))"

definition Size :: "'a MPSCQueue \<Rightarrow> u64" where
  "Size s = size_ctr s"

definition Empty :: "'a MPSCQueue \<Rightarrow> bool option" where
  "Empty s =
    (case heap s (tail_ptr s) of
       None \<Rightarrow> None
     | Some nd \<Rightarrow> Some (next_node nd = None \<and> head_ptr s = tail_ptr s))"

subsection \<open>The invariant\<close>

fun pairs :: "'a list \<Rightarrow> ('a \<times> 'a) set" where
  "pairs (x # y # r) = insert (x, y) (pairs (y # r))"
| "pairs _ = {}"

definition nxt :: "'a MPSCQueue \<Rightarrow> nat \<Rightarrow> nat option" where
  "nxt s x = (case heap s x of None \<Rightarrow> None | Some nd \<Rightarrow> next_node nd)"

definition elem :: "'a MPSCQueue \<Rightarrow> nat \<Rightarrow> 'a option" where
  "elem s x = (case heap s x of None \<Rightarrow> None | Some nd \<Rightarrow> element nd)"

definition pend :: "'a MPSCQueue \<Rightarrow> (nat \<times> nat) set" where
  "pend s = {(old, a). \<exists>t. producers s t = PLink old a}"

definition cut_nodes :: "'a MPSCQueue \<Rightarrow> nat set" where
  "cut_nodes s = (case consumer s of CTake _ \<Rightarrow> {tail_ptr s} | _ \<Rightarrow> {})"

definition dying :: "'a MPSCQueue \<Rightarrow> nat set" where
  "dying s = (case consumer s of CDelete t \<Rightarrow> {t} | _ \<Rightarrow> {})"

text \<open>\<open>ns\<close> is the list of the nodes from \<^verbatim>\<open>tail_\<close> to \<^verbatim>\<open>head_\<close>: each link is either written or
  still owed by exactly one producer.\<close>

definition chain_inv :: "'a MPSCQueue \<Rightarrow> nat list \<Rightarrow> bool" where
  "chain_inv s ns \<longleftrightarrow>
     ns \<noteq> [] \<and> distinct ns \<and> hd ns = tail_ptr s \<and> last ns = head_ptr s
     \<and> dom (heap s) = set ns \<union> dying s \<and> dying s \<inter> set ns = {}"

definition link_inv :: "'a MPSCQueue \<Rightarrow> nat list \<Rightarrow> bool" where
  "link_inv s ns \<longleftrightarrow>
     (\<forall>x y. (x, y) \<in> pairs ns \<longrightarrow> x \<notin> cut_nodes s \<longrightarrow>
        nxt s x = Some y \<and> x \<notin> Domain (pend s) \<or> nxt s x = None \<and> (x, y) \<in> pend s)
     \<and> pend s \<subseteq> pairs ns \<and> cut_nodes s \<inter> Domain (pend s) = {}
     \<and> (\<forall>t t' x a a'. producers s t = PLink x a \<longrightarrow> producers s t' = PLink x a' \<longrightarrow> t = t')
     \<and> nxt s (last ns) = None"

fun consumer_inv :: "consumer_pc \<Rightarrow> nat \<Rightarrow> nat list \<Rightarrow> (nat \<Rightarrow> nat option) \<Rightarrow> bool" where
  "consumer_inv CSpin t ns nx \<longleftrightarrow> tl ns \<noteq> []"
| "consumer_inv (CUnlink n) t ns nx \<longleftrightarrow> (\<exists>r. ns = t # n # r) \<and> nx t = Some n"
| "consumer_inv (CTake n) t ns nx \<longleftrightarrow> (\<exists>r. ns = t # n # r)"
| "consumer_inv _ t ns nx \<longleftrightarrow> True"

definition mpsc_inv :: "'a MPSCQueue \<Rightarrow> nat list \<Rightarrow> bool" where
  "mpsc_inv s ns \<longleftrightarrow> chain_inv s ns \<and> link_inv s ns
     \<and> consumer_inv (consumer s) (tail_ptr s) ns (nxt s)
     \<and> map Some (enq s) = map Some (deq s) @ map (elem s) (tl ns)"

lemma pairs_snoc: "ns \<noteq> [] \<Longrightarrow> pairs (ns @ [a]) = insert (last ns, a) (pairs ns)"
  by (induction ns rule: pairs.induct) auto

lemma pairs_mem: "(x, y) \<in> pairs ns \<Longrightarrow> x \<in> set ns \<and> y \<in> set (tl ns)"
  by (induction ns rule: pairs.induct) (auto split: if_splits)

lemma pairs_fun: "distinct ns \<Longrightarrow> (x, y) \<in> pairs ns \<Longrightarrow> (x, z) \<in> pairs ns \<Longrightarrow> y = z"
  by (induction ns rule: pairs.induct) (auto dest: pairs_mem)

lemma pairs_last: "distinct ns \<Longrightarrow> (last ns, y) \<notin> pairs ns"
  by (induction ns rule: pairs.induct) (auto dest: pairs_mem split: if_splits)

lemma pairs_hd: "distinct (x # y # r) \<Longrightarrow> (x, z) \<in> pairs (x # y # r) \<longleftrightarrow> z = y"
  by (auto dest: pairs_mem)

lemma mpsc_inv_init: "mpsc_inv (mpsc_init stub) [stub]"
  by (simp add: mpsc_inv_def chain_inv_def link_inv_def mpsc_init_def nxt_def pend_def cut_nodes_def dying_def)

subsection \<open>Every step keeps the invariant\<close>

lemma chain_inv_cong:
  "chain_inv s ns \<Longrightarrow> heap s' = heap s \<Longrightarrow> tail_ptr s' = tail_ptr s \<Longrightarrow> head_ptr s' = head_ptr s \<Longrightarrow>
    dying s' = dying s \<Longrightarrow> chain_inv s' ns"
  unfolding chain_inv_def by simp

lemma link_inv_cong:
  assumes "link_inv s ns" "nxt s' = nxt s" "pend s' = pend s" "cut_nodes s' = cut_nodes s"
    and "\<forall>t t' x a a'. producers s' t = PLink x a \<longrightarrow> producers s' t' = PLink x a' \<longrightarrow> t = t'"
  shows "link_inv s' ns"
  using assms unfolding link_inv_def by simp

lemma link_inv_uniq:
  "link_inv s ns \<Longrightarrow> \<forall>t t' x a a'. producers s t = PLink x a \<longrightarrow> producers s t' = PLink x a' \<longrightarrow> t = t'"
  unfolding link_inv_def by blast

lemma link_inv_pend:
  assumes "link_inv s ns" "(x, y) \<in> pend s"
  shows "(x, y) \<in> pairs ns" "x \<notin> cut_nodes s" "nxt s x = None"
  using assms unfolding link_inv_def by blast+

lemma inv_Exchange:
  assumes inv: "mpsc_inv s ns" and en: "mpsc_enabled (Exchange t e a) s"
    and st: "mpsc_step (Exchange t e a) s = Some s'"
  shows "mpsc_inv s' (ns @ [a])"
proof -
  have dom: "dom (heap s) = set ns \<union> dying s" and ne: "ns \<noteq> []" and d: "distinct ns"
    and l: "last ns = head_ptr s"
    using inv by (simp_all add: mpsc_inv_def chain_inv_def)
  have "a \<notin> dom (heap s)"
    using en by (simp add: domIff)
  then have a: "a \<notin> set ns" "a \<notin> dying s"
    by (simp_all add: dom)
  have s': "s' = s\<lparr> heap := (heap s)(a \<mapsto> \<lparr> element = Some e, next_node = None \<rparr>), head_ptr := a,
      producers := (producers s)(t := PLink (head_ptr s) a), enq := enq s @ [e] \<rparr>"
    using st by simp
  have nx: "nxt s' x = (if x = a then None else nxt s x)" and el: "elem s' x = (if x = a then Some e else elem s x)" for x
    by (simp_all add: s' nxt_def elem_def)
  have pe: "pend s' = insert (head_ptr s, a) (pend s)"
    using en by (auto simp: s' pend_def) (metis producer_pc.distinct(1))
  have cd: "cut_nodes s' = cut_nodes s" "dying s' = dying s" "tail_ptr s' = tail_ptr s" "consumer s' = consumer s"
    by (simp_all add: s' cut_nodes_def dying_def split: consumer_pc.split)
  have "chain_inv s' (ns @ [a])"
    using inv a ne by (auto simp: mpsc_inv_def chain_inv_def cd) (auto simp: s')
  moreover have "link_inv s' (ns @ [a])"
  proof -
    have li: "link_inv s ns" using inv by (simp add: mpsc_inv_def)
    have nd: "head_ptr s \<notin> Domain (pend s)"
      using li pairs_last [OF d] l by (auto simp: link_inv_def)
    have ct: "head_ptr s \<notin> cut_nodes s"
    proof
      assume "head_ptr s \<in> cut_nodes s"
      then obtain n where "consumer s = CTake n" "head_ptr s = tail_ptr s"
        by (auto simp: cut_nodes_def split: consumer_pc.splits)
      then obtain r where "ns = tail_ptr s # n # r" "last ns = tail_ptr s"
        using inv l by (auto simp: mpsc_inv_def)
      then show False
        using d last_in_set [of "n # r"] by simp
    qed
    have uniq: "\<forall>t t' x a a'. producers s' t = PLink x a \<longrightarrow> producers s' t' = PLink x a' \<longrightarrow> t = t'"
      using li nd by (auto simp: s' link_inv_def pend_def)
    have ps: "(x, y) \<in> pairs ns \<Longrightarrow> x \<noteq> a \<and> x \<noteq> head_ptr s" for x y
      using a pairs_mem [of x y ns] pairs_last [OF d, of y] l by auto
    show ?thesis
      unfolding link_inv_def using uniq li nd ct ps l
      by (auto simp: nx pe cd pairs_snoc [OF ne] link_inv_def)
  qed
  moreover have "consumer_inv (consumer s') (tail_ptr s') (ns @ [a]) (nxt s')"
    using inv a ne unfolding cd by (cases "consumer s") (auto simp: mpsc_inv_def nx)
  moreover have "map (elem s') (tl (ns @ [a])) = map (elem s) (tl ns) @ [Some e]"
    using a ne by (cases ns) (auto simp: el)
  ultimately show ?thesis
    using inv by (simp add: mpsc_inv_def) (simp add: s')
qed

lemma store_next_eq:
  "store_next x n h = Some h' \<longleftrightarrow> (\<exists>nd. h x = Some nd \<and> h' = h(x \<mapsto> nd\<lparr>next_node := n\<rparr>))"
  by (auto split: option.splits)

lemma inv_Link:
  assumes inv: "mpsc_inv s ns" and p: "producers s t = PLink x y"
    and st: "mpsc_step (Link t) s = Some s'"
  shows "mpsc_inv s' ns"
proof -
  obtain nd where nd: "heap s x = Some nd"
    and s': "s' = s\<lparr> heap := (heap s)(x \<mapsto> nd\<lparr>next_node := Some y\<rparr>), producers := (producers s)(t := PCount) \<rparr>"
    using st p by (auto simp: store_next_eq split: option.splits)
  have nx: "nxt s' z = (if z = x then Some y else nxt s z)" and el: "elem s' = elem s" for z
    using nd by (auto simp: s' nxt_def elem_def)
  have li: "link_inv s ns" and d: "distinct ns" using inv by (simp_all add: mpsc_inv_def chain_inv_def)
  have u: "t' = t" if "producers s t' = PLink x y" for t'
    using link_inv_uniq [OF li] p that by blast
  have ps: "(v, w) \<in> pend s' \<longleftrightarrow> (\<exists>t'. t' \<noteq> t \<and> producers s t' = PLink v w)"
    and po: "(v, w) \<in> pend s \<longleftrightarrow> (\<exists>t'. producers s t' = PLink v w)" for v w
    by (auto simp: s' pend_def)
  have "(v, w) \<in> pend s' \<longleftrightarrow> (v, w) \<in> pend s \<and> (v, w) \<noteq> (x, y)" for v w
    unfolding ps po using p u by (metis prod.inject producer_pc.inject)
  then have pe: "pend s' = pend s - {(x, y)}"
    by auto
  have cd: "cut_nodes s' = cut_nodes s" "dying s' = dying s" "tail_ptr s' = tail_ptr s" "consumer s' = consumer s"
    "enq s' = enq s" "deq s' = deq s"
    by (simp_all add: s' cut_nodes_def dying_def split: consumer_pc.split)
  have xy: "(x, y) \<in> pend s"
    using p by (auto simp: pend_def)
  note xy = xy link_inv_pend [OF li xy]
  have only: "(x, z) \<in> pend s \<Longrightarrow> z = y" for z
    using link_inv_pend(1) [OF li] pairs_fun [OF d _ xy(2)] by blast
  have "chain_inv s' ns"
  proof -
    have "dom (heap s') = dom (heap s)" "head_ptr s' = head_ptr s"
      using nd by (auto simp: s')
    then show ?thesis
      using inv by (simp add: mpsc_inv_def chain_inv_def cd)
  qed
  moreover have "link_inv s' ns"
  proof -
    have "\<forall>t t' x a a'. producers s' t = PLink x a \<longrightarrow> producers s' t' = PLink x a' \<longrightarrow> t = t'"
      using link_inv_uniq [OF li] by (simp add: s')
    moreover have "x \<noteq> last ns"
      using xy(2) pairs_last [OF d, of y] by blast
    moreover have "nxt s' v = Some w \<and> v \<notin> Domain (pend s') \<or> nxt s' v = None \<and> (v, w) \<in> pend s'"
      if vw: "(v, w) \<in> pairs ns" "v \<notin> cut_nodes s" for v w
    proof (cases "v = x")
      case True
      then show ?thesis
        using pairs_fun [OF d xy(2)] vw only by (auto simp: nx pe)
    next
      case False
      then have "v \<in> Domain (pend s') \<longleftrightarrow> v \<in> Domain (pend s)" "(v, w) \<in> pend s' \<longleftrightarrow> (v, w) \<in> pend s"
        by (auto simp: pe)
      then show ?thesis
        using li vw False by (simp add: nx link_inv_def)
    qed
    moreover have "pend s' \<subseteq> pairs ns" "cut_nodes s \<inter> Domain (pend s') = {}" "nxt s (last ns) = None"
      using li by (auto simp: pe link_inv_def)
    ultimately show ?thesis
      unfolding link_inv_def cd by (simp add: nx)
  qed
  moreover have "consumer_inv (consumer s') (tail_ptr s') ns (nxt s')"
  proof (cases "consumer s")
    case (CUnlink n)
    then have "nxt s (tail_ptr s) = Some n" "nxt s x = None"
      using inv xy by (simp_all add: mpsc_inv_def)
    then show ?thesis
      using inv CUnlink by (auto simp: mpsc_inv_def cd nx)
  qed (use inv in \<open>auto simp: mpsc_inv_def cd\<close>)
  ultimately show ?thesis
    using inv by (simp add: mpsc_inv_def cd el)
qed

lemma inv_Count:
  assumes inv: "mpsc_inv s ns" and p: "producers s t = PCount"
    and st: "mpsc_step (Count t) s = Some s'"
  shows "mpsc_inv s' ns"
proof -
  have s': "s' = s\<lparr> size_ctr := size_ctr s + 1, producers := (producers s)(t := PIdle) \<rparr>"
    using st by simp
  have f: "nxt s' = nxt s" "elem s' = elem s" "heap s' = heap s" "tail_ptr s' = tail_ptr s"
    "head_ptr s' = head_ptr s" "consumer s' = consumer s" "enq s' = enq s" "deq s' = deq s"
    "cut_nodes s' = cut_nodes s" "dying s' = dying s"
    by (auto simp: s' nxt_def elem_def cut_nodes_def dying_def split: consumer_pc.split)
  have pe: "pend s' = pend s"
    using p by (auto simp: s' pend_def) (metis producer_pc.distinct(5))
  have "\<forall>t t' x a a'. producers s' t = PLink x a \<longrightarrow> producers s' t' = PLink x a' \<longrightarrow> t = t'"
    using link_inv_uniq [of s ns] inv by (simp add: s' mpsc_inv_def)
  then have "chain_inv s' ns" "link_inv s' ns"
    using inv chain_inv_cong [of s ns s'] link_inv_cong [of s ns s'] by (simp_all add: mpsc_inv_def f pe)
  then show ?thesis
    using inv by (simp add: mpsc_inv_def f)
qed

text \<open>The consumer steps that only move the consumer's program counter.\<close>

lemma inv_consumer_only:
  assumes inv: "mpsc_inv s ns" and s': "s' = s\<lparr> size_ctr := z, consumer := c \<rparr>"
    and c: "consumer_inv c (tail_ptr s) ns (nxt s)"
    and plain: "cut_nodes s = {}" "cut_nodes s' = {}" "dying s = {}" "dying s' = {}"
  shows "mpsc_inv s' ns"
proof -
  have f: "nxt s' = nxt s" "elem s' = elem s" "heap s' = heap s" "tail_ptr s' = tail_ptr s"
    "head_ptr s' = head_ptr s" "consumer s' = c" "enq s' = enq s" "deq s' = deq s"
    "pend s' = pend s" "producers s' = producers s"
    by (auto simp: s' nxt_def elem_def pend_def)
  have "chain_inv s' ns" "link_inv s' ns"
    using inv chain_inv_cong [of s ns s'] link_inv_cong [of s ns s'] link_inv_uniq [of s ns]
    by (simp_all add: mpsc_inv_def f plain)
  then show ?thesis
    using inv c by (simp add: mpsc_inv_def f)
qed

lemma inv_next_hd:
  assumes inv: "mpsc_inv s ns" and n: "nxt s (tail_ptr s) = Some n"
    and c: "cut_nodes s = {}"
  shows "\<exists>r. ns = tail_ptr s # n # r"
proof -
  have "ns \<noteq> []" "hd ns = tail_ptr s" "nxt s (last ns) = None"
    using inv by (auto simp: mpsc_inv_def chain_inv_def link_inv_def)
  then obtain m r where ns: "ns = tail_ptr s # m # r"
    using n by (cases ns; cases "tl ns") auto
  then have "(tail_ptr s, m) \<in> pairs ns" by simp
  then have "m = n"
    using inv n c by (fastforce simp: mpsc_inv_def link_inv_def)
  with ns show ?thesis by blast
qed

lemma inv_load:
  assumes inv: "mpsc_inv s ns" and c: "consumer s = CIdle \<or> consumer s = CSpin"
    and h: "heap s (tail_ptr s) = Some nd"
    and s': "s' = s\<lparr> consumer := (case next_node nd of None \<Rightarrow> d | Some n \<Rightarrow> CUnlink n) \<rparr>"
    and d: "d = CCheck \<or> d = CSpin \<and> consumer s = CSpin"
  shows "mpsc_inv s' ns"
proof -
  have nx: "nxt s (tail_ptr s) = next_node nd" and ct: "cut_nodes s = {}"
    using h c by (auto simp: nxt_def cut_nodes_def)
  show ?thesis
  proof (rule inv_consumer_only [OF inv, where z = "size_ctr s"])
    show "s' = s\<lparr>size_ctr := size_ctr s, consumer := (case next_node nd of None \<Rightarrow> d | Some n \<Rightarrow> CUnlink n)\<rparr>"
      by (simp add: s')
    show "consumer_inv (case next_node nd of None \<Rightarrow> d | Some n \<Rightarrow> CUnlink n) (tail_ptr s) ns (nxt s)"
      using inv_next_hd [OF inv _ ct] nx d inv
      by (auto simp: mpsc_inv_def split: option.split)
  qed (use c d in \<open>auto simp: s' cut_nodes_def dying_def split: option.split\<close>)
qed

lemma inv_CheckHead:
  assumes inv: "mpsc_inv s ns" and c: "consumer s = CCheck"
    and st: "mpsc_step CheckHead s = Some s'"
  shows "mpsc_inv s' ns"
proof (rule inv_consumer_only [OF inv, where z = "size_ctr s" and c = "if head_ptr s = tail_ptr s then CIdle else CSpin"])
  show "s' = s\<lparr>size_ctr := size_ctr s, consumer := if head_ptr s = tail_ptr s then CIdle else CSpin\<rparr>"
    using st by auto
  have "tl ns \<noteq> []" if "head_ptr s \<noteq> tail_ptr s"
    using inv that by (cases ns) (auto simp: mpsc_inv_def chain_inv_def)
  then show "consumer_inv (if head_ptr s = tail_ptr s then CIdle else CSpin) (tail_ptr s) ns (nxt s)"
    by simp
qed (use st c in \<open>auto simp: cut_nodes_def dying_def split: if_splits\<close>)

lemma inv_Unlink:
  assumes inv: "mpsc_inv s ns" and c: "consumer s = CUnlink n"
    and st: "mpsc_step Unlink s = Some s'"
  shows "mpsc_inv s' ns"
proof -
  let ?t = "tail_ptr s"
  obtain nd where nd: "heap s ?t = Some nd"
    and s': "s' = s\<lparr> heap := (heap s)(?t \<mapsto> nd\<lparr>next_node := None\<rparr>), consumer := CTake n \<rparr>"
    using st c by (auto simp: store_next_eq split: option.splits)
  have nx: "nxt s' z = (if z = ?t then None else nxt s z)" and el: "elem s' = elem s" for z
    using nd by (auto simp: s' nxt_def elem_def)
  have f: "tail_ptr s' = ?t" "head_ptr s' = head_ptr s" "enq s' = enq s" "deq s' = deq s"
    "pend s' = pend s" "producers s' = producers s" "dom (heap s') = dom (heap s)"
    "cut_nodes s = {}" "cut_nodes s' = {?t}" "dying s = {}" "dying s' = {}" "consumer s' = CTake n"
    using nd c by (auto simp: s' pend_def cut_nodes_def dying_def)
  obtain r where ns: "ns = ?t # n # r" and nt: "nxt s ?t = Some n"
    using inv c by (auto simp: mpsc_inv_def)
  have li: "link_inv s ns" and ci: "chain_inv s ns"
    using inv by (simp_all add: mpsc_inv_def)
  have "?t \<notin> Domain (pend s)"
    using link_inv_pend(3) [OF li] nt by (auto simp: Domain_iff)
  then have "link_inv s' ns"
    using li link_inv_uniq [OF li] unfolding link_inv_def f by (auto simp: nx)
  moreover have "chain_inv s' ns"
    using ci by (simp add: chain_inv_def f)
  ultimately show ?thesis
    using inv ns by (simp add: mpsc_inv_def f el)
qed

lemma inv_Take:
  assumes inv: "mpsc_inv s ns" and c: "consumer s = CTake n"
  shows "\<exists>s' e. mpsc_step Take s = Some s' \<and> mpsc_inv s' (tl ns) \<and> deq s' = deq s @ [e]"
proof -
  let ?t = "tail_ptr s"
  obtain r where ns: "ns = ?t # n # r"
    using inv c by (auto simp: mpsc_inv_def)
  have li: "link_inv s ns" and ci: "chain_inv s ns"
    and en: "map Some (enq s) = map Some (deq s) @ elem s n # map (elem s) r"
    using inv by (auto simp: mpsc_inv_def ns)
  have "Some (enq s ! length (deq s)) = elem s n"
    using arg_cong [OF en, of "\<lambda>l. l ! length (deq s)"] arg_cong [OF en, of length]
    by (simp add: nth_append)
  then obtain e where e: "elem s n = Some e"
    by metis
  then obtain nd where nd: "heap s n = Some nd" "element nd = Some e"
    by (auto simp: elem_def split: option.splits)
  define s' where "s' = s\<lparr> tail_ptr := n, consumer := CDelete ?t, deq := deq s @ [e] \<rparr>"
  have st: "mpsc_step Take s = Some s'"
    using c nd by (simp add: s'_def)
  have f: "nxt s' = nxt s" "elem s' = elem s" "pend s' = pend s" "producers s' = producers s"
    "cut_nodes s = {?t}" "cut_nodes s' = {}" "dying s = {}" "dying s' = {?t}"
    "heap s' = heap s" "head_ptr s' = head_ptr s" "tail_ptr s' = n" "enq s' = enq s"
    using c by (auto simp: s'_def nxt_def elem_def pend_def cut_nodes_def dying_def)
  have d: "distinct (?t # n # r)" using ci by (simp add: chain_inv_def ns)
  have pt: "(x, y) \<in> pairs ns \<longleftrightarrow> x = ?t \<and> y = n \<or> (x, y) \<in> pairs (n # r)" for x y
    by (auto simp: ns)
  have nt: "x \<noteq> ?t" if "(x, y) \<in> pairs (n # r)" for x y
    using pairs_mem [OF that] d by auto
  have "pend s \<subseteq> pairs (n # r)"
    using link_inv_pend [OF li] pt by (auto simp: f)
  then have "link_inv s' (n # r)"
    using li link_inv_uniq [OF li] nt unfolding link_inv_def f by (auto simp: ns)
  moreover have "chain_inv s' (n # r)"
    using ci d by (auto simp: chain_inv_def f ns)
  ultimately have "mpsc_inv s' (tl ns)"
    using en by (simp add: mpsc_inv_def ns f e) (simp add: s'_def)
  then show ?thesis
    using st by (auto simp: s'_def)
qed

lemma inv_Delete:
  assumes inv: "mpsc_inv s ns" and c: "consumer s = CDelete t"
  shows "\<exists>s'. mpsc_step Delete s = Some s' \<and> mpsc_inv s' ns"
proof -
  have li: "link_inv s ns" and ci: "chain_inv s ns"
    using inv by (simp_all add: mpsc_inv_def)
  have dy: "dying s = {t}" and t: "t \<notin> set ns" "t \<in> dom (heap s)"
    using c ci by (auto simp: dying_def chain_inv_def)
  then obtain nd where nd: "heap s t = Some nd" by blast
  define s' where "s' = s\<lparr> heap := (heap s)(t := None), consumer := CSub \<rparr>"
  have st: "mpsc_step Delete s = Some s'"
    using c nd by (simp add: s'_def)
  have nx: "nxt s' z = nxt s z" "elem s' z = elem s z" if "z \<in> set ns" for z
    using that t by (auto simp: s'_def nxt_def elem_def)
  have f: "pend s' = pend s" "producers s' = producers s" "cut_nodes s = {}" "cut_nodes s' = {}"
    "dying s' = {}" "head_ptr s' = head_ptr s" "tail_ptr s' = tail_ptr s" "enq s' = enq s"
    "deq s' = deq s" "consumer s' = CSub"
    using c by (auto simp: s'_def pend_def cut_nodes_def dying_def)
  have "chain_inv s' ns"
  proof -
    have "dom (heap s') = dom (heap s) - {t}"
      by (auto simp: s'_def)
    then show ?thesis
      using ci t dy by (simp add: chain_inv_def f)
  qed
  moreover have "last ns \<in> set ns"
    using ci last_in_set [of ns] unfolding chain_inv_def by blast
  then have "link_inv s' ns"
    using li link_inv_uniq [OF li] pairs_mem [of _ _ ns] unfolding link_inv_def f by (simp add: nx)
  moreover have "map (elem s') (tl ns) = map (elem s) (tl ns)"
    using nx(2) by (cases ns) auto
  ultimately show ?thesis
    using st inv by (simp add: mpsc_inv_def f)
qed

lemma mpsc_step_inv:
  assumes inv: "mpsc_inv s ns" and en: "mpsc_enabled a s"
  shows "\<exists>s' ns'. mpsc_step a s = Some s' \<and> mpsc_inv s' ns'"
proof -
  have tl: "tail_ptr s \<in> dom (heap s)"
    using inv by (cases ns) (auto simp: mpsc_inv_def chain_inv_def)
  then obtain nd where nd: "heap s (tail_ptr s) = Some nd" by blast
  show ?thesis
  proof (cases a)
    case (Exchange t e x)
    then show ?thesis
      using inv_Exchange [OF inv] en by (metis mpsc_step.simps(1))
  next
    case (Link t)
    then obtain x y where p: "producers s t = PLink x y"
      using en by (auto split: producer_pc.splits)
    then have "(x, y) \<in> pairs ns"
      using inv link_inv_pend(1) [of s ns x y] by (auto simp: mpsc_inv_def pend_def)
    then have "x \<in> dom (heap s)"
      using pairs_mem [of x y ns] inv by (auto simp: mpsc_inv_def chain_inv_def)
    then obtain s' where "mpsc_step (Link t) s = Some s'"
      using p by auto
    then show ?thesis
      using inv_Link [OF inv p] Link by blast
  next
    case (Count t)
    then show ?thesis
      using inv_Count [OF inv] en by (metis mpsc_enabled.simps(3) mpsc_step.simps(3))
  next
    case LoadNext
    then show ?thesis
      using inv_load [OF inv _ nd refl, of CCheck] en nd by auto
  next
    case CheckHead
    then show ?thesis
      using inv_CheckHead [OF inv] en by (metis mpsc_enabled.simps(5) mpsc_step.simps(5))
  next
    case Spin
    then show ?thesis
      using inv_load [OF inv _ nd refl, of CSpin] en nd by auto
  next
    case Unlink
    then obtain n where c: "consumer s = CUnlink n"
      using en by (auto split: consumer_pc.splits)
    then show ?thesis
      using inv_Unlink [OF inv c] nd Unlink by auto
  next
    case Take
    then obtain n where c: "consumer s = CTake n"
      using en by (auto split: consumer_pc.splits)
    then show ?thesis
      using inv_Take [OF inv c] Take by blast
  next
    case Delete
    then obtain n where c: "consumer s = CDelete n"
      using en by (auto split: consumer_pc.splits)
    then show ?thesis
      using inv_Delete [OF inv c] Delete by blast
  next
    case Sub
    then show ?thesis
      using inv_consumer_only [OF inv refl, of CIdle "size_ctr s - 1"] en
      by (auto simp: cut_nodes_def dying_def)
  qed
qed

lemma mpsc_reach_inv: "mpsc_reach stub s \<Longrightarrow> \<exists>ns. mpsc_inv s ns"
proof (induction rule: mpsc_reach.induct)
  case mpsc_start
  then show ?case using mpsc_inv_init by blast
next
  case (mpsc_next s a s')
  then show ?case using mpsc_step_inv by (metis option.inject)
qed

lemma map_Some_append: "map Some xs = map Some ys @ zs \<Longrightarrow> \<exists>ws. xs = ys @ ws \<and> zs = map Some ws"
  by (metis append_eq_map_conv map_injective option.inject injI)

lemma mpsc_inv_rest:
  assumes "mpsc_inv s ns"
  obtains ws where "enq s = deq s @ ws" "map (elem s) (tl ns) = map Some ws"
  using assms map_Some_append [of "enq s" "deq s"] unfolding mpsc_inv_def by blast

subsection \<open>The size counter\<close>

definition busy :: "'a MPSCQueue \<Rightarrow> nat set" where
  "busy s = {t. producers s t \<noteq> PIdle}"

definition owed :: "'a MPSCQueue \<Rightarrow> u64" where
  "owed s = (case consumer s of CDelete _ \<Rightarrow> 1 | CSub \<Rightarrow> 1 | _ \<Rightarrow> 0)"

definition size_inv :: "'a MPSCQueue \<Rightarrow> bool" where
  "size_inv s \<longleftrightarrow> finite (busy s) \<and>
     size_ctr s + of_nat (card (busy s)) + of_nat (length (deq s)) = of_nat (length (enq s)) + owed s"

lemma size_inv_same:
  assumes "size_inv s" "busy s' = busy s" "owed s' = owed s" "size_ctr s' = size_ctr s"
    "enq s' = enq s" "deq s' = deq s"
  shows "size_inv s'"
  using assms by (simp add: size_inv_def)

lemma size_inv_Exchange:
  assumes "size_inv s" "mpsc_enabled (Exchange t e x) s" "mpsc_step (Exchange t e x) s = Some s'"
  shows "size_inv s'"
proof -
  have "t \<notin> busy s" "busy s' = insert t (busy s)" "owed s' = owed s" "size_ctr s' = size_ctr s"
    "length (enq s') = Suc (length (enq s))" "deq s' = deq s"
    using assms(2,3) by (auto simp: busy_def owed_def split: if_splits)
  then show ?thesis
    using assms(1) by (simp add: size_inv_def algebra_simps)
qed

lemma size_inv_Count:
  assumes "size_inv s" "mpsc_enabled (Count t) s" "mpsc_step (Count t) s = Some s'"
  shows "size_inv s'"
proof -
  have t: "t \<in> busy s" "busy s' = busy s - {t}" "owed s' = owed s" "size_ctr s' = size_ctr s + 1"
    "enq s' = enq s" "deq s' = deq s"
    using assms(2,3) by (auto simp: busy_def owed_def split: if_splits)
  have "card (busy s) = Suc (card (busy s - {t}))"
    using assms(1) t(1) card_Suc_Diff1 [of "busy s" t] by (simp add: size_inv_def)
  then have "size_ctr s + 1 + of_nat (card (busy s - {t})) = size_ctr s + of_nat (card (busy s))"
    by (simp only: of_nat_Suc add.assoc)
  then show ?thesis
    using assms(1) by (simp only: size_inv_def t) simp
qed

lemma size_inv_Take:
  assumes "size_inv s" "mpsc_enabled Take s" "mpsc_step Take s = Some s'"
  shows "size_inv s'"
proof -
  have t: "busy s' = busy s" "size_ctr s' = size_ctr s" "enq s' = enq s"
    "length (deq s') = Suc (length (deq s))" "owed s = 0" "owed s' = 1"
    using assms(2,3) by (auto simp: busy_def owed_def split: option.splits consumer_pc.splits)
  have "size_ctr s + of_nat (card (busy s)) + of_nat (length (deq s)) = of_nat (length (enq s))"
    using assms(1) by (simp add: size_inv_def t)
  then show ?thesis
    using assms(1) by (simp only: size_inv_def t of_nat_Suc add.commute [of 1] add.assoc [symmetric])
qed

lemma size_inv_Sub:
  assumes "size_inv s" "mpsc_enabled Sub s" "mpsc_step Sub s = Some s'"
  shows "size_inv s'"
proof -
  have "busy s' = busy s" "size_ctr s' = size_ctr s - 1" "enq s' = enq s" "deq s' = deq s"
    "owed s = 1" "owed s' = 0"
    using assms(2,3) by (auto simp: busy_def owed_def)
  moreover have "(a - 1) + b + c = (a + b + c) - 1" for a b c :: u64
    by (simp add: algebra_simps)
  ultimately show ?thesis
    using assms(1) by (simp only: size_inv_def) simp
qed

lemma size_inv_step:
  assumes "size_inv s" "mpsc_enabled a s" "mpsc_step a s = Some s'"
  shows "size_inv s'"
proof (cases a)
  case (Link t)
  then show ?thesis
    using assms(2,3) by (intro size_inv_same [OF assms(1)])
      (auto simp: busy_def owed_def split: producer_pc.splits option.splits if_splits)
next
  case LoadNext
  then show ?thesis
    using assms(2,3) by (intro size_inv_same [OF assms(1)])
      (auto simp: busy_def owed_def split: option.splits)
next
  case Spin
  then show ?thesis
    using assms(2,3) by (intro size_inv_same [OF assms(1)])
      (auto simp: busy_def owed_def split: option.splits)
next
  case CheckHead
  then show ?thesis
    using assms(2,3) by (intro size_inv_same [OF assms(1)])
      (auto simp: busy_def owed_def split: if_splits)
next
  case Unlink
  then show ?thesis
    using assms(2,3) by (intro size_inv_same [OF assms(1)])
      (auto simp: busy_def owed_def split: option.splits consumer_pc.splits)
next
  case Delete
  then show ?thesis
    using assms(2,3) by (intro size_inv_same [OF assms(1)])
      (auto simp: busy_def owed_def split: option.splits consumer_pc.splits)
next
  case (Exchange t e x)
  then show ?thesis
    using size_inv_Exchange [of s t e x s'] assms by (simp only:)
next
  case (Count t)
  then show ?thesis
    using size_inv_Count [of s t s'] assms by (simp only:)
next
  case Take
  then show ?thesis
    using size_inv_Take [of s s'] assms by (simp only:)
next
  case Sub
  then show ?thesis
    using size_inv_Sub [of s s'] assms by (simp only:)
qed

lemma mpsc_reach_size: "mpsc_reach stub s \<Longrightarrow> size_inv s"
proof (induction rule: mpsc_reach.induct)
  case mpsc_start
  then show ?case by (simp add: size_inv_def mpsc_init_def busy_def owed_def)
next
  case (mpsc_next s a s')
  then show ?case using size_inv_step by blast
qed

subsection \<open>Sequential use\<close>

text \<open>Between calls of a single thread no operation is in progress, and the queue holds the
  elements pushed and not yet popped.\<close>

definition mpsc_quiet :: "'a MPSCQueue \<Rightarrow> bool" where
  "mpsc_quiet s \<longleftrightarrow> (\<exists>ns. mpsc_inv s ns) \<and> (\<forall>t. producers s t = PIdle) \<and> consumer s = CIdle"

definition contents :: "'a MPSCQueue \<Rightarrow> 'a list" where
  "contents s = drop (length (deq s)) (enq s)"

definition seq_push :: "nat \<Rightarrow> 'a \<Rightarrow> 'a MPSCQueue \<Rightarrow> 'a MPSCQueue option" where
  "seq_push addr e s = map_option snd (Push 0 e addr s)"

lemma mpsc_init_quiet: "mpsc_quiet (mpsc_init stub)"
  using mpsc_inv_init by (auto simp: mpsc_quiet_def mpsc_init_def)

lemma mpsc_run_inv:
  "mpsc_inv s ns \<Longrightarrow> mpsc_run as s = Some s' \<Longrightarrow> \<exists>ns'. mpsc_inv s' ns'"
proof (induction as arbitrary: s ns)
  case (Cons a as)
  then show ?case
    using mpsc_step_inv [OF Cons.prems(1), of a] by (fastforce split: if_splits option.splits)
qed auto

lemma contents_eq: "enq s = deq s @ ws \<Longrightarrow> contents s = ws"
  by (simp add: contents_def)

lemma seq_push_appends:
  assumes q: "mpsc_quiet s" and a: "heap s addr = None"
  shows "\<exists>s'. seq_push addr e s = Some s' \<and> mpsc_quiet s' \<and> contents s' = contents s @ [e]"
proof -
  obtain ns where inv: "mpsc_inv s ns" using q by (auto simp: mpsc_quiet_def)
  have idle: "producers s t = PIdle" and c: "consumer s = CIdle" for t
    using q by (auto simp: mpsc_quiet_def)
  have "head_ptr s \<in> dom (heap s)"
    using inv last_in_set [of ns] unfolding mpsc_inv_def chain_inv_def by auto
  then obtain nd where nd: "heap s (head_ptr s) = Some nd" by blast
  then have ne: "head_ptr s \<noteq> addr" using a by auto
  obtain s1 where s1: "mpsc_run [Exchange 0 e addr, Link 0] s = Some s1"
    and e1: "producers s1 = (\<lambda>_. PIdle)(0 := PCount)" "enq s1 = enq s @ [e]" "deq s1 = deq s"
      "consumer s1 = CIdle"
    using idle c a nd ne by (simp add: fun_eq_iff)
  obtain ns1 where i1: "mpsc_inv s1 ns1"
    using mpsc_run_inv [OF inv s1] by blast
  obtain s2 where s2: "mpsc_run [Count 0] s1 = Some s2"
    and e2: "producers s2 = (\<lambda>_. PIdle)" "enq s2 = enq s @ [e]" "deq s2 = deq s" "consumer s2 = CIdle"
    using e1 by auto
  obtain ns2 where i2: "mpsc_inv s2 ns2"
    using mpsc_run_inv [OF i1 s2] by blast
  obtain ws where "enq s = deq s @ ws"
    using mpsc_inv_rest [OF inv] by blast
  then have "contents s2 = contents s @ [e]"
    by (simp add: contents_def e2)
  moreover have "mpsc_quiet s2"
    using i2 e2 by (auto simp: mpsc_quiet_def)
  moreover have "seq_push addr e s = Some s2"
    by (simp only: seq_push_def Push_def s1 s2 option.case option.map snd_conv)
  ultimately show ?thesis by blast
qed

lemma tl_empty_iff: "distinct ns \<Longrightarrow> ns \<noteq> [] \<Longrightarrow> last ns = hd ns \<longleftrightarrow> tl ns = []"
  by (metis distinct.simps(2) last_ConsL last_ConsR last_in_set list.collapse)

lemma quiet_next:
  assumes "mpsc_quiet s" "mpsc_inv s ns"
  shows "nxt s (tail_ptr s) = (case tl ns of [] \<Rightarrow> None | n # r \<Rightarrow> Some n)"
    and "head_ptr s = tail_ptr s \<longleftrightarrow> tl ns = []"
proof -
  have pe: "pend s = {}" and cu: "cut_nodes s = {}"
    using assms(1) by (auto simp: mpsc_quiet_def pend_def cut_nodes_def)
  have li: "link_inv s ns" and ci: "ns \<noteq> []" "distinct ns" "hd ns = tail_ptr s" "last ns = head_ptr s"
    using assms(2) by (simp_all add: mpsc_inv_def chain_inv_def)
  show "nxt s (tail_ptr s) = (case tl ns of [] \<Rightarrow> None | n # r \<Rightarrow> Some n)"
    using ci li by (cases ns; cases "tl ns") (auto simp: link_inv_def pe cu)
  show "head_ptr s = tail_ptr s \<longleftrightarrow> tl ns = []"
    using tl_empty_iff [of ns] ci by simp
qed

lemma tail_node:
  assumes "mpsc_inv s ns"
  obtains nd where "heap s (tail_ptr s) = Some nd" "next_node nd = nxt s (tail_ptr s)"
proof -
  have "tail_ptr s \<in> dom (heap s)"
    using assms by (cases ns) (auto simp: mpsc_inv_def chain_inv_def)
  then show thesis
    using that by (auto simp: nxt_def)
qed

lemma Pop_nothing:
  assumes q: "mpsc_quiet s" and e: "contents s = []"
  shows "Pop s = Some (None, s)"
proof -
  obtain ns where inv: "mpsc_inv s ns" using q by (auto simp: mpsc_quiet_def)
  obtain ws where ws: "enq s = deq s @ ws" "map (elem s) (tl ns) = map Some ws"
    using mpsc_inv_rest [OF inv] by blast
  then have "tl ns = []"
    using e by (simp add: contents_eq)
  then have n: "nxt s (tail_ptr s) = None" and h: "head_ptr s = tail_ptr s"
    using quiet_next [OF q inv] by simp_all
  obtain nd where nd: "heap s (tail_ptr s) = Some nd" "next_node nd = None"
    using tail_node [OF inv] n by metis
  have c: "consumer s = CIdle" using q by (simp add: mpsc_quiet_def)
  have "s\<lparr>consumer := CIdle\<rparr> = s" using c by simp
  then show ?thesis
    using nd h c by (simp add: Pop_def)
qed

lemma Pop_oldest:
  assumes q: "mpsc_quiet s" and e: "contents s = e # es"
  shows "\<exists>s'. Pop s = Some (Some e, s') \<and> mpsc_quiet s' \<and> contents s' = es"
proof -
  obtain ns where inv: "mpsc_inv s ns" using q by (auto simp: mpsc_quiet_def)
  obtain ws where ws: "enq s = deq s @ ws" "map (elem s) (tl ns) = map Some ws"
    using mpsc_inv_rest [OF inv] by blast
  then obtain n r where tl: "tl ns = n # r" and el: "elem s n = Some e"
    using e by (auto simp: contents_eq)
  have n: "nxt s (tail_ptr s) = Some n"
    using quiet_next(1) [OF q inv] tl by simp
  obtain nd where nd: "heap s (tail_ptr s) = Some nd" "next_node nd = Some n"
    using tail_node [OF inv] n by metis
  have "ns = tail_ptr s # n # r" "distinct ns"
    using inv tl by (cases ns; auto simp: mpsc_inv_def chain_inv_def)+
  then have neq: "n \<noteq> tail_ptr s" by auto
  obtain nn where nn: "heap s n = Some nn" "element nn = Some e"
    using el by (auto simp: elem_def split: option.splits)
  have c: "consumer s = CIdle" and idle: "\<forall>t. producers s t = PIdle"
    using q by (simp_all add: mpsc_quiet_def)
  define s1 where "s1 = s\<lparr>consumer := CUnlink n\<rparr>"
  have r1: "mpsc_run [LoadNext] s = Some s1"
    using nd c by (simp add: s1_def)
  obtain s2 where r2: "mpsc_run [Unlink, Take, Delete, Sub] s1 = Some s2"
    and f2: "deq s2 = deq s @ [e]" "enq s2 = enq s" "consumer s2 = CIdle" "producers s2 = producers s"
    using nd nn neq by (auto simp: s1_def)
  obtain ns1 where "mpsc_inv s1 ns1" using mpsc_run_inv [OF inv r1] by blast
  then obtain ns2 where i2: "mpsc_inv s2 ns2" using mpsc_run_inv [OF _ r2] by blast
  have "consumer s1 \<noteq> CCheck" by (simp add: s1_def)
  then have "Pop s = Some (Some (last (deq s2)), s2)"
    by (simp only: Pop_def r1 r2 option.case if_False)
  moreover have "mpsc_quiet s2"
    using i2 f2 idle by (auto simp: mpsc_quiet_def)
  moreover have "contents s2 = es"
    using ws(1) e by (simp add: contents_def f2)
  ultimately show ?thesis
    using f2 by simp
qed

interpretation mq: fifo_queue seq_push Pop "\<lambda>addr s. heap s addr = None" mpsc_quiet contents
proof unfold_locales
  fix q :: "'a MPSCQueue" and m e
  assume "mpsc_quiet q" "heap q m = None"
  then show "\<exists>q'. seq_push m e q = Some q' \<and> mpsc_quiet q' \<and> contents q' = contents q @ [e]"
    by (rule seq_push_appends)
next
  fix q :: "'a MPSCQueue"
  assume "mpsc_quiet q" "contents q = []"
  then show "\<exists>q'. Pop q = Some (None, q') \<and> mpsc_quiet q' \<and> contents q' = []"
    using Pop_nothing by blast
next
  fix q :: "'a MPSCQueue" and e es
  assume "mpsc_quiet q" "contents q = e # es"
  then show "\<exists>q'. Pop q = Some (Some e, q') \<and> mpsc_quiet q' \<and> contents q' = es"
    by (rule Pop_oldest)
qed

subsection \<open>Properties\<close>

lemma spin_link:
  assumes inv: "mpsc_inv s ns" and c: "consumer s = CSpin" and p: "pend s = {}"
  obtains n where "nxt s (tail_ptr s) = Some n"
proof -
  obtain x y r where ns: "ns = x # y # r" and x: "x = tail_ptr s"
    using inv c by (cases ns; cases "tl ns") (auto simp: mpsc_inv_def chain_inv_def)
  then have "(x, y) \<in> pairs ns" "x \<notin> cut_nodes s"
    using c by (auto simp: cut_nodes_def)
  then have "nxt s x = Some y"
    using inv p unfolding mpsc_inv_def link_inv_def by blast
  then show thesis
    using that x by blast
qed

text \<open>C5: No interleaving of any number of producers with the consumer makes a step read,
  write or free a node that is not allocated.\<close>

theorem mpsc_no_use_after_free:
  assumes "mpsc_reach stub s" "mpsc_enabled a s"
  shows "mpsc_step a s \<noteq> None"
  using mpsc_reach_inv [OF assms(1)] mpsc_step_inv [OF _ assms(2)] by fastforce

lemma mpsc_reach_run: "mpsc_run as s = Some s' \<Longrightarrow> mpsc_reach stub s \<Longrightarrow> mpsc_reach stub s'"
  by (induction as arbitrary: s) (auto intro: mpsc_next split: if_splits option.splits)

text \<open>A reachable state for the witnesses: producer 2 has linked behind producer 1, whose link
  is still missing, and the consumer spins.\<close>

definition mpsc_example :: "nat mpsc_action list" where
  "mpsc_example = [LoadNext, Exchange 1 10 5, Exchange 2 20 6, Link 2, CheckHead]"

lemma mpsc_example_reach:
  "mpsc_reach 0 (the (mpsc_run mpsc_example (mpsc_init 0 :: nat MPSCQueue)))"
  by (rule mpsc_reach_run [OF _ mpsc_start, of mpsc_example])
    (simp add: mpsc_example_def mpsc_init_def)

theorem mpsc_no_use_after_free_witness:
  "mpsc_step (Link 1) (the (mpsc_run mpsc_example (mpsc_init 0 :: nat MPSCQueue))) \<noteq> None"
  by (rule mpsc_no_use_after_free [OF mpsc_example_reach])
    (simp add: mpsc_example_def mpsc_init_def)

text \<open>C4: Elements leave the queue in the order of the producers' exchanges, each once: what has
  been popped is a prefix of what has been pushed.  \<^verbatim>\<open>Pop\<close> reports an empty queue only when
  everything pushed so far has been popped.\<close>

theorem mpsc_fifo:
  assumes "mpsc_reach stub s"
  shows "(\<exists>rest. enq s = deq s @ rest)
    \<and> (consumer s = CCheck \<and> head_ptr s = tail_ptr s \<longrightarrow> enq s = deq s)"
proof -
  obtain ns where inv: "mpsc_inv s ns" using mpsc_reach_inv [OF assms] by blast
  obtain ws where ws: "enq s = deq s @ ws" "map (elem s) (tl ns) = map Some ws"
    using mpsc_inv_rest [OF inv] by blast
  have "tl ns = []" if "head_ptr s = tail_ptr s"
    using inv that tl_empty_iff [of ns] by (simp add: mpsc_inv_def chain_inv_def)
  then show ?thesis
    using ws by auto
qed

theorem mpsc_fifo_witness:
  "\<exists>rest. enq (the (mpsc_run mpsc_example (mpsc_init 0)))
     = deq (the (mpsc_run mpsc_example (mpsc_init 0 :: nat MPSCQueue))) @ rest"
  using mpsc_fifo [OF mpsc_example_reach] by blast

text \<open>The size counter plus the number of producers that have exchanged and not yet counted
  plus the number of popped elements equals the number of pushed elements, up to the pop in
  progress, modulo $2^{64}$; so it is exact whenever no call is in progress.\<close>

theorem mpsc_size_accounting:
  assumes "mpsc_reach stub s"
  shows "size_ctr s + of_nat (card (busy s)) + of_nat (length (deq s))
    = of_nat (length (enq s)) + owed s"
  using mpsc_reach_size [OF assms] by (simp add: size_inv_def)

theorem mpsc_size_accounting_witness:
  "let s = the (mpsc_run mpsc_example (mpsc_init 0 :: nat MPSCQueue))
   in size_ctr s + of_nat (card (busy s)) + of_nat (length (deq s)) = of_nat (length (enq s)) + owed s"
  using mpsc_size_accounting [OF mpsc_example_reach] by (simp add: Let_def)



text \<open>Used by one thread, the queue is first-in first-out: pushing a list of elements into a
  quiet queue and popping as many returns what the queue held followed by the pushed list.\<close>

theorem mpsc_sequential_order:
  assumes "mpsc_quiet q" "all_ready (\<lambda>addr s. heap s addr = None) seq_push es q"
  shows "\<exists>q1 q2. push_all seq_push es q = Some q1
    \<and> pop_upto Pop (length (contents q) + length es) q1 = Some (contents q @ map snd es, q2)
    \<and> contents q2 = []"
  using mq.push_then_pop_order [OF assms] .

theorem mpsc_sequential_order_witness:
  "\<exists>q1 q2. push_all seq_push [(1, 10), (2, 20)] (mpsc_init 0 :: nat MPSCQueue) = Some q1
    \<and> pop_upto Pop 2 q1 = Some ([10, 20], q2) \<and> contents q2 = []"
proof -
  have r: "all_ready (\<lambda>addr s. heap s addr = None) seq_push [(1, 10), (2, 20)]
      (mpsc_init 0 :: nat MPSCQueue)"
    by (simp add: seq_push_def Push_def mpsc_init_def)
  have "contents (mpsc_init 0 :: nat MPSCQueue) = []"
    by (simp add: contents_def mpsc_init_def)
  then show ?thesis
    using mpsc_sequential_order [OF mpsc_init_quiet r] by (simp only: numeral_2_eq_2) simp
qed

end
