(* ===== verification/Address_Manager.thy ===== *)
theory Address_Manager
  imports Vesal_Prelude
begin

text \<open>Page sizes and the address manager of \<^verbatim>\<open>src/src/common/memory_pool_helper.{h,cc}\<close> and the
  public types of \<^verbatim>\<open>src/include/vesal/memory_pool.h\<close>.  The manager keeps a global table from the
  start of a huge page to its description and a copy of the entries a thread has used in that
  thread's own table.  Addresses are \<open>u64\<close>, a null pointer is 0, and a hash map is a partial function.
  The kernel's \<^verbatim>\<open>pagemap\<close> and \<^verbatim>\<open>kpageflags\<close> files are the parameters \<open>pagemap\<close> and
  \<open>kpageflags\<close>: the 8-byte entry at an offset, or \<open>None\<close> when the seek fails.  Locks, metrics
  and logging have no effect on these values; \<^verbatim>\<open>mmap\<close> and \<^verbatim>\<open>munmap\<close> are not modelled.\<close>

unbundle bit_operations_syntax

section \<open>Page sizes\<close>

datatype AlignType = kPage4kb | kPage2Mb | kPage1Gb | kPage512Mb | kAlignUnknown

definition VESAL_PAGESIZE :: "nat \<Rightarrow> u64" where
  "VESAL_PAGESIZE page_bit_num = push_bit page_bit_num 1"

definition VESAL_PAGEMASK :: "u64 \<Rightarrow> u64" where
  "VESAL_PAGEMASK page_size = NOT (page_size - 1)"

definition VESAL_PAGE_ALIGN :: "u64 \<Rightarrow> u64 \<Rightarrow> u64" where
  "VESAL_PAGE_ALIGN addr page_size = addr AND VESAL_PAGEMASK page_size"

definition VESAL_IS_PAGE_ALIGNED :: "u64 \<Rightarrow> u64 \<Rightarrow> bool" where
  "VESAL_IS_PAGE_ALIGNED addr page_size \<longleftrightarrow> addr = VESAL_PAGE_ALIGN addr page_size"

fun AlignTypeToPageSize :: "AlignType \<Rightarrow> u64" where
  "AlignTypeToPageSize kPage4kb = VESAL_PAGESIZE 12"
| "AlignTypeToPageSize kPage2Mb = VESAL_PAGESIZE 21"
| "AlignTypeToPageSize kPage1Gb = VESAL_PAGESIZE 30"
| "AlignTypeToPageSize kPage512Mb = VESAL_PAGESIZE 29"
| "AlignTypeToPageSize kAlignUnknown = 0"

definition PageSizeToAlignType :: "u64 \<Rightarrow> AlignType" where
  "PageSizeToAlignType page_size =
    (if page_size = VESAL_PAGESIZE 12 then kPage4kb
     else if page_size = VESAL_PAGESIZE 21 then kPage2Mb
     else if page_size = VESAL_PAGESIZE 30 then kPage1Gb
     else if page_size = VESAL_PAGESIZE 29 then kPage512Mb
     else kAlignUnknown)"

definition AlignPage :: "u64 \<Rightarrow> AlignType \<Rightarrow> u64" where
  "AlignPage addr type = VESAL_PAGE_ALIGN addr (AlignTypeToPageSize type)"

definition PageAlignType :: "u64 \<Rightarrow> AlignType" where
  "PageAlignType addr =
    (if VESAL_IS_PAGE_ALIGNED addr (VESAL_PAGESIZE 30) then kPage1Gb
     else if VESAL_IS_PAGE_ALIGNED addr (VESAL_PAGESIZE 29) then kPage512Mb
     else if VESAL_IS_PAGE_ALIGNED addr (VESAL_PAGESIZE 21) then kPage2Mb
     else if VESAL_IS_PAGE_ALIGNED addr (VESAL_PAGESIZE 12) then kPage4kb
     else kAlignUnknown)"

datatype HugePageSize = k2MB | k1GB | k512MB | kHugeUnknown

fun GetHugePageSize :: "HugePageSize \<Rightarrow> u64" where
  "GetHugePageSize k2MB = 2 * 1024 * 1024"
| "GetHugePageSize k1GB = 1024 * 1024 * 1024"
| "GetHugePageSize k512MB = 512 * 1024 * 1024"
| "GetHugePageSize kHugeUnknown = 0"

definition ToHugePageSize :: "u64 \<Rightarrow> HugePageSize" where
  "ToHugePageSize sz =
    (if sz = 2 * 1024 * 1024 then k2MB
     else if sz = 1024 * 1024 * 1024 then k1GB
     else if sz = 512 * 1024 * 1024 then k512MB
     else kHugeUnknown)"

section \<open>Physical addresses from the kernel\<close>

definition kPFNMask :: u64 where
  "kPFNMask = 0x7FFFFFFFFFFFFF"

definition GetPageFrameNumberOrZero :: "(u64 \<Rightarrow> u64 option) \<Rightarrow> u64 \<Rightarrow> u64 list \<Rightarrow> u64 list" where
  "GetPageFrameNumberOrZero pagemap pagesize addrs =
    map (\<lambda>a. case pagemap (a div pagesize * 8) of None \<Rightarrow> 0 | Some e \<Rightarrow> e AND kPFNMask) addrs"

definition GetPageFlagOrZero :: "(u64 \<Rightarrow> u64 option) \<Rightarrow> u64 list \<Rightarrow> u64 list" where
  "GetPageFlagOrZero kpageflags pfns =
    map (\<lambda>pfn. case kpageflags (pfn * 8) of None \<Rightarrow> 0 | Some flag \<Rightarrow> flag) pfns"

definition CalcPhysAddr :: "u64 \<Rightarrow> u64 \<Rightarrow> u64 \<Rightarrow> u64" where
  "CalcPhysAddr pagesize addr pfn = (if pfn = 0 then 0 else pfn * pagesize + addr mod pagesize)"

definition ContainFlag :: "u64 \<Rightarrow> nat \<Rightarrow> bool" where
  "ContainFlag x flag_bit \<longleftrightarrow> drop_bit flag_bit x AND 1 \<noteq> 0"

definition IsMemoryPinned :: "u64 \<Rightarrow> bool" where
  "IsMemoryPinned page_flag \<longleftrightarrow> ContainFlag page_flag 18 \<or> ContainFlag page_flag 17"

fun AllMemoryPinned :: "u64 list \<Rightarrow> bool" where
  "AllMemoryPinned [] \<longleftrightarrow> True"
| "AllMemoryPinned (f # fs) \<longleftrightarrow> (if \<not> IsMemoryPinned f then False else AllMemoryPinned fs)"

section \<open>The address manager\<close>

record PhysChunk =
  start_addr :: u64
  phys_addr :: u64
  align_type :: AlignType

definition GetChunkSize :: "PhysChunk \<Rightarrow> u64" where
  "GetChunkSize c = AlignTypeToPageSize (align_type c)"

record MemoryInfo =
  virtual_addr :: u64
  mi_len :: u64
  mi_page_size :: u64

type_synonym chunk_table = "u64 \<rightharpoonup> PhysChunk"

record AddressManager =
  memory_info_by_vaddr :: chunk_table
  tls_memory_info_by_vaddr :: chunk_table

definition AddressManager_Reset :: "AddressManager \<Rightarrow> AddressManager" where
  "AddressManager_Reset am = am\<lparr> tls_memory_info_by_vaddr := Map.empty \<rparr>"

definition AddInternalEntry :: "PhysChunk \<Rightarrow> AddressManager \<Rightarrow> AddressManager option" where
  "AddInternalEntry chunk am =
    (if align_type chunk = kPage1Gb \<or> align_type chunk = kPage2Mb \<or> align_type chunk = kPage512Mb
     then Some (am\<lparr> memory_info_by_vaddr := (memory_info_by_vaddr am)(start_addr chunk \<mapsto> chunk) \<rparr>)
     else None)"

definition ValidateExternalMemInfo :: "MemoryInfo \<Rightarrow> bool" where
  "ValidateExternalMemInfo info \<longleftrightarrow>
    (if virtual_addr info = 0 then False
     else if mi_len info = 0 then False
     else if mi_page_size info \<noteq> VESAL_PAGESIZE 30 \<and> mi_page_size info \<noteq> VESAL_PAGESIZE 21
             \<and> mi_page_size info \<noteq> VESAL_PAGESIZE 29 then False
     else if \<not> VESAL_IS_PAGE_ALIGNED (virtual_addr info) (mi_page_size info) then False
     else if mi_len info mod mi_page_size info \<noteq> 0 then False
     else True)"

definition external_chunks :: "MemoryInfo \<Rightarrow> PhysChunk list" where
  "external_chunks info =
    map (\<lambda>i. \<lparr> start_addr = virtual_addr info + of_nat i * mi_page_size info, phys_addr = 0,
               align_type = PageSizeToAlignType (mi_page_size info) \<rparr>)
      [0..<unat (mi_len info div mi_page_size info)]"

fun FillPhysAddrIfMissing :: "u64 \<Rightarrow> u64 list \<Rightarrow> PhysChunk list \<Rightarrow> PhysChunk list option" where
  "FillPhysAddrIfMissing pagesize (pfn # pfns) (c # cs) =
    (let c' = (if phys_addr c = 0 then c\<lparr> phys_addr := CalcPhysAddr pagesize (start_addr c) pfn \<rparr> else c) in
     if phys_addr c' = 0 then None
     else (case FillPhysAddrIfMissing pagesize pfns cs of None \<Rightarrow> None | Some cs' \<Rightarrow> Some (c' # cs')))"
| "FillPhysAddrIfMissing pagesize pfns [] = Some []"
| "FillPhysAddrIfMissing pagesize [] (c # cs) = None"

definition AddExternalEntries ::
  "(u64 \<Rightarrow> u64 option) \<Rightarrow> (u64 \<Rightarrow> u64 option) \<Rightarrow> u64 \<Rightarrow> MemoryInfo list \<Rightarrow> AddressManager
     \<Rightarrow> bool \<times> AddressManager" where
  "AddExternalEntries pagemap kpageflags pagesize infos am =
    (if \<not> list_all ValidateExternalMemInfo infos then (False, am)
     else
       let chunks = concat (map external_chunks infos);
           pfns = GetPageFrameNumberOrZero pagemap pagesize (map start_addr chunks)
       in if \<not> AllMemoryPinned (GetPageFlagOrZero kpageflags pfns) then (False, am)
          else (case FillPhysAddrIfMissing pagesize pfns chunks of
                  None \<Rightarrow> (False, am)
                | Some chunks' \<Rightarrow>
                    (True, am\<lparr> memory_info_by_vaddr :=
                       foldl (\<lambda>m c. m(start_addr c \<mapsto> c)) (memory_info_by_vaddr am) chunks' \<rparr>)))"

fun TableLookUp :: "chunk_table \<Rightarrow> u64 \<Rightarrow> AlignType list \<Rightarrow> PhysChunk option" where
  "TableLookUp tbl vaddr [] = None"
| "TableLookUp tbl vaddr (t # order) =
    (case tbl (AlignPage vaddr t) of
       None \<Rightarrow> TableLookUp tbl vaddr order
     | Some c \<Rightarrow> if align_type c = t then Some c else TableLookUp tbl vaddr order)"

definition default_order :: "AlignType list" where
  "default_order = [kPage2Mb, kPage512Mb, kPage1Gb, kPage4kb]"

text \<open>The look-up shared by the two queries: the thread's table first, then the global one,
  whose entry is copied into the thread's table.\<close>

definition find_chunk :: "u64 \<Rightarrow> AlignType list \<Rightarrow> AddressManager \<Rightarrow> PhysChunk option \<times> AddressManager" where
  "find_chunk vaddr order am =
    (case TableLookUp (tls_memory_info_by_vaddr am) vaddr order of
       Some c \<Rightarrow> (Some c, am)
     | None \<Rightarrow>
         (case TableLookUp (memory_info_by_vaddr am) vaddr order of
            None \<Rightarrow> (None, am)
          | Some c \<Rightarrow>
              (Some c, am\<lparr> tls_memory_info_by_vaddr := (tls_memory_info_by_vaddr am)(start_addr c \<mapsto> c) \<rparr>)))"

definition GetPhysAddr :: "u64 \<Rightarrow> AddressManager \<Rightarrow> u64 \<times> AddressManager" where
  "GetPhysAddr vaddr am =
    (case find_chunk vaddr default_order am of
       (None, am') \<Rightarrow> (0, am')
     | (Some c, am') \<Rightarrow> (phys_addr c + (vaddr - start_addr c), am'))"

text \<open>The loop of \<^verbatim>\<open>GetPhysAddrBound\<close>; its first argument is \<^verbatim>\<open>max_num - ret\<close>.  The result is
  whether every look-up succeeded, the pairs written to \<^verbatim>\<open>paddrs\<close> and \<^verbatim>\<open>paddr_sizes\<close>, and what is
  left.\<close>

fun bound_loop :: "nat \<Rightarrow> u64 \<Rightarrow> u64 \<Rightarrow> AddressManager \<Rightarrow> bool \<times> (u64 \<times> u64) list \<times> u64 \<times> AddressManager" where
  "bound_loop 0 cur left am = (True, [], left, am)"
| "bound_loop (Suc k) cur left am =
    (if left = 0 then (True, [], left, am)
     else
       (case find_chunk cur default_order am of
          (None, am') \<Rightarrow> (False, [], left, am')
        | (Some c, am') \<Rightarrow>
            (let page_ending = start_addr c + GetChunkSize c;
                 paddr = phys_addr c + (cur - start_addr c)
             in if cur + left \<le> page_ending then (True, [(paddr, left)], 0, am')
                else
                  let covered_size = page_ending - cur in
                  (case bound_loop k (cur + covered_size) (left - covered_size) am' of
                     (ok, segs, left', am'') \<Rightarrow> (ok, (paddr, covered_size) # segs, left', am'')))))"

definition GetPhysAddrBound :: "u64 \<Rightarrow> u64 \<Rightarrow> nat \<Rightarrow> AddressManager \<Rightarrow> nat \<times> (u64 \<times> u64) list \<times> AddressManager" where
  "GetPhysAddrBound vaddr v_len max_num am =
    (case bound_loop max_num vaddr v_len am of
       (ok, segs, left, am') \<Rightarrow> (if \<not> ok then 0 else if left > 0 then 0 else length segs, segs, am'))"

definition LookUpAddrIfNotAcrossBound :: "u64 \<Rightarrow> u64 \<Rightarrow> AddressManager \<Rightarrow> u64 \<times> AddressManager" where
  "LookUpAddrIfNotAcrossBound addr v_len am =
    (case GetPhysAddrBound addr v_len 2 am of
       (ret, segs, am') \<Rightarrow> (if ret = 1 then fst (hd segs) else 0, am'))"

section \<open>Alignment\<close>

lemma pagesize_eq: "VESAL_PAGESIZE n = 2 ^ n"
  by (simp add: VESAL_PAGESIZE_def)

lemma page_align_take_bit: "VESAL_PAGE_ALIGN a (2 ^ n) = push_bit n (drop_bit n a)"
proof -
  have "(2 :: u64) ^ n - 1 = mask n"
    by (simp add: mask_eq_exp_minus_1)
  then show ?thesis
    by (simp only: VESAL_PAGE_ALIGN_def VESAL_PAGEMASK_def)
      (rule bit_word_eqI, auto simp: bit_simps)
qed

lemma unat_page_align:
  assumes "n < 64"
  shows "unat (VESAL_PAGE_ALIGN a (2 ^ n)) = unat a div 2 ^ n * 2 ^ n"
proof -
  have "unat a div 2 ^ n * 2 ^ n \<le> unat a"
    by simp
  also have "\<dots> < 2 ^ 64"
    by (rule unat_u64_less)
  finally have "unat a div 2 ^ n * 2 ^ n < 2 ^ 64" .
  moreover have "unat (push_bit n (drop_bit n a)) = take_bit 64 (unat a div 2 ^ n * 2 ^ n)"
    by (subst unsigned_push_bit_eq, subst unat_drop_bit_eq) (simp add: push_bit_eq_mult drop_bit_eq_div)
  ultimately show ?thesis
    by (simp add: page_align_take_bit take_bit_nat_eq_self)
qed

fun page_bits :: "AlignType \<Rightarrow> nat" where
  "page_bits kPage4kb = 12"
| "page_bits kPage2Mb = 21"
| "page_bits kPage1Gb = 30"
| "page_bits kPage512Mb = 29"
| "page_bits kAlignUnknown = 0"

lemma page_size_bits: "t \<noteq> kAlignUnknown \<Longrightarrow> AlignTypeToPageSize t = 2 ^ page_bits t"
  by (cases t) (simp_all add: pagesize_eq)

lemma page_bits_less: "page_bits t < 64"
  by (cases t) simp_all

lemma unat_page_size: "t \<noteq> kAlignUnknown \<Longrightarrow> unat (AlignTypeToPageSize t) = 2 ^ page_bits t"
  by (cases t) (simp_all add: pagesize_eq)

lemma unat_AlignPage:
  "t \<noteq> kAlignUnknown \<Longrightarrow> unat (AlignPage a t) = unat a div 2 ^ page_bits t * 2 ^ page_bits t"
  by (simp add: AlignPage_def page_size_bits unat_page_align page_bits_less)

lemma AlignPage_bounds:
  assumes "t \<noteq> kAlignUnknown"
  shows "unat (AlignPage a t) \<le> unat a"
    and "unat a < unat (AlignPage a t) + unat (AlignTypeToPageSize t)"
  using assms dividend_less_div_times [of "2 ^ page_bits t" "unat a"]
  by (simp_all add: unat_AlignPage unat_page_size add.commute)

section \<open>Look-ups\<close>

text \<open>A table is well formed when every entry is filed under its start address, which is aligned
  to the entry's page size and does not reach the end of the address space.\<close>

definition chunk_wf :: "u64 \<Rightarrow> PhysChunk \<Rightarrow> bool" where
  "chunk_wf k c \<longleftrightarrow> start_addr c = k \<and> align_type c \<in> {kPage2Mb, kPage512Mb, kPage1Gb}
     \<and> AlignPage k (align_type c) = k \<and> unat k + unat (GetChunkSize c) < 2 ^ 64"

definition table_wf :: "chunk_table \<Rightarrow> bool" where
  "table_wf tbl \<longleftrightarrow> (\<forall>k c. tbl k = Some c \<longrightarrow> chunk_wf k c)"

definition am_inv :: "AddressManager \<Rightarrow> bool" where
  "am_inv am \<longleftrightarrow> table_wf (memory_info_by_vaddr am)
     \<and> tls_memory_info_by_vaddr am \<subseteq>\<^sub>m memory_info_by_vaddr am"

definition holds :: "PhysChunk \<Rightarrow> nat \<Rightarrow> bool" where
  "holds c v \<longleftrightarrow> unat (start_addr c) \<le> v \<and> v < unat (start_addr c) + unat (GetChunkSize c)"

lemma TableLookUp_Some:
  "table_wf tbl \<Longrightarrow> TableLookUp tbl v order = Some c \<Longrightarrow>
    tbl (start_addr c) = Some c \<and> chunk_wf (start_addr c) c \<and> holds c (unat v)"
proof (induction order)
  case (Cons t order)
  show ?case
  proof (cases "tbl (AlignPage v t)")
    case None
    then show ?thesis using Cons by simp
  next
    case (Some d)
    then have d: "chunk_wf (AlignPage v t) d"
      using Cons.prems(1) by (simp add: table_wf_def)
    show ?thesis
    proof (cases "align_type d = t")
      case True
      then have "c = d" "t \<noteq> kAlignUnknown"
        using Cons.prems(2) Some d by (auto simp: chunk_wf_def)
      then show ?thesis
        using d Some True AlignPage_bounds [of t v] by (auto simp: chunk_wf_def holds_def GetChunkSize_def)
    next
      case False
      then show ?thesis using Cons Some by simp
    qed
  qed
qed simp

lemma table_wf_subset: "table_wf m \<Longrightarrow> t \<subseteq>\<^sub>m m \<Longrightarrow> table_wf t"
  by (metis domI map_le_def table_wf_def)

lemma find_chunk_cases:
  assumes "am_inv am" "find_chunk v order am = (r, am')"
  shows "am_inv am'" "memory_info_by_vaddr am' = memory_info_by_vaddr am"
    and "r = Some c \<Longrightarrow> memory_info_by_vaddr am (start_addr c) = Some c
           \<and> chunk_wf (start_addr c) c \<and> holds c (unat v)"
    and "r = None \<Longrightarrow> TableLookUp (memory_info_by_vaddr am) v order = None"
proof -
  let ?g = "memory_info_by_vaddr am" and ?t = "tls_memory_info_by_vaddr am"
  have wf: "table_wf ?g" "table_wf ?t" and le: "?t \<subseteq>\<^sub>m ?g"
    using assms(1) table_wf_subset by (auto simp: am_inv_def)
  note l = TableLookUp_Some [OF wf(1)] TableLookUp_Some [OF wf(2)]
  show "memory_info_by_vaddr am' = ?g"
    using assms(2) by (auto simp: find_chunk_def split: option.splits)
  show "am_inv am'"
  proof (cases "TableLookUp ?t v order")
    case None
    show ?thesis
    proof (cases "TableLookUp ?g v order")
      case (Some c)
      have "(Some c, am\<lparr> tls_memory_info_by_vaddr := ?t(start_addr c \<mapsto> c) \<rparr>) = (r, am')"
        using assms(2) by (simp only: find_chunk_def None Some option.case)
      then have "am' = am\<lparr> tls_memory_info_by_vaddr := ?t(start_addr c \<mapsto> c) \<rparr>"
        by (metis snd_conv)
      then show ?thesis
        using l(1) [OF Some] wf(1) by (simp add: am_inv_def map_le_upd_same [OF le])
    qed (use assms None in \<open>auto simp: find_chunk_def\<close>)
  qed (use assms in \<open>auto simp: find_chunk_def\<close>)
  show "?g (start_addr c) = Some c \<and> chunk_wf (start_addr c) c \<and> holds c (unat v)" if "r = Some c"
    using assms(2) that l map_le_SomeD [OF le]
    by (auto simp: find_chunk_def split: option.splits)
  show "TableLookUp ?g v order = None" if "r = None"
    using assms(2) that by (auto simp: find_chunk_def split: option.splits)
qed

section \<open>Translating a buffer\<close>

text \<open>\<open>segs_cover tbl v segs\<close>: the segments translate the bytes from \<open>v\<close> on, each inside one page
  of the table, and without gaps.\<close>

fun segs_cover :: "chunk_table \<Rightarrow> nat \<Rightarrow> (u64 \<times> u64) list \<Rightarrow> bool" where
  "segs_cover tbl v [] \<longleftrightarrow> True"
| "segs_cover tbl v ((p, n) # segs) \<longleftrightarrow>
     (\<exists>c \<in> ran tbl. unat (start_addr c) \<le> v \<and> v + unat n \<le> unat (start_addr c) + unat (GetChunkSize c)
        \<and> p = phys_addr c + of_nat (v - unat (start_addr c)))
     \<and> 0 < unat n \<and> segs_cover tbl (v + unat n) segs"

definition segs_len :: "(u64 \<times> u64) list \<Rightarrow> nat" where
  "segs_len segs = sum_list (map (unat \<circ> snd) segs)"

lemma of_nat_unat_diff: "unat b \<le> unat a \<Longrightarrow> (of_nat (unat a - unat b) :: u64) = a - b"
  by (simp add: unat_diff_u64 [symmetric])

lemma bound_loop_spec:
  assumes "am_inv am" "unat cur + unat left < 2 ^ 64" "bound_loop k cur left am = (ok, segs, rest, am')"
  shows "am_inv am' \<and> memory_info_by_vaddr am' = memory_info_by_vaddr am
    \<and> segs_cover (memory_info_by_vaddr am) (unat cur) segs
    \<and> segs_len segs + unat rest = unat left \<and> length segs \<le> k
    \<and> (ok \<and> 0 < unat rest \<longrightarrow> length segs = k)
    \<and> (\<not> ok \<longrightarrow> 0 < unat rest \<and>
         TableLookUp (memory_info_by_vaddr am) (cur + of_nat (segs_len segs)) default_order = None)"
  using assms
proof (induction k arbitrary: cur left am ok segs)
  case 0
  then show ?case by (auto simp: segs_len_def)
next
  case (Suc k)
  let ?g = "memory_info_by_vaddr am"
  show ?case
  proof (cases "left = 0")
    case True
    then show ?thesis using Suc.prems by (auto simp: segs_len_def)
  next
    case False
    then have lpos: "0 < unat left" by (simp add: unat_gt_0)
    obtain r am1 where f: "find_chunk cur default_order am = (r, am1)" by fastforce
    note fc = find_chunk_cases [OF Suc.prems(1) f]
    show ?thesis
    proof (cases r)
      case None
      then show ?thesis
        using Suc.prems(3) False f fc lpos by (auto simp: segs_len_def)
    next
      case (Some c)
      have c: "?g (start_addr c) = Some c" "chunk_wf (start_addr c) c" "holds c (unat cur)"
        using fc(3) Some by auto
      let ?pe = "start_addr c + GetChunkSize c"
      have pe: "unat ?pe = unat (start_addr c) + unat (GetChunkSize c)"
        using c(2) by (intro unat_add_u64) (simp add: chunk_wf_def)
      have cl: "unat (cur + left) = unat cur + unat left"
        using Suc.prems(2) by (rule unat_add_u64)
      have cs: "unat (start_addr c) \<le> unat cur" "unat cur < unat ?pe"
        using c(3) pe by (auto simp: holds_def)
      have ph: "phys_addr c + (cur - start_addr c) = phys_addr c + of_nat (unat cur - unat (start_addr c))"
        using of_nat_unat_diff [OF cs(1)] by simp
      have ran: "c \<in> ran ?g" using c(1) by (rule ranI)
      show ?thesis
      proof (cases "cur + left \<le> ?pe")
        case True
        then have "segs = [(phys_addr c + (cur - start_addr c), left)]" "rest = 0" "ok" "am' = am1"
          using Suc.prems(3) False f Some by (auto simp: Let_def)
        moreover have "unat cur + unat left \<le> unat (start_addr c) + unat (GetChunkSize c)"
          using True cl pe by (simp add: word_le_nat_alt)
        moreover from this have "segs_cover ?g (unat cur) [(phys_addr c + (cur - start_addr c), left)]"
          unfolding segs_cover.simps using ran cs ph lpos by (intro conjI bexI [of _ c]) auto
        ultimately show ?thesis
          using fc(1,2) by (simp add: segs_len_def)
      next
        case past: False
        let ?cv = "?pe - cur"
        have cv: "unat ?cv = unat ?pe - unat cur" "0 < unat ?cv" "unat ?cv \<le> unat left"
          using cs(2) past cl unat_diff_u64 [of cur ?pe] by (auto simp: word_le_nat_alt)
        have ln: "unat (left - ?cv) = unat left - unat ?cv" "unat (cur + ?cv) = unat cur + unat ?cv"
          using cv Suc.prems(2) unat_diff_u64 [of ?cv left] unat_add_u64 [of cur ?cv] by auto
        obtain segs1 where b: "bound_loop k (cur + ?cv) (left - ?cv) am1 = (ok, segs1, rest, am')"
          and s: "segs = (phys_addr c + (cur - start_addr c), ?cv) # segs1"
          using Suc.prems(3) False f Some past by (auto simp: Let_def split: prod.splits)
        have ih: "am_inv am' \<and> memory_info_by_vaddr am' = memory_info_by_vaddr am1
          \<and> segs_cover (memory_info_by_vaddr am1) (unat (cur + ?cv)) segs1
          \<and> segs_len segs1 + unat rest = unat (left - ?cv) \<and> length segs1 \<le> k
          \<and> (ok \<and> 0 < unat rest \<longrightarrow> length segs1 = k)
          \<and> (\<not> ok \<longrightarrow> 0 < unat rest \<and>
             TableLookUp (memory_info_by_vaddr am1) (cur + ?cv + of_nat (segs_len segs1)) default_order = None)"
          using cv ln Suc.prems(2) by (intro Suc.IH [OF fc(1) _ b]) simp
        have "of_nat (segs_len segs) = ?cv + of_nat (segs_len segs1)"
          by (simp add: s segs_len_def)
        moreover have "segs_len segs = unat ?cv + segs_len segs1"
          by (simp add: s segs_len_def)
        moreover have "segs_cover ?g (unat cur) segs"
          unfolding s segs_cover.simps using ih cv pe ph ran cs ln fc(2)
          by (intro conjI bexI [of _ c]) auto
        ultimately show ?thesis
          using ih fc(2) cv ln by (simp add: s add.assoc)
      qed
    qed
  qed
qed

section \<open>Registering memory\<close>

definition table_disjoint :: "chunk_table \<Rightarrow> bool" where
  "table_disjoint tbl \<longleftrightarrow> (\<forall>c \<in> ran tbl. \<forall>d \<in> ran tbl. \<forall>v. holds c v \<and> holds d v \<longrightarrow> c = d)"

lemma AlignPage_unique:
  assumes "t \<noteq> kAlignUnknown" "AlignPage k t = k" "unat k \<le> unat v"
    "unat v < unat k + unat (AlignTypeToPageSize t)"
  shows "AlignPage v t = k"
proof -
  let ?n = "2 ^ page_bits t :: nat"
  have k: "unat k = unat k div ?n * ?n"
    using unat_AlignPage [OF assms(1), of k] assms(2) by simp
  have "unat k div ?n \<le> unat v div ?n"
    using assms(3) by (rule div_le_mono)
  moreover have "unat v < (unat k div ?n + 1) * ?n"
    using assms(4) k by (simp add: unat_page_size [OF assms(1)])
  then have "unat v div ?n < unat k div ?n + 1"
    by (simp add: div_less_iff_less_mult)
  ultimately have "unat v div ?n = unat k div ?n"
    by simp
  then have "unat (AlignPage v t) = unat k"
    using unat_AlignPage [OF assms(1), of v] k by simp
  then show ?thesis
    by (simp add: unsigned_word_eqI)
qed

lemma TableLookUp_complete:
  assumes wf: "table_wf tbl" and dj: "table_disjoint tbl" and c: "c \<in> ran tbl" "holds c (unat v)"
    and t: "align_type c \<in> set order"
  shows "TableLookUp tbl v order = Some c"
  using t
proof (induction order)
  case (Cons t order)
  obtain k where "tbl k = Some c" using c(1) by (auto simp: ran_def)
  then have k: "tbl (start_addr c) = Some c" "chunk_wf (start_addr c) c"
    using wf by (auto simp: table_wf_def chunk_wf_def)
  show ?case
  proof (cases "align_type c = t")
    case True
    then have "AlignPage v t = start_addr c"
      using k(2) c(2) by - (rule AlignPage_unique, auto simp: chunk_wf_def holds_def GetChunkSize_def)
    then show ?thesis
      using k(1) True by simp
  next
    case False
    have "align_type d \<noteq> t" if d: "tbl (AlignPage v t) = Some d" for d
    proof
      assume "align_type d = t"
      then have "TableLookUp tbl v [t] = Some d" using d by simp
      then have "holds d (unat v)" "d \<in> ran tbl"
        using TableLookUp_Some [OF wf, of v "[t]" d] d by (auto intro: ranI)
      then have "c = d"
        using dj c unfolding table_disjoint_def by blast
      then show False
        using \<open>align_type d = t\<close> False by simp
    qed
    moreover have "TableLookUp tbl v order = Some c"
      using Cons.IH Cons.prems False by simp
    ultimately show ?thesis
      by (simp split: option.split)
  qed
qed simp

lemma TableLookUp_iff:
  assumes "table_wf tbl" "table_disjoint tbl"
  shows "TableLookUp tbl v default_order = Some c \<longleftrightarrow> c \<in> ran tbl \<and> holds c (unat v)"
proof
  assume "TableLookUp tbl v default_order = Some c"
  then show "c \<in> ran tbl \<and> holds c (unat v)"
    using TableLookUp_Some [OF assms(1)] by (auto intro: ranI)
next
  assume r: "c \<in> ran tbl \<and> holds c (unat v)"
  then have "align_type c \<in> set default_order"
    using assms(1) by (auto simp: ran_def table_wf_def chunk_wf_def default_order_def)
  then show "TableLookUp tbl v default_order = Some c"
    using TableLookUp_complete [OF assms] r by blast
qed

lemma GetPhysAddr_translates:
  assumes "am_inv am" "table_disjoint (memory_info_by_vaddr am)"
    and "c \<in> ran (memory_info_by_vaddr am)" "holds c (unat v)"
  shows "fst (GetPhysAddr v am) = phys_addr c + (v - start_addr c)"
proof -
  obtain r am' where f: "find_chunk v default_order am = (r, am')" by fastforce
  note fc = find_chunk_cases [OF assms(1) f]
  have wf: "table_wf (memory_info_by_vaddr am)" using assms(1) by (simp add: am_inv_def)
  have "r \<noteq> None"
    using fc(4) TableLookUp_iff [OF wf assms(2), of v c] assms(3,4) by auto
  then obtain d where d: "r = Some d" by auto
  then have "holds d (unat v)" "d \<in> ran (memory_info_by_vaddr am)"
    using fc(3) by (auto intro: ranI)
  then have "d = c"
    using assms by (auto simp: table_disjoint_def)
  then show ?thesis
    by (simp add: GetPhysAddr_def f d)
qed

lemma FillPhysAddrIfMissing_Some:
  "FillPhysAddrIfMissing ps pfns cs = Some cs' \<Longrightarrow> \<forall>c \<in> set cs. phys_addr c = 0 \<Longrightarrow>
    length cs' = length cs \<and> (\<forall>i < length cs. i < length pfns
      \<and> cs' ! i = (cs ! i)\<lparr> phys_addr := CalcPhysAddr ps (start_addr (cs ! i)) (pfns ! i) \<rparr>)"
proof (induction ps pfns cs arbitrary: cs' rule: FillPhysAddrIfMissing.induct)
  case (1 ps pfn pfns c cs)
  then obtain cs1 where cs1: "FillPhysAddrIfMissing ps pfns cs = Some cs1"
    and c': "cs' = c\<lparr> phys_addr := CalcPhysAddr ps (start_addr c) pfn \<rparr> # cs1"
    by (auto simp: Let_def split: if_splits option.splits)
  have "CalcPhysAddr ps (start_addr c) pfn \<noteq> 0"
    using "1.prems" by (auto simp: Let_def split: if_splits)
  then have ih: "length cs1 = length cs" "\<And>i. i < length cs \<Longrightarrow> i < length pfns
      \<and> cs1 ! i = (cs ! i)\<lparr> phys_addr := CalcPhysAddr ps (start_addr (cs ! i)) (pfns ! i) \<rparr>"
    using "1.IH" [OF refl _ cs1] "1.prems"(2) by auto
  have "i < length (pfn # pfns) \<and> cs' ! i = ((c # cs) ! i)
      \<lparr> phys_addr := CalcPhysAddr ps (start_addr ((c # cs) ! i)) ((pfn # pfns) ! i) \<rparr>"
    if "i < length (c # cs)" for i
    using that ih(2) by (cases i) (auto simp: c')
  then show ?case
    using ih(1) by (simp add: c')
qed auto

lemma foldl_upd_notin:
  "k \<notin> start_addr ` set cs \<Longrightarrow> foldl (\<lambda>m c. m(start_addr c \<mapsto> c)) m cs k = m k"
  by (induction cs arbitrary: m) auto

lemma foldl_upd_in:
  "distinct (map start_addr cs) \<Longrightarrow> c \<in> set cs \<Longrightarrow>
    foldl (\<lambda>m c. m(start_addr c \<mapsto> c)) m cs (start_addr c) = Some c"
  by (induction cs arbitrary: m) (auto simp: foldl_upd_notin)

lemma foldl_upd_Some:
  "foldl (\<lambda>m c. m(start_addr c \<mapsto> c)) m cs k = Some d \<Longrightarrow>
    d \<in> set cs \<and> start_addr d = k \<or> m k = Some d \<and> k \<notin> start_addr ` set cs"
  by (induction cs arbitrary: m) (fastforce split: if_splits)+

text \<open>The pages of a valid region that does not reach the end of the address space.\<close>

definition region_ok :: "MemoryInfo \<Rightarrow> bool" where
  "region_ok info \<longleftrightarrow> ValidateExternalMemInfo info \<and> unat (virtual_addr info) + unat (mi_len info) < 2 ^ 64"

lemma valid_page_type:
  assumes "ValidateExternalMemInfo info"
  obtains t where "t \<in> {kPage2Mb, kPage512Mb, kPage1Gb}" "mi_page_size info = AlignTypeToPageSize t"
    "PageSizeToAlignType (mi_page_size info) = t" "AlignPage (virtual_addr info) t = virtual_addr info"
    "unat (mi_len info) mod 2 ^ page_bits t = 0"
proof -
  have ps: "mi_page_size info \<in> {VESAL_PAGESIZE 30, VESAL_PAGESIZE 21, VESAL_PAGESIZE 29}"
    using assms by (auto simp: ValidateExternalMemInfo_def split: if_splits)
  define t where "t = PageSizeToAlignType (mi_page_size info)"
  have t: "t \<in> {kPage2Mb, kPage512Mb, kPage1Gb}" "mi_page_size info = AlignTypeToPageSize t"
    using ps by (auto simp: t_def PageSizeToAlignType_def pagesize_eq)
  have "AlignPage (virtual_addr info) t = virtual_addr info"
    using assms t(2) by (auto simp: ValidateExternalMemInfo_def VESAL_IS_PAGE_ALIGNED_def AlignPage_def split: if_splits)
  have "mi_len info mod mi_page_size info = 0"
    using assms by (auto simp: ValidateExternalMemInfo_def split: if_splits)
  then have "unat (mi_len info) mod unat (mi_page_size info) = 0"
    by (metis unat_0 unat_mod)
  moreover have "t \<noteq> kAlignUnknown"
    using t(1) by auto
  ultimately have "unat (mi_len info) mod 2 ^ page_bits t = 0"
    using t(2) unat_page_size [of t] by simp
  with \<open>AlignPage (virtual_addr info) t = virtual_addr info\<close> show thesis
    using that [OF t] by (simp add: t_def)
qed

lemma region_chunks:
  assumes r: "region_ok info"
  obtains t where "t \<in> {kPage2Mb, kPage512Mb, kPage1Gb}" "mi_page_size info = AlignTypeToPageSize t"
    "length (external_chunks info) * 2 ^ page_bits t = unat (mi_len info)"
    "\<And>i. i < length (external_chunks info) \<Longrightarrow>
       unat (start_addr (external_chunks info ! i)) = unat (virtual_addr info) + i * 2 ^ page_bits t
       \<and> align_type (external_chunks info ! i) = t \<and> phys_addr (external_chunks info ! i) = 0
       \<and> AlignPage (start_addr (external_chunks info ! i)) t = start_addr (external_chunks info ! i)"
proof -
  obtain t where t: "t \<in> {kPage2Mb, kPage512Mb, kPage1Gb}" "mi_page_size info = AlignTypeToPageSize t"
    "PageSizeToAlignType (mi_page_size info) = t" "AlignPage (virtual_addr info) t = virtual_addr info"
    "unat (mi_len info) mod 2 ^ page_bits t = 0"
    using r valid_page_type [of info] unfolding region_ok_def by metis
  let ?n = "2 ^ page_bits t :: nat" and ?va = "virtual_addr info" and ?cs = "external_chunks info"
  have tn: "t \<noteq> kAlignUnknown" using t(1) by auto
  have ps: "unat (mi_page_size info) = ?n"
    using unat_page_size [OF tn] t(2) by simp
  have psw: "mi_page_size info = of_nat ?n"
    unfolding ps [symmetric] by simp
  have len: "length ?cs = unat (mi_len info) div ?n"
    by (simp add: external_chunks_def unat_div ps)
  have tot: "length ?cs * ?n = unat (mi_len info)"
    using t(5) by (simp add: len mod_0_imp_dvd)
  have "unat (start_addr (?cs ! i)) = unat ?va + i * ?n \<and> align_type (?cs ! i) = t
      \<and> phys_addr (?cs ! i) = 0 \<and> AlignPage (start_addr (?cs ! i)) t = start_addr (?cs ! i)"
    if i: "i < length ?cs" for i
  proof -
    have "i * ?n \<le> length ?cs * ?n" using i by simp
    then have b: "unat ?va + i * ?n < 2 ^ 64"
      using r tot by (simp add: region_ok_def)
    have nth: "?cs ! i = \<lparr> start_addr = ?va + of_nat i * of_nat ?n, phys_addr = 0, align_type = t \<rparr>"
      using i t(3) by (simp add: external_chunks_def psw)
    have "unat (of_nat (i * ?n) :: u64) = i * ?n"
      using b by (intro unat_of_nat_u64) simp
    then have st: "unat (?va + of_nat i * of_nat ?n) = unat ?va + i * ?n"
      using b unat_add_u64 [of ?va "of_nat (i * ?n)"] by simp
    have "unat ?va = unat ?va div ?n * ?n"
      using unat_AlignPage [OF tn, of ?va] t(4) by simp
    moreover have "(unat ?va + i * ?n) div ?n = i + unat ?va div ?n"
      by simp
    ultimately have "unat (AlignPage (?va + of_nat i * of_nat ?n) t) = unat (?va + of_nat i * of_nat ?n)"
      unfolding unat_AlignPage [OF tn] st by (simp add: add_mult_distrib)
    then have "AlignPage (?va + of_nat i * of_nat ?n) t = ?va + of_nat i * of_nat ?n"
      by (rule unsigned_word_eqI)
    then show ?thesis
      using st by (simp add: nth)
  qed
  then show thesis
    using that [OF t(1,2) tot] by blast
qed

text \<open>A run of adjacent pages: what a successful registration adds to the table.\<close>

definition page_run :: "nat \<Rightarrow> AlignType \<Rightarrow> PhysChunk list \<Rightarrow> bool" where
  "page_run va t cs \<longleftrightarrow> t \<in> {kPage2Mb, kPage512Mb, kPage1Gb} \<and> va + length cs * 2 ^ page_bits t < 2 ^ 64
     \<and> (\<forall>i < length cs. unat (start_addr (cs ! i)) = va + i * 2 ^ page_bits t \<and> align_type (cs ! i) = t
          \<and> AlignPage (start_addr (cs ! i)) t = start_addr (cs ! i))"

lemma page_run_size: "page_run va t cs \<Longrightarrow> c \<in> set cs \<Longrightarrow> unat (GetChunkSize c) = 2 ^ page_bits t"
  by (auto simp: page_run_def in_set_conv_nth GetChunkSize_def pagesize_eq)

lemma page_run_holds:
  assumes "page_run va t cs" "i < length cs"
  shows "holds (cs ! i) v \<longleftrightarrow> va + i * 2 ^ page_bits t \<le> v \<and> v < va + (i + 1) * 2 ^ page_bits t"
  using assms page_run_size [OF assms(1) nth_mem [OF assms(2)]]
  by (auto simp: page_run_def holds_def)

lemma page_run_unique:
  assumes "page_run va t cs" "i < length cs" "j < length cs" "holds (cs ! i) v" "holds (cs ! j) v"
  shows "i = j"
proof -
  let ?n = "2 ^ page_bits t :: nat"
  have "va + i * ?n \<le> v" "v < va + (i + 1) * ?n" "va + j * ?n \<le> v" "v < va + (j + 1) * ?n"
    using assms(4,5) page_run_holds [OF assms(1,2), of v] page_run_holds [OF assms(1,3), of v]
    by simp_all
  then have "i * ?n \<le> v - va" "v - va < (i + 1) * ?n" "j * ?n \<le> v - va" "v - va < (j + 1) * ?n"
    by linarith+
  then have "(v - va) div ?n = i" "(v - va) div ?n = j"
    by (auto intro!: div_nat_eqI simp: mult.commute)
  then show ?thesis by simp
qed

lemma page_run_distinct:
  assumes "page_run va t cs"
  shows "distinct (map start_addr cs)"
  unfolding distinct_conv_nth
proof (intro allI impI)
  fix i j assume ij: "i < length (map start_addr cs)" "j < length (map start_addr cs)" "i \<noteq> j"
  then have "unat (start_addr (cs ! i)) \<noteq> unat (start_addr (cs ! j))"
    using assms by (simp add: page_run_def)
  then show "map start_addr cs ! i \<noteq> map start_addr cs ! j"
    using ij by auto
qed

lemma page_run_wf: "page_run va t cs \<Longrightarrow> c \<in> set cs \<Longrightarrow> chunk_wf (start_addr c) c"
proof -
  assume r: "page_run va t cs" and "c \<in> set cs"
  then obtain i where i: "i < length cs" "c = cs ! i" by (auto simp: in_set_conv_nth)
  have "(i + 1) * 2 ^ page_bits t \<le> length cs * 2 ^ page_bits t"
    using i by (intro mult_le_mono1) simp
  then show ?thesis
    using r i page_run_size [OF r, of c] by (auto simp: page_run_def chunk_wf_def)
qed

lemma add_page_run:
  assumes inv: "am_inv am" and dj: "table_disjoint (memory_info_by_vaddr am)" and r: "page_run va t cs"
    and free: "\<And>d v. d \<in> ran (memory_info_by_vaddr am) \<Longrightarrow> holds d v \<Longrightarrow>
        \<not> (va \<le> v \<and> v < va + length cs * 2 ^ page_bits t)"
    and am': "am' = am\<lparr> memory_info_by_vaddr :=
        foldl (\<lambda>m c. m(start_addr c \<mapsto> c)) (memory_info_by_vaddr am) cs \<rparr>"
  shows "am_inv am'" "table_disjoint (memory_info_by_vaddr am')" "set cs \<subseteq> ran (memory_info_by_vaddr am')"
proof -
  let ?m = "memory_info_by_vaddr am" and ?m' = "memory_info_by_vaddr am'"
  have m': "?m' = foldl (\<lambda>m c. m(start_addr c \<mapsto> c)) ?m cs"
    by (simp add: am')
  have inr: "va \<le> v \<and> v < va + length cs * 2 ^ page_bits t" if c: "c \<in> set cs" and h: "holds c v" for c v
  proof -
    obtain i where i: "i < length cs" "c = cs ! i" using c by (auto simp: in_set_conv_nth)
    have "(i + 1) * 2 ^ page_bits t \<le> length cs * 2 ^ page_bits t"
      using i by (intro mult_le_mono1) simp
    then show ?thesis
      using page_run_holds [OF r i(1), of v] h i(2) by simp
  qed
  have old: "k \<notin> start_addr ` set cs" if k: "?m k = Some d" for k d
  proof
    assume "k \<in> start_addr ` set cs"
    then obtain c where c: "c \<in> set cs" "k = start_addr c" by auto
    have "chunk_wf k d" using inv k by (simp add: am_inv_def table_wf_def)
    then have "holds d (unat k)" "0 < unat (GetChunkSize d)"
      by (auto simp: chunk_wf_def holds_def GetChunkSize_def pagesize_eq)
    moreover have "holds c (unat k)"
      using c page_run_size [OF r c(1)] by (simp add: holds_def)
    ultimately show False
      using free [of d "unat k"] inr [OF c(1), of "unat k"] k by (auto intro: ranI)
  qed
  have cases: "d \<in> set cs \<and> k = start_addr d \<or> ?m k = Some d" if "?m' k = Some d" for k d
    using foldl_upd_Some [of ?m cs k d] that m' by auto
  have "table_wf ?m'"
    using cases page_run_wf [OF r] inv unfolding am_inv_def table_wf_def by blast
  moreover have "?m \<subseteq>\<^sub>m ?m'"
    using old foldl_upd_notin [of _ cs ?m] m' by (auto simp: map_le_def)
  ultimately show "am_inv am'"
    using inv map_le_trans by (auto simp: am_inv_def am')
  show "set cs \<subseteq> ran ?m'"
    using foldl_upd_in [OF page_run_distinct [OF r], of _ ?m] m' by (auto intro: ranI)
  show "table_disjoint ?m'"
    unfolding table_disjoint_def
  proof (intro ballI allI impI)
    fix c d v assume c: "c \<in> ran ?m'" and d: "d \<in> ran ?m'" and h: "holds c v \<and> holds d v"
    have "c \<in> set cs \<or> c \<in> ran ?m" "d \<in> set cs \<or> d \<in> ran ?m"
      using c d cases by (fastforce simp: ran_def)+
    then consider "c \<in> set cs" "d \<in> set cs" | "c \<in> ran ?m" "d \<in> ran ?m"
      using h inr free by blast
    then show "c = d"
    proof cases
      case 1
      then show ?thesis
        using page_run_unique [OF r] h by (metis in_set_conv_nth)
    next
      case 2
      then show ?thesis
        using dj h unfolding table_disjoint_def by blast
    qed
  qed
qed

definition pfn_of :: "(u64 \<Rightarrow> u64 option) \<Rightarrow> u64 \<Rightarrow> u64 \<Rightarrow> u64" where
  "pfn_of pagemap pagesize a = (case pagemap (a div pagesize * 8) of None \<Rightarrow> 0 | Some e \<Rightarrow> e AND kPFNMask)"

lemma AddExternalEntries_single:
  assumes r: "region_ok info" and ok: "AddExternalEntries pm kf ps [info] am = (True, am')"
  obtains cs t where "page_run (unat (virtual_addr info)) t cs" "mi_page_size info = AlignTypeToPageSize t"
    "length cs * 2 ^ page_bits t = unat (mi_len info)"
    "am' = am\<lparr> memory_info_by_vaddr := foldl (\<lambda>m c. m(start_addr c \<mapsto> c)) (memory_info_by_vaddr am) cs \<rparr>"
    "\<And>c. c \<in> set cs \<Longrightarrow> phys_addr c = CalcPhysAddr ps (start_addr c) (pfn_of pm ps (start_addr c))"
proof -
  let ?x = "external_chunks info"
  obtain t where t: "t \<in> {kPage2Mb, kPage512Mb, kPage1Gb}" "mi_page_size info = AlignTypeToPageSize t"
    and len: "length ?x * 2 ^ page_bits t = unat (mi_len info)"
    and x: "\<And>i. i < length ?x \<Longrightarrow> unat (start_addr (?x ! i)) = unat (virtual_addr info) + i * 2 ^ page_bits t
       \<and> align_type (?x ! i) = t \<and> phys_addr (?x ! i) = 0
       \<and> AlignPage (start_addr (?x ! i)) t = start_addr (?x ! i)"
    using region_chunks [OF r] by blast
  let ?pfns = "GetPageFrameNumberOrZero pm ps (map start_addr ?x)"
  obtain cs where f: "FillPhysAddrIfMissing ps ?pfns ?x = Some cs"
    and am': "am' = am\<lparr> memory_info_by_vaddr := foldl (\<lambda>m c. m(start_addr c \<mapsto> c)) (memory_info_by_vaddr am) cs \<rparr>"
    using ok by (auto simp: AddExternalEntries_def Let_def split: if_splits option.splits)
  have z: "\<forall>c \<in> set ?x. phys_addr c = 0"
    using x by (auto simp: in_set_conv_nth)
  have cs: "length cs = length ?x" "\<And>i. i < length ?x \<Longrightarrow>
      cs ! i = (?x ! i)\<lparr> phys_addr := CalcPhysAddr ps (start_addr (?x ! i)) (pfn_of pm ps (start_addr (?x ! i))) \<rparr>"
    using FillPhysAddrIfMissing_Some [OF f z]
    by (auto simp: GetPageFrameNumberOrZero_def pfn_of_def)
  have "page_run (unat (virtual_addr info)) t cs"
    using r t x cs len by (simp add: page_run_def region_ok_def)
  moreover have "phys_addr c = CalcPhysAddr ps (start_addr c) (pfn_of pm ps (start_addr c))" if "c \<in> set cs" for c
    using that cs by (auto simp: in_set_conv_nth)
  ultimately show thesis
    using that [OF _ t(2) _ am'] cs(1) len by simp
qed

lemma page_run_covers:
  assumes "page_run va t cs" "va \<le> v" "v < va + length cs * 2 ^ page_bits t"
  obtains c where "c \<in> set cs" "holds c v"
proof -
  let ?n = "2 ^ page_bits t :: nat" and ?i = "(v - va) div 2 ^ page_bits t"
  have i: "?i < length cs"
    using assms(2,3) by (simp add: div_less_iff_less_mult)
  have "?i * ?n \<le> v - va"
    by simp
  moreover have "v - va < ?i * ?n + ?n"
    using dividend_less_div_times [of ?n "v - va"] by (simp add: add.commute)
  moreover have "(?i + 1) * ?n = ?i * ?n + ?n"
    by simp
  ultimately have "va + ?i * ?n \<le> v" "v < va + (?i + 1) * ?n"
    using assms(2) by linarith+
  then have "holds (cs ! ?i) v"
    using page_run_holds [OF assms(1) i, of v] by blast
  then show thesis
    using that [of "cs ! ?i"] i by simp
qed

section \<open>Properties\<close>


lemma align_2Mb: "AlignPage 0x200000 kPage2Mb = 0x200000" "AlignPage 0x200010 kPage2Mb = 0x200000"
  by (simp_all add: AlignPage_def VESAL_PAGE_ALIGN_def VESAL_PAGEMASK_def pagesize_eq)






text \<open>The conversions between page types and page sizes, and between huge page types and
  sizes, are inverse to each other on the supported sizes.\<close>

theorem page_size_roundtrip:
  "(t \<noteq> kAlignUnknown \<longrightarrow> PageSizeToAlignType (AlignTypeToPageSize t) = t)
   \<and> (PageSizeToAlignType n \<noteq> kAlignUnknown \<longrightarrow> AlignTypeToPageSize (PageSizeToAlignType n) = n)
   \<and> (h \<noteq> kHugeUnknown \<longrightarrow> ToHugePageSize (GetHugePageSize h) = h)"
  by (cases t; cases h) (simp_all add: PageSizeToAlignType_def ToHugePageSize_def pagesize_eq)

theorem page_size_roundtrip_witness:
  "PageSizeToAlignType (AlignTypeToPageSize kPage1Gb) = kPage1Gb"
  using page_size_roundtrip [of kPage1Gb] by simp

end
