(* ===== verification/Object_Pool.thy ===== *)
theory Object_Pool
  imports Vesal_Prelude
begin

text \<open>The thread-local object pool of \<^verbatim>\<open>src/src/common/object_pool.h\<close>: objects of one type are
  carved out of aligned chunks, cached on return, and a chunk whose objects have all been given back
  past the cache is reused or freed.  Addresses are natural numbers.  \<open>chunks\<close> holds the header of
  every allocated chunk under the chunk's address; \<open>None\<close> as the result of an operation is an access
  to a chunk that is not allocated or a failed \<^verbatim>\<open>VESAL_CHECK\<close>.  The memory the allocator returns is
  an argument \<open>mem\<close> of the operation that may need it.  The object pool
  interface that the users of the pool rely on is the locale \<open>object_store\<close>.\<close>

section \<open>Chunk geometry\<close>

text \<open>\<^verbatim>\<open>sizeof(LocalChunk<T>)\<close> is 16: a pointer, two 16-bit counters and a 32-bit thread id.\<close>

definition LOCAL_CHUNK_SIZE :: nat where
  "LOCAL_CHUNK_SIZE = 16"

definition MAX_CHUNK_SIZE :: nat where
  "MAX_CHUNK_SIZE = 32 * 1024"

definition FREE_CHUNK_SIZE :: nat where
  "FREE_CHUNK_SIZE = 128"

definition k_size_class :: "nat list" where
  "k_size_class = [2048, 4096, 8192, 16384, 32768]"

definition CalObjectNumInChunk :: "nat \<Rightarrow> nat" where
  "CalObjectNumInChunk sz = (let N = MAX_CHUNK_SIZE div sz in if N > 256 then 256 else N)"

text \<open>\<^verbatim>\<open>31 - __builtin_clz(x)\<close>, the position of the highest bit of a positive 32-bit number.\<close>

fun highest_bit :: "nat \<Rightarrow> nat" where
  "highest_bit x = (if x \<le> 1 then 0 else Suc (highest_bit (x div 2)))"

definition chunk_class :: "nat \<Rightarrow> nat" where
  "chunk_class sz =
    (let n = (CalObjectNumInChunk sz * sz - 1) div 2048
     in if n = 0 then 0 else highest_bit (n * 2))"

record pool_params =
  obj_size :: nat
  chunk_size :: nat
  object_num :: nat
  cache_max :: nat

text \<open>The constructor checks the object size and computes the sizes; \<open>None\<close> is a failed check or an
  index outside \<open>k_size_class\<close>.\<close>

definition pool_params_for :: "nat \<Rightarrow> nat \<Rightarrow> pool_params option" where
  "pool_params_for sz cache =
    (if \<not> sz \<le> MAX_CHUNK_SIZE - LOCAL_CHUNK_SIZE then None
     else if \<not> chunk_class sz < length k_size_class then None
     else
       let cs = k_size_class ! chunk_class sz
       in Some \<lparr> obj_size = sz, chunk_size = cs, object_num = (cs - LOCAL_CHUNK_SIZE) div sz,
                 cache_max = cache \<rparr>)"

section \<open>The pool\<close>

record LocalChunk =
  used_num :: nat
  chunk_free_num :: nat
  tid :: nat

record TlsObjectPool =
  chunks :: "nat \<rightharpoonup> LocalChunk"
  current_chunk :: "nat option"
  free_obj :: "nat list"
  full_free_chunks :: "nat list"
  thread_id :: nat
  shutdown :: bool

definition TlsObjectPool_init :: "nat \<Rightarrow> TlsObjectPool" where
  "TlsObjectPool_init t = \<lparr> chunks = Map.empty, current_chunk = None, free_obj = [],
     full_free_chunks = [], thread_id = t, shutdown = False \<rparr>"

definition address :: "pool_params \<Rightarrow> nat \<Rightarrow> nat" where
  "address P obj = obj div chunk_size P * chunk_size P"

definition object_at :: "pool_params \<Rightarrow> nat \<Rightarrow> nat \<Rightarrow> nat" where
  "object_at P c i = c + LOCAL_CHUNK_SIZE + i * obj_size P"

definition alloc_object :: "pool_params \<Rightarrow> nat \<Rightarrow> TlsObjectPool \<Rightarrow> (nat \<times> TlsObjectPool) option" where
  "alloc_object P c p =
    (case chunks p c of
       None \<Rightarrow> None
     | Some ch \<Rightarrow>
         Some (object_at P c (used_num ch),
               p\<lparr> chunks := (chunks p)(c \<mapsto> ch\<lparr> used_num := used_num ch + 1 \<rparr>) \<rparr>))"

text \<open>The second component of a result tells whether the object was constructed (placement
  \<^verbatim>\<open>new\<close>) or comes from the cache with its old contents.\<close>

definition construct_from :: "pool_params \<Rightarrow> nat \<Rightarrow> TlsObjectPool \<Rightarrow> ((nat \<times> bool) option \<times> TlsObjectPool) option" where
  "construct_from P c p =
    (case alloc_object P c p of None \<Rightarrow> None | Some (obj, p') \<Rightarrow> Some (Some (obj, True), p'))"

definition get_or_new_object ::
  "pool_params \<Rightarrow> nat option \<Rightarrow> TlsObjectPool \<Rightarrow> ((nat \<times> bool) option \<times> TlsObjectPool) option" where
  "get_or_new_object P mem p =
    (if free_obj p \<noteq> [] then
       Some (Some (last (free_obj p), False), p\<lparr> free_obj := butlast (free_obj p) \<rparr>)
     else
       let have_room = (case current_chunk p of
                          None \<Rightarrow> Some None
                        | Some c \<Rightarrow>
                            (case chunks p c of
                               None \<Rightarrow> None
                             | Some ch \<Rightarrow> Some (if used_num ch < object_num P then Some c else None)))
       in case have_room of
            None \<Rightarrow> None
          | Some (Some c) \<Rightarrow> construct_from P c p
          | Some None \<Rightarrow>
              if full_free_chunks p \<noteq> [] then
                let c = last (full_free_chunks p)
                in construct_from P c
                     (p\<lparr> current_chunk := Some c, full_free_chunks := butlast (full_free_chunks p) \<rparr>)
              else
                (case mem of
                   None \<Rightarrow> Some (None, p)
                 | Some c \<Rightarrow>
                     construct_from P c
                       (p\<lparr> chunks := (chunks p)(c \<mapsto>
                              \<lparr> used_num = 0, chunk_free_num = 0, tid = thread_id p \<rparr>),
                            current_chunk := Some c \<rparr>)))"

definition return_or_free_object :: "pool_params \<Rightarrow> nat \<Rightarrow> TlsObjectPool \<Rightarrow> TlsObjectPool option" where
  "return_or_free_object P obj p =
    (let c = address P obj in
     case chunks p c of
       None \<Rightarrow> None
     | Some ch \<Rightarrow>
         if tid ch \<noteq> thread_id p then None
         else if length (free_obj p) < cache_max P then Some (p\<lparr> free_obj := free_obj p @ [obj] \<rparr>)
         else if chunk_free_num ch + 1 = object_num P then
           let p' = p\<lparr> chunks := (chunks p)(c \<mapsto> ch\<lparr> chunk_free_num := 0, used_num := 0 \<rparr>) \<rparr>
           in if current_chunk p = Some c then Some p'
              else if length (full_free_chunks p) < FREE_CHUNK_SIZE
                   then Some (p'\<lparr> full_free_chunks := full_free_chunks p @ [c] \<rparr>)
                   else Some (p'\<lparr> chunks := (chunks p)(c := None) \<rparr>)
         else Some (p\<lparr> chunks := (chunks p)(c \<mapsto> ch\<lparr> chunk_free_num := chunk_free_num ch + 1 \<rparr>) \<rparr>))"

definition recycle_object :: "pool_params \<Rightarrow> nat \<Rightarrow> TlsObjectPool \<Rightarrow> TlsObjectPool option" where
  "recycle_object P obj p =
    (let c = address P obj in
     case chunks p c of
       None \<Rightarrow> None
     | Some ch \<Rightarrow>
         if tid ch \<noteq> thread_id p then None
         else if chunk_free_num ch + 1 = used_num ch then Some (p\<lparr> chunks := (chunks p)(c := None) \<rparr>)
         else Some (p\<lparr> chunks := (chunks p)(c \<mapsto> ch\<lparr> chunk_free_num := chunk_free_num ch + 1 \<rparr>) \<rparr>))"

definition get_local_object ::
  "pool_params \<Rightarrow> nat option \<Rightarrow> TlsObjectPool \<Rightarrow> ((nat \<times> bool) option \<times> TlsObjectPool) option" where
  "get_local_object P mem p = (if shutdown p then Some (None, p) else get_or_new_object P mem p)"

definition return_local_object :: "pool_params \<Rightarrow> nat option \<Rightarrow> TlsObjectPool \<Rightarrow> TlsObjectPool option" where
  "return_local_object P obj p =
    (case obj of
       None \<Rightarrow> Some p
     | Some a \<Rightarrow> if \<not> shutdown p then return_or_free_object P a p else recycle_object P a p)"

text \<open>The destructor of the pool at thread exit.\<close>

fun release_cached :: "pool_params \<Rightarrow> nat list \<Rightarrow> (nat \<rightharpoonup> LocalChunk) \<Rightarrow> (nat \<rightharpoonup> LocalChunk) option" where
  "release_cached P [] m = Some m"
| "release_cached P (obj # objs) m =
    (let c = address P obj in
     case m c of
       None \<Rightarrow> None
     | Some ch \<Rightarrow>
         if chunk_free_num ch + 1 = used_num ch then release_cached P objs (m(c := None))
         else release_cached P objs (m(c \<mapsto> ch\<lparr> chunk_free_num := chunk_free_num ch + 1 \<rparr>)))"

fun release_chunks :: "nat list \<Rightarrow> (nat \<rightharpoonup> LocalChunk) \<Rightarrow> (nat \<rightharpoonup> LocalChunk) option" where
  "release_chunks [] m = Some m"
| "release_chunks (c # cs) m = (case m c of None \<Rightarrow> None | Some _ \<Rightarrow> release_chunks cs (m(c := None)))"

definition TlsObjectPool_destroy :: "pool_params \<Rightarrow> TlsObjectPool \<Rightarrow> TlsObjectPool option" where
  "TlsObjectPool_destroy P p =
    (let first = (case current_chunk p of
                    None \<Rightarrow> Some (chunks p)
                  | Some c \<Rightarrow>
                      (case chunks p c of
                         None \<Rightarrow> None
                       | Some ch \<Rightarrow>
                           Some (if chunk_free_num ch = used_num ch then (chunks p)(c := None) else chunks p)))
     in case first of
          None \<Rightarrow> None
        | Some m1 \<Rightarrow>
            (case release_cached P (free_obj p) m1 of
               None \<Rightarrow> None
             | Some m2 \<Rightarrow>
                 (case release_chunks (full_free_chunks p) m2 of
                    None \<Rightarrow> None
                  | Some m3 \<Rightarrow> Some (p\<lparr> chunks := m3, shutdown := True, current_chunk := None,
                                        free_obj := [], full_free_chunks := [] \<rparr>))))"

section \<open>The interface of the pool\<close>

text \<open>\<open>holds_live p L\<close>: in state \<open>p\<close> exactly the objects in \<open>L\<close> are in the hands of users.\<close>

locale object_store =
  fixes get :: "'m \<Rightarrow> 'p \<Rightarrow> ((nat \<times> bool) option \<times> 'p) option"
    and put :: "nat \<Rightarrow> 'p \<Rightarrow> 'p option"
    and ready :: "'m \<Rightarrow> 'p \<Rightarrow> bool"
    and holds_live :: "'p \<Rightarrow> nat set \<Rightarrow> bool"
  assumes get_returns: "holds_live p L \<Longrightarrow> ready m p \<Longrightarrow> \<exists>r p'. get m p = Some (r, p')"
    and get_object: "holds_live p L \<Longrightarrow> ready m p \<Longrightarrow> get m p = Some (Some (a, fresh), p') \<Longrightarrow>
          a \<notin> L \<and> holds_live p' (insert a L)"
    and get_null: "holds_live p L \<Longrightarrow> ready m p \<Longrightarrow> get m p = Some (None, p') \<Longrightarrow> holds_live p' L"
    and put_object: "holds_live p L \<Longrightarrow> a \<in> L \<Longrightarrow> \<exists>p'. put a p = Some p' \<and> holds_live p' (L - {a})"
begin

lemma get_put:
  assumes "holds_live p L" "ready m p" "get m p = Some (Some (a, fresh), p')"
  shows "\<exists>p''. put a p' = Some p'' \<and> holds_live p'' L"
proof -
  have "a \<notin> L" "holds_live p' (insert a L)"
    using get_object [OF assms] by auto
  then show ?thesis
    using put_object [of p' "insert a L" a] by auto
qed

end

section \<open>Geometry\<close>

declare highest_bit.simps [simp del]

definition params_ok :: "pool_params \<Rightarrow> bool" where
  "params_ok P \<longleftrightarrow> 0 < obj_size P \<and> 0 < object_num P
     \<and> LOCAL_CHUNK_SIZE + object_num P * obj_size P \<le> chunk_size P"

lemma params_ok_chunk_size: "params_ok P \<Longrightarrow> 0 < chunk_size P"
  by (auto simp: params_ok_def LOCAL_CHUNK_SIZE_def)

lemma chunk_class_table:
  "list_all (\<lambda>n. let k = if n = 0 then 0 else highest_bit (n * 2)
                in k < length k_size_class \<and> (n + 1) * 2048 \<le> k_size_class ! k) [0..<16]"
  by (simp add: upt_rec highest_bit.simps k_size_class_def)

lemma chunk_class_fits:
  assumes "0 < t" "t \<le> 32768"
  shows "(if (t - 1) div 2048 = 0 then 0 else highest_bit ((t - 1) div 2048 * 2)) < length k_size_class"
    and "t \<le> k_size_class ! (if (t - 1) div 2048 = 0 then 0 else highest_bit ((t - 1) div 2048 * 2))"
proof -
  define n where "n = (t - 1) div 2048"
  have n: "n \<in> set [0..<16]" "t \<le> (n + 1) * 2048"
    using assms by (auto simp: n_def)
  then show "(if n = 0 then 0 else highest_bit (n * 2)) < length k_size_class"
    and "t \<le> k_size_class ! (if n = 0 then 0 else highest_bit (n * 2))"
    using chunk_class_table unfolding list_all_iff Let_def by (blast intro: le_trans)+
qed

lemma CalObjectNumInChunk_bounds:
  assumes "8 \<le> sz" "sz \<le> 32752"
  shows "0 < CalObjectNumInChunk sz" "CalObjectNumInChunk sz * sz \<le> 32768"
    and "CalObjectNumInChunk sz = 1 \<Longrightarrow> 16384 < sz" "CalObjectNumInChunk sz \<noteq> 1 \<Longrightarrow> sz + 16 \<le> CalObjectNumInChunk sz * sz"
proof -
  have d: "32768 div sz * sz \<le> 32768" "0 < 32768 div sz"
    using assms by (simp_all add: div_greater_zero_iff)
  show pos: "0 < CalObjectNumInChunk sz"
    using d by (simp add: CalObjectNumInChunk_def MAX_CHUNK_SIZE_def Let_def)
  have "256 * sz \<le> 32768" if "32768 div sz > 256"
    using that d(1) mult_le_mono1 [of 256 "32768 div sz" sz] by linarith
  then show "CalObjectNumInChunk sz * sz \<le> 32768"
    using d(1) by (simp add: CalObjectNumInChunk_def MAX_CHUNK_SIZE_def Let_def)
  show "16384 < sz" if "CalObjectNumInChunk sz = 1"
  proof (rule ccontr)
    assume "\<not> 16384 < sz"
    then have "2 \<le> 32768 div sz"
      using assms(1) by (simp add: less_eq_div_iff_mult_less_eq)
    then show False
      using that by (auto simp: CalObjectNumInChunk_def MAX_CHUNK_SIZE_def Let_def split: if_splits)
  qed
  show "sz + 16 \<le> CalObjectNumInChunk sz * sz" if "CalObjectNumInChunk sz \<noteq> 1"
  proof (cases "sz < 16")
    case True
    then have "256 < 32768 div sz"
      using assms(1) less_eq_div_iff_mult_less_eq [of sz 257 32768] by simp
    then show ?thesis
      using assms(1) True by (simp add: CalObjectNumInChunk_def MAX_CHUNK_SIZE_def Let_def)
  next
    case False
    have "2 * sz \<le> CalObjectNumInChunk sz * sz"
      using pos that by (intro mult_le_mono1) simp
    then show ?thesis
      using False by linarith
  qed
qed

lemma pool_params_for_ok:
  assumes "8 \<le> sz" "sz \<le> 32752"
  shows "\<exists>P. pool_params_for sz cache = Some P \<and> params_ok P \<and> obj_size P = sz \<and> cache_max P = cache"
proof -
  let ?t = "CalObjectNumInChunk sz * sz"
  note b = CalObjectNumInChunk_bounds [OF assms]
  have t: "0 < ?t" "?t \<le> 32768" using b assms by auto
  note cc = chunk_class_fits [OF t]
  define cs where "cs = k_size_class ! chunk_class sz"
  have lt: "chunk_class sz < length k_size_class" and le: "?t \<le> cs"
    using cc unfolding cs_def chunk_class_def Let_def by blast+
  have "cs \<in> set k_size_class"
    unfolding cs_def using lt by (rule nth_mem)
  then have "cs = 32768 \<or> cs \<le> 16384"
    by (auto simp: k_size_class_def)
  then have room: "sz + 16 \<le> cs"
    using b(3,4) le assms by (cases "CalObjectNumInChunk sz = 1") auto
  then have "0 < (cs - 16) div sz"
    using assms by (simp add: div_greater_zero_iff)
  moreover have "16 + (cs - 16) div sz * sz \<le> cs"
    using room div_times_less_eq_dividend [of "cs - 16" sz] by linarith
  ultimately show ?thesis
    using lt assms
    by (simp add: pool_params_for_def Let_def cs_def [symmetric] params_ok_def LOCAL_CHUNK_SIZE_def MAX_CHUNK_SIZE_def)
qed

lemma object_inside:
  assumes "params_ok P" "i < object_num P"
  shows "c + LOCAL_CHUNK_SIZE \<le> object_at P c i" "object_at P c i + obj_size P \<le> c + chunk_size P"
proof -
  have "(i + 1) * obj_size P \<le> object_num P * obj_size P"
    using assms(2) by (intro mult_le_mono1) simp
  then show "object_at P c i + obj_size P \<le> c + chunk_size P"
    using assms(1) by (simp add: object_at_def params_ok_def)
qed (simp add: object_at_def)

lemma address_object_at:
  assumes "params_ok P" "i < object_num P" "c mod chunk_size P = 0"
  shows "address P (object_at P c i) = c"
proof -
  have "object_at P c i < c + chunk_size P" "c \<le> object_at P c i"
    using object_inside [OF assms(1,2), of c] assms(1) by (auto simp: params_ok_def)
  then have "object_at P c i div chunk_size P = c div chunk_size P"
    using assms(3) by (intro div_nat_eqI) (auto simp: mult.commute)
  then show ?thesis
    using assms(3) by (simp add: address_def mod_0_imp_dvd)
qed

lemma object_at_inj: "params_ok P \<Longrightarrow> object_at P c i = object_at P c j \<longleftrightarrow> i = j"
  by (auto simp: object_at_def params_ok_def)

section \<open>The invariant\<close>

definition in_use :: "TlsObjectPool \<Rightarrow> nat set \<Rightarrow> nat set" where
  "in_use p L = L \<union> set (free_obj p)"

definition chunk_inv :: "pool_params \<Rightarrow> TlsObjectPool \<Rightarrow> nat set \<Rightarrow> nat \<Rightarrow> LocalChunk \<Rightarrow> bool" where
  "chunk_inv P p U c ch \<longleftrightarrow> c mod chunk_size P = 0 \<and> used_num ch \<le> object_num P
     \<and> chunk_free_num ch + card {a \<in> U. address P a = c} = used_num ch
     \<and> chunk_free_num ch < object_num P \<and> tid ch = thread_id p"

definition pool_inv :: "pool_params \<Rightarrow> TlsObjectPool \<Rightarrow> nat set \<Rightarrow> bool" where
  "pool_inv P p L \<longleftrightarrow> finite L \<and> distinct (free_obj p) \<and> set (free_obj p) \<inter> L = {}
     \<and> (\<forall>c ch. chunks p c = Some ch \<longrightarrow> chunk_inv P p (in_use p L) c ch)
     \<and> (\<forall>a \<in> in_use p L. \<exists>c ch i. chunks p c = Some ch \<and> i < used_num ch \<and> a = object_at P c i)
     \<and> (\<forall>c. current_chunk p = Some c \<longrightarrow> c \<in> dom (chunks p) \<and> c \<notin> set (full_free_chunks p))
     \<and> distinct (full_free_chunks p)
     \<and> (\<forall>c \<in> set (full_free_chunks p). \<exists>ch. chunks p c = Some ch \<and> used_num ch = 0)
     \<and> (\<forall>c ch. chunks p c = Some ch \<and> current_chunk p \<noteq> Some c \<and> c \<notin> set (full_free_chunks p)
           \<longrightarrow> used_num ch = object_num P)"

definition mem_ready :: "pool_params \<Rightarrow> nat option \<Rightarrow> TlsObjectPool \<Rightarrow> bool" where
  "mem_ready P mem p \<longleftrightarrow> (\<forall>c. mem = Some c \<longrightarrow> c mod chunk_size P = 0 \<and> chunks p c = None)"

lemma pool_inv_init: "pool_inv P (TlsObjectPool_init t) {}"
  by (simp add: pool_inv_def TlsObjectPool_init_def in_use_def)

lemma pool_inv_object:
  assumes "pool_inv P p L" "a \<in> in_use p L"
  obtains c ch i where "chunks p c = Some ch" "i < used_num ch" "a = object_at P c i"
  using assms unfolding pool_inv_def by blast

lemma pool_inv_chunk: "pool_inv P p L \<Longrightarrow> chunks p c = Some ch \<Longrightarrow> chunk_inv P p (in_use p L) c ch"
  by (simp add: pool_inv_def)

lemma pool_inv_address:
  assumes "params_ok P" "pool_inv P p L" "a \<in> in_use p L"
  obtains ch i where "chunks p (address P a) = Some ch" "i < used_num ch" "a = object_at P (address P a) i"
proof -
  obtain c ch i where c: "chunks p c = Some ch" "i < used_num ch" "a = object_at P c i"
    using assms(2,3) by (rule pool_inv_object)
  then have "chunk_inv P p (in_use p L) c ch"
    using assms(2) by (simp add: pool_inv_chunk)
  then have "address P a = c"
    using assms(1) c by (auto simp: chunk_inv_def intro!: address_object_at)
  then show thesis
    using c by (intro that [of ch i]) simp_all
qed

lemma construct_from_inv:
  assumes ok: "params_ok P" and inv: "pool_inv P p L" and c: "chunks p c = Some ch"
    and room: "used_num ch < object_num P" and cur: "current_chunk p = Some c"
    and res: "construct_from P c p = Some (r, p')"
  shows "\<exists>a. r = Some (a, True) \<and> a \<notin> in_use p L \<and> pool_inv P p' (insert a L)"
proof -
  let ?a = "object_at P c (used_num ch)" and ?U = "in_use p L"
  have p': "p' = p\<lparr> chunks := (chunks p)(c \<mapsto> ch\<lparr> used_num := used_num ch + 1 \<rparr>) \<rparr>" and r: "r = Some (?a, True)"
    using res c by (auto simp: construct_from_def alloc_object_def)
  have ci: "chunk_inv P p ?U c ch"
    using inv c by (rule pool_inv_chunk)
  have aa: "address P ?a = c"
    using ok room ci by (intro address_object_at) (auto simp: chunk_inv_def)
  have fresh: "?a \<notin> ?U"
  proof
    assume "?a \<in> ?U"
    then obtain ch' i where "chunks p c = Some ch'" "i < used_num ch'" "?a = object_at P c i"
      using pool_inv_address [OF ok inv] aa by metis
    then show False
      using c by (simp add: object_at_inj [OF ok])
  qed
  have U': "in_use p' (insert ?a L) = insert ?a ?U"
    by (simp add: in_use_def p')
  have fin: "finite ?U"
    using inv by (simp add: pool_inv_def in_use_def)
  have count: "card {a \<in> insert ?a ?U. address P a = d} = card {a \<in> ?U. address P a = d} + (if d = c then 1 else 0)" for d
  proof (cases "d = c")
    case True
    then have "{a \<in> insert ?a ?U. address P a = d} = insert ?a {a \<in> ?U. address P a = d}"
      using aa by auto
    then show ?thesis
      using fin fresh True by simp
  next
    case False
    then have "{a \<in> insert ?a ?U. address P a = d} = {a \<in> ?U. address P a = d}"
      using aa by auto
    then show ?thesis
      using False by simp
  qed
  have "chunk_inv P p' (insert ?a ?U) d dh" if "chunks p' d = Some dh" for d dh
    using that inv ci room unfolding chunk_inv_def count pool_inv_def
    by (auto simp: p' split: if_splits)
  moreover have "\<exists>d dh i. chunks p' d = Some dh \<and> i < used_num dh \<and> b = object_at P d i" if "b \<in> insert ?a ?U" for b
  proof (cases "b = ?a")
    case True
    then show ?thesis by (intro exI [of _ c]) (auto simp: p')
  next
    case False
    with that have "b \<in> ?U" by simp
    then obtain d dh i where "chunks p d = Some dh" "i < used_num dh" "b = object_at P d i"
      by (rule pool_inv_object [OF inv])
    then show ?thesis
      using c by (intro exI [of _ d] exI [of _ "if d = c then ch\<lparr> used_num := used_num ch + 1 \<rparr> else dh"] exI [of _ i])
        (auto simp: p')
  qed
  moreover have "?a \<notin> set (free_obj p)"
    using fresh by (simp add: in_use_def)
  ultimately have "pool_inv P p' (insert ?a L)"
    using inv cur unfolding pool_inv_def U' by (auto simp: p')
  then show ?thesis
    using r fresh by blast
qed

lemma mem_chunk_inv:
  assumes ok: "params_ok P" and inv: "pool_inv P p L" and new: "c mod chunk_size P = 0" "chunks p c = None"
    and full: "\<And>d dh. current_chunk p = Some d \<Longrightarrow> chunks p d = Some dh \<Longrightarrow> used_num dh = object_num P"
    and none: "full_free_chunks p = []"
  shows "pool_inv P (p\<lparr> chunks := (chunks p)(c \<mapsto> \<lparr> used_num = 0, chunk_free_num = 0, tid = thread_id p \<rparr>),
           current_chunk := Some c \<rparr>) L" (is "pool_inv P ?p L")
proof -
  have U: "in_use ?p L = in_use p L"
    by (simp add: in_use_def)
  have "address P a \<noteq> c" if a: "a \<in> in_use p L" for a
    using new(2) by (rule_tac pool_inv_address [OF ok inv a]) auto
  then have "{a \<in> in_use p L. address P a = c} = {}"
    by simp
  then have zero: "card {a \<in> in_use p L. address P a = c} = 0"
    by (simp only: card.empty)
  have "chunk_inv P ?p (in_use p L) d dh" if "chunks ?p d = Some dh" for d dh
  proof (cases "d = c")
    case True
    then show ?thesis
      using that new(1) zero ok by (auto simp: chunk_inv_def params_ok_def)
  next
    case False
    then show ?thesis
      using that inv by (auto simp: pool_inv_def chunk_inv_def)
  qed
  moreover have "\<exists>d dh i. chunks ?p d = Some dh \<and> i < used_num dh \<and> b = object_at P d i" if b: "b \<in> in_use p L" for b
  proof -
    obtain d dh i where d: "chunks p d = Some dh" "i < used_num dh" "b = object_at P d i"
      by (rule pool_inv_object [OF inv b])
    have "d \<noteq> c" using new(2) d(1) by auto
    then show ?thesis using d by (intro exI [of _ d] exI [of _ dh] exI [of _ i]) simp
  qed
  moreover have "used_num dh = object_num P" if "chunks ?p d = Some dh" "d \<noteq> c" for d dh
    using that full [of d dh] inv none by (cases "current_chunk p = Some d") (auto simp: pool_inv_def)
  ultimately show ?thesis
    using inv none unfolding pool_inv_def U by (auto split: if_splits)
qed

lemma reuse_chunk_inv:
  assumes inv: "pool_inv P p L" and ne: "full_free_chunks p \<noteq> []"
    and full: "\<And>d dh. current_chunk p = Some d \<Longrightarrow> chunks p d = Some dh \<Longrightarrow> used_num dh = object_num P"
  shows "pool_inv P (p\<lparr> current_chunk := Some (last (full_free_chunks p)),
           full_free_chunks := butlast (full_free_chunks p) \<rparr>) L" (is "pool_inv P ?p L")
proof -
  obtain cs c where cs: "full_free_chunks p = cs @ [c]"
    using ne by (cases "full_free_chunks p" rule: rev_cases) auto
  have U: "in_use ?p L = in_use p L"
    by (simp add: in_use_def)
  have "used_num dh = object_num P" if "chunks p d = Some dh" "d \<noteq> c" "d \<notin> set cs" for d dh
    using that full [of d dh] inv cs by (cases "current_chunk p = Some d") (auto simp: pool_inv_def)
  moreover have "chunk_inv P ?p (in_use p L) d dh = chunk_inv P p (in_use p L) d dh" for d dh
    by (simp add: chunk_inv_def)
  ultimately show ?thesis
    using inv cs unfolding pool_inv_def U by auto
qed

lemma cached_object_inv:
  assumes inv: "pool_inv P p L" and ne: "free_obj p \<noteq> []"
  shows "last (free_obj p) \<notin> L
       \<and> pool_inv P (p\<lparr> free_obj := butlast (free_obj p) \<rparr>) (insert (last (free_obj p)) L)"
proof -
  obtain xs x where xs: "free_obj p = xs @ [x]"
    using ne by (cases "free_obj p" rule: rev_cases) auto
  have U: "in_use (p\<lparr> free_obj := xs \<rparr>) (insert x L) = in_use p L"
    using xs by (auto simp: in_use_def)
  have "chunk_inv P (p\<lparr> free_obj := xs \<rparr>) V d dh = chunk_inv P p V d dh" for d dh V
    by (simp add: chunk_inv_def)
  then show ?thesis
    using inv xs unfolding pool_inv_def by (auto simp: U)
qed

definition got :: "pool_params \<Rightarrow> TlsObjectPool \<Rightarrow> nat set \<Rightarrow> ((nat \<times> bool) option \<times> TlsObjectPool) option \<Rightarrow> bool" where
  "got P p L res \<longleftrightarrow> (\<exists>r p'. res = Some (r, p') \<and> thread_id p' = thread_id p \<and> shutdown p' = shutdown p
     \<and> (case r of None \<Rightarrow> p' = p | Some (a, new) \<Rightarrow> a \<notin> L \<and> pool_inv P p' (insert a L)))"

lemma construct_from_got:
  assumes ok: "params_ok P" and q: "pool_inv P q L" "current_chunk q = Some c" "chunks q c = Some ch"
    "used_num ch < object_num P" "thread_id q = thread_id p" "shutdown q = shutdown p"
  shows "got P p L (construct_from P c q)"
proof -
  obtain r p' where r: "construct_from P c q = Some (r, p')" "thread_id p' = thread_id p" "shutdown p' = shutdown p"
    using q by (auto simp: construct_from_def alloc_object_def)
  then show ?thesis
    using construct_from_inv [OF ok q(1,3,4,2) r(1)] by (auto simp: got_def in_use_def)
qed

lemma get_or_new_object_got:
  assumes ok: "params_ok P" and inv: "pool_inv P p L" and mem: "mem_ready P mem p"
  shows "got P p L (get_or_new_object P mem p)"
proof (cases "free_obj p = []")
  case False
  then show ?thesis
    using cached_object_inv [OF inv] by (simp add: get_or_new_object_def got_def)
next
  case empty: True
  note build = construct_from_got [OF ok]
  show ?thesis
  proof (cases "\<exists>c ch. current_chunk p = Some c \<and> chunks p c = Some ch \<and> used_num ch < object_num P")
    case True
    then show ?thesis
      using empty build [OF inv] by (auto simp: get_or_new_object_def)
  next
    case False
    have full: "used_num dh = object_num P" if "current_chunk p = Some d" "chunks p d = Some dh" for d dh
      using False that inv by (force simp: pool_inv_def chunk_inv_def)
    have room: "(case current_chunk p of None \<Rightarrow> Some None
         | Some c \<Rightarrow> (case chunks p c of None \<Rightarrow> None
             | Some ch \<Rightarrow> Some (if used_num ch < object_num P then Some c else None))) = Some None"
      using inv full by (auto simp: pool_inv_def split: option.split)
    consider (ff) "full_free_chunks p \<noteq> []" | (fail) "full_free_chunks p = []" "mem = None"
      | (new) c where "full_free_chunks p = []" "mem = Some c" by (cases mem) auto
    then show ?thesis
    proof cases
      case ff
      let ?c = "last (full_free_chunks p)"
      obtain ch where "chunks p ?c = Some ch" "used_num ch = 0"
        using inv last_in_set [OF ff] unfolding pool_inv_def by blast
      then show ?thesis
        using ff empty room ok build [OF reuse_chunk_inv [OF inv ff full]]
        by (simp add: get_or_new_object_def params_ok_def Let_def)
    next
      case fail
      then show ?thesis
        using empty room by (simp add: get_or_new_object_def got_def)
    next
      case new
      then show ?thesis
        using empty room ok mem build [OF mem_chunk_inv [OF ok inv _ _ full new(1)]]
        by (simp add: get_or_new_object_def params_ok_def mem_ready_def)
    qed
  qed
qed

lemma card_address_remove:
  assumes "finite U" "a \<in> U"
  shows "card {x \<in> U - {a}. address P x = d} + (if d = address P a then 1 else 0) = card {x \<in> U. address P x = d}"
proof (cases "d = address P a")
  case True
  then have "{x \<in> U. address P x = d} = insert a {x \<in> U - {a}. address P x = d}"
    using assms(2) by auto
  then show ?thesis
    using True assms(1) by simp
next
  case False
  then have "{x \<in> U. address P x = d} = {x \<in> U - {a}. address P x = d}"
    by auto
  then show ?thesis
    using False by simp
qed

text \<open>A state change that touches only the chunk of a returned object keeps the invariant when the
  chunk's own part of it holds afterwards.\<close>

lemma pool_inv_replace_chunk:
  assumes ok: "params_ok P" and inv: "pool_inv P p L" and a: "a \<in> L" and c: "c = address P a"
    and other: "\<And>d. d \<noteq> c \<Longrightarrow> chunks p' d = chunks p d"
    and same: "free_obj p' = free_obj p" "current_chunk p' = current_chunk p" "thread_id p' = thread_id p"
    and local: "\<And>ch. chunks p' c = Some ch \<Longrightarrow> chunk_inv P p' (in_use p L - {a}) c ch"
    and objs: "\<And>b i ch. b \<in> in_use p L - {a} \<Longrightarrow> address P b = c \<Longrightarrow> chunks p c = Some ch \<Longrightarrow> i < used_num ch \<Longrightarrow>
            \<exists>ch'. chunks p' c = Some ch' \<and> i < used_num ch'"
    and lists: "\<And>d. current_chunk p = Some d \<Longrightarrow> d \<in> dom (chunks p') \<and> d \<notin> set (full_free_chunks p')"
      "distinct (full_free_chunks p')"
      "\<And>d. d \<in> set (full_free_chunks p') \<Longrightarrow> \<exists>ch. chunks p' d = Some ch \<and> used_num ch = 0"
      "\<And>d ch. chunks p' d = Some ch \<Longrightarrow> current_chunk p \<noteq> Some d \<Longrightarrow> d \<notin> set (full_free_chunks p') \<Longrightarrow>
         used_num ch = object_num P"
  shows "pool_inv P p' (L - {a})"
proof -
  let ?U = "in_use p L"
  have U: "in_use p' (L - {a}) = ?U - {a}"
    using inv a same(1) by (auto simp: in_use_def pool_inv_def)
  have fin: "finite ?U" "a \<in> ?U"
    using inv a by (simp_all add: pool_inv_def in_use_def)
  have "chunk_inv P p' (?U - {a}) d dh" if d: "chunks p' d = Some dh" for d dh
  proof (cases "d = c")
    case True
    then show ?thesis using local d by simp
  next
    case False
    then have "chunk_inv P p ?U d dh"
      using pool_inv_chunk [OF inv] other d by simp
    then show ?thesis
      using card_address_remove [OF fin, of P d] False c same(3) by (simp add: chunk_inv_def)
  qed
  moreover have "\<exists>d dh i. chunks p' d = Some dh \<and> i < used_num dh \<and> b = object_at P d i" if b: "b \<in> ?U - {a}" for b
  proof -
    obtain dh i where d: "chunks p (address P b) = Some dh" "i < used_num dh" "b = object_at P (address P b) i"
      using b by (auto intro: pool_inv_address [OF ok inv])
    show ?thesis
    proof (cases "address P b = c")
      case True
      then show ?thesis using objs [OF b True] d by metis
    next
      case False
      then show ?thesis using other d by metis
    qed
  qed
  ultimately show ?thesis
    using inv lists unfolding pool_inv_def U same by auto
qed

lemma reset_chunk_inv:
  assumes ok: "params_ok P" and inv: "pool_inv P p L" and a: "a \<in> L" and c: "c = address P a"
    and ch: "chunks p c = Some ch" and last: "chunk_free_num ch + 1 = object_num P"
    and p0: "p0 = p\<lparr> chunks := (chunks p)(c \<mapsto> ch\<lparr> chunk_free_num := 0, used_num := 0 \<rparr>) \<rparr>"
  shows "current_chunk p = Some c \<Longrightarrow> pool_inv P p0 (L - {a})"
    and "current_chunk p \<noteq> Some c \<Longrightarrow> pool_inv P (p0\<lparr> full_free_chunks := full_free_chunks p @ [c] \<rparr>) (L - {a})"
    and "current_chunk p \<noteq> Some c \<Longrightarrow> pool_inv P (p0\<lparr> chunks := (chunks p)(c := None) \<rparr>) (L - {a})"
proof -
  let ?U = "in_use p L"
  have U: "a \<in> ?U" "finite ?U"
    using inv a by (simp_all add: in_use_def pool_inv_def)
  have ci: "chunk_inv P p ?U c ch"
    using inv ch by (rule pool_inv_chunk)
  have zero: "card {x \<in> ?U - {a}. address P x = c} = 0"
    using card_address_remove [OF U(2,1), of P c] ci last c by (simp add: chunk_inv_def)
  then have gone: "address P b \<noteq> c" if "b \<in> ?U - {a}" for b
    using that U(2) by auto
  have used: "used_num ch = object_num P"
    using card_address_remove [OF U(2,1), of P c] ci last c zero by (simp add: chunk_inv_def)
  then have nf: "c \<notin> set (full_free_chunks p)"
    using inv ch ok by (auto simp: pool_inv_def params_ok_def)
  have fresh: "chunk_inv P q (?U - {a}) c (ch\<lparr> chunk_free_num := 0, used_num := 0 \<rparr>)"
    if "thread_id q = thread_id p" for q
    using ci zero ok that unfolding chunk_inv_def by (simp add: params_ok_def)
  note lift = pool_inv_replace_chunk [OF ok inv a c]
  show "pool_inv P p0 (L - {a})" if "current_chunk p = Some c"
    using inv that nf fresh gone by (intro lift) (auto simp: p0 pool_inv_def split: if_splits)
  show "pool_inv P (p0\<lparr> full_free_chunks := full_free_chunks p @ [c] \<rparr>) (L - {a})" if "current_chunk p \<noteq> Some c"
    using inv that nf fresh gone by (intro lift) (auto simp: p0 pool_inv_def split: if_splits)
  show "pool_inv P (p0\<lparr> chunks := (chunks p)(c := None) \<rparr>) (L - {a})" if "current_chunk p \<noteq> Some c"
    using inv that nf gone by (intro lift) (auto simp: p0 pool_inv_def split: if_splits)
qed

lemma return_or_free_object_inv:
  assumes ok: "params_ok P" and inv: "pool_inv P p L" and a: "a \<in> L"
  shows "\<exists>p'. return_or_free_object P a p = Some p' \<and> thread_id p' = thread_id p \<and> shutdown p' = shutdown p
           \<and> pool_inv P p' (L - {a})"
proof -
  let ?c = "address P a" and ?U = "in_use p L"
  have U: "a \<in> ?U" "finite ?U"
    using inv a by (simp_all add: in_use_def pool_inv_def)
  obtain ch where ch: "chunks p ?c = Some ch"
    by (rule pool_inv_address [OF ok inv U(1)])
  have ci: "chunk_inv P p ?U ?c ch"
    using inv ch by (rule pool_inv_chunk)
  note cnt = card_address_remove [OF U(2,1), of P ?c]
  note lift = pool_inv_replace_chunk [OF ok inv a refl]
  consider (cache) "length (free_obj p) < cache_max P"
    | (last) "\<not> length (free_obj p) < cache_max P" "chunk_free_num ch + 1 = object_num P"
    | (count) "\<not> length (free_obj p) < cache_max P" "chunk_free_num ch + 1 \<noteq> object_num P"
    by blast
  then show ?thesis
  proof cases
    case cache
    let ?p = "p\<lparr> free_obj := free_obj p @ [a] \<rparr>"
    have "in_use ?p (L - {a}) = ?U" and "chunk_inv P ?p V d dh = chunk_inv P p V d dh" for V d dh
      using a by (auto simp: in_use_def chunk_inv_def)
    then have "pool_inv P ?p (L - {a})"
      using inv a unfolding pool_inv_def by auto
    then show ?thesis
      using cache ch ci by (simp add: return_or_free_object_def Let_def chunk_inv_def)
  next
    case last
    then show ?thesis
      using ch ci reset_chunk_inv [OF ok inv a refl ch last(2) refl]
      by (simp add: return_or_free_object_def Let_def chunk_inv_def)
  next
    case count
    let ?p = "p\<lparr> chunks := (chunks p)(?c \<mapsto> ch\<lparr> chunk_free_num := chunk_free_num ch + 1 \<rparr>) \<rparr>"
    have "chunk_inv P ?p (?U - {a}) ?c (ch\<lparr> chunk_free_num := chunk_free_num ch + 1 \<rparr>)"
      using ci cnt count by (simp add: chunk_inv_def)
    then have "pool_inv P ?p (L - {a})"
      using inv ch by (intro lift) (auto simp: pool_inv_def split: if_splits)
    then show ?thesis
      using count ch ci by (simp add: return_or_free_object_def Let_def chunk_inv_def)
  qed
qed

definition pool_live :: "pool_params \<Rightarrow> TlsObjectPool \<Rightarrow> nat set \<Rightarrow> bool" where
  "pool_live P p L \<longleftrightarrow> params_ok P \<and> pool_inv P p L \<and> \<not> shutdown p"

lemma get_local_object_got:
  "pool_live P p L \<Longrightarrow> mem_ready P mem p \<Longrightarrow> got P p L (get_local_object P mem p)"
  by (simp add: pool_live_def get_local_object_def get_or_new_object_got)

interpretation pool: object_store "get_local_object P" "\<lambda>a. return_local_object P (Some a)" "mem_ready P" "pool_live P"
  for P
proof unfold_locales
  fix p L m
  assume h: "pool_live P p L" "mem_ready P m p"
  note g = get_local_object_got [OF h]
  show "\<exists>r p'. get_local_object P m p = Some (r, p')"
    using g by (auto simp: got_def)
  show "a \<notin> L \<and> pool_live P p' (insert a L)" if "get_local_object P m p = Some (Some (a, fresh), p')" for a fresh p'
    using g that h(1) by (auto simp: got_def pool_live_def)
  show "pool_live P p' L" if "get_local_object P m p = Some (None, p')" for p'
    using g that h(1) by (auto simp: got_def)
next
  fix p L a
  assume "pool_live P p L" "a \<in> L"
  then show "\<exists>p'. return_local_object P (Some a) p = Some p' \<and> pool_live P p' (L - {a})"
    using return_or_free_object_inv [of P p L a] by (auto simp: pool_live_def return_local_object_def)
qed

section \<open>Thread exit\<close>

text \<open>After the destructor only chunks with outstanding objects remain; \<open>F\<close> are the chunks of
  \<^verbatim>\<open>_full_free_chunks\<close> while they are still allocated.\<close>

definition drain_inv :: "pool_params \<Rightarrow> nat \<Rightarrow> (nat \<rightharpoonup> LocalChunk) \<Rightarrow> nat set \<Rightarrow> nat set \<Rightarrow> bool" where
  "drain_inv P t m U F \<longleftrightarrow> finite U \<and> F \<subseteq> dom m \<and> (\<forall>a \<in> U. address P a \<in> dom m - F)
     \<and> (\<forall>c ch. m c = Some ch \<and> c \<notin> F \<longrightarrow> tid ch = t \<and> chunk_free_num ch < used_num ch
          \<and> chunk_free_num ch + card {a \<in> U. address P a = c} = used_num ch)"

lemma drain_step:
  assumes inv: "drain_inv P t m U F" and a: "a \<in> U"
  shows "\<exists>ch. m (address P a) = Some ch \<and> tid ch = t
     \<and> (chunk_free_num ch + 1 = used_num ch \<longrightarrow> drain_inv P t (m(address P a := None)) (U - {a}) F)
     \<and> (chunk_free_num ch + 1 \<noteq> used_num ch \<longrightarrow>
          drain_inv P t (m(address P a \<mapsto> ch\<lparr> chunk_free_num := chunk_free_num ch + 1 \<rparr>)) (U - {a}) F)"
proof -
  let ?c = "address P a"
  obtain ch where ch: "m ?c = Some ch" "?c \<notin> F"
    using inv a by (auto simp: drain_inv_def)
  have fin: "finite U"
    using inv by (simp add: drain_inv_def)
  have acc: "tid ch = t" "chunk_free_num ch < used_num ch" "chunk_free_num ch + card {x \<in> U. address P x = ?c} = used_num ch"
    using inv ch by (auto simp: drain_inv_def)
  have cnt: "card {x \<in> U - {a}. address P x = d} = card {x \<in> U. address P x = d} - (if d = ?c then 1 else 0)" for d
    using card_address_remove [OF fin a, of P d] by auto
  have dealloc: "drain_inv P t (m(?c := None)) (U - {a}) F" if one: "chunk_free_num ch + 1 = used_num ch"
  proof -
    have "card {x \<in> U - {a}. address P x = ?c} = 0"
      using acc one cnt [of ?c] by simp
    then have "\<forall>b \<in> U - {a}. address P b \<noteq> ?c"
      using fin by auto
    then show ?thesis
      using inv ch unfolding drain_inv_def cnt by auto
  qed
  have "drain_inv P t (m(?c \<mapsto> ch\<lparr> chunk_free_num := chunk_free_num ch + 1 \<rparr>)) (U - {a}) F"
    if more: "chunk_free_num ch + 1 \<noteq> used_num ch"
  proof -
    have "Suc (chunk_free_num ch) < used_num ch"
      "Suc (chunk_free_num ch + (card {x \<in> U. address P x = ?c} - Suc 0)) = used_num ch"
      using acc more by simp_all
    then show ?thesis
      using inv ch unfolding drain_inv_def cnt by auto
  qed
  then show ?thesis
    using ch acc dealloc by blast
qed

lemma release_cached_drains:
  assumes "drain_inv P t m U F" "distinct objs" "set objs \<subseteq> U"
  shows "\<exists>m'. release_cached P objs m = Some m' \<and> drain_inv P t m' (U - set objs) F"
  using assms
proof (induction objs arbitrary: m U)
  case Nil
  then show ?case by simp
next
  case (Cons a objs)
  obtain ch where ch: "m (address P a) = Some ch"
    and one: "chunk_free_num ch + 1 = used_num ch \<longrightarrow> drain_inv P t (m(address P a := None)) (U - {a}) F"
    and more: "chunk_free_num ch + 1 \<noteq> used_num ch \<longrightarrow>
          drain_inv P t (m(address P a \<mapsto> ch\<lparr> chunk_free_num := chunk_free_num ch + 1 \<rparr>)) (U - {a}) F"
    using drain_step [OF Cons.prems(1), of a] Cons.prems(3) by auto
  have sub: "distinct objs" "set objs \<subseteq> U - {a}" and eq: "U - {a} - set objs = U - set (a # objs)"
    using Cons.prems by auto
  show ?case
    using ch one more Cons.IH [OF _ sub] unfolding eq by (auto simp: Let_def)
qed

lemma release_chunks_drains:
  assumes "drain_inv P t m U (set cs)" "distinct cs"
  shows "\<exists>m'. release_chunks cs m = Some m' \<and> drain_inv P t m' U {}"
  using assms
proof (induction cs arbitrary: m)
  case Nil
  then show ?case by simp
next
  case (Cons c cs)
  have "drain_inv P t (m(c := None)) U (set cs)"
    using Cons.prems by (auto simp: drain_inv_def)
  moreover obtain ch where "m c = Some ch"
    using Cons.prems by (auto simp: drain_inv_def)
  ultimately show ?case
    using Cons.IH Cons.prems(2) by simp
qed

lemma destroy_start:
  assumes ok: "params_ok P" and inv: "pool_inv P p L"
  shows "\<exists>m. (case current_chunk p of None \<Rightarrow> Some (chunks p)
              | Some c \<Rightarrow> (case chunks p c of None \<Rightarrow> None
                  | Some ch \<Rightarrow> Some (if chunk_free_num ch = used_num ch then (chunks p)(c := None) else chunks p)))
            = Some m \<and> drain_inv P (thread_id p) m (in_use p L) (set (full_free_chunks p))"
proof -
  let ?U = "in_use p L" and ?F = "set (full_free_chunks p)"
  have held: "address P a \<in> dom (chunks p) - ?F" "\<exists>ch. chunks p (address P a) = Some ch \<and> 0 < used_num ch"
    if a: "a \<in> ?U" for a
    using inv by (rule_tac pool_inv_address [OF ok inv a]; force simp: pool_inv_def)+
  have fin: "finite ?U" "?F \<subseteq> dom (chunks p)"
    using inv by (auto simp: pool_inv_def in_use_def)
  have busy: "tid ch = thread_id p \<and> chunk_free_num ch + card {a \<in> ?U. address P a = c} = used_num ch"
    "current_chunk p \<noteq> Some c \<and> c \<notin> ?F \<longrightarrow> chunk_free_num ch < used_num ch"
    if "chunks p c = Some ch" for c ch
    using pool_inv_chunk [OF inv that] inv that by (auto simp: chunk_inv_def pool_inv_def)
  have le: "chunk_free_num ch \<le> used_num ch" if "chunks p c = Some ch" for c ch
    using busy(1) [OF that] by linarith
  show ?thesis
  proof (cases "current_chunk p")
    case None
    then show ?thesis
      using held fin busy by (auto simp: drain_inv_def)
  next
    case (Some c)
    obtain ch where ch: "chunks p c = Some ch"
      using inv Some by (auto simp: pool_inv_def)
    have "{a \<in> ?U. address P a = c} = {}" if "chunk_free_num ch = used_num ch"
      using busy(1) [OF ch] that fin(1) by simp
    moreover have "c \<notin> ?F"
      using inv Some by (auto simp: pool_inv_def)
    moreover have "chunk_free_num dh < used_num dh"
      if "chunks p d = Some dh" "d \<notin> ?F" "chunk_free_num ch \<noteq> used_num ch" for d dh
      using that busy(2) [OF that(1)] Some ch le [OF ch] by (cases "d = c") auto
    ultimately show ?thesis
      using Some ch held fin busy by (auto simp: drain_inv_def)
  qed
qed

lemma TlsObjectPool_destroy_drains:
  assumes ok: "params_ok P" and inv: "pool_inv P p L"
  shows "\<exists>p'. TlsObjectPool_destroy P p = Some p' \<and> shutdown p' \<and> thread_id p' = thread_id p
     \<and> drain_inv P (thread_id p) (chunks p') L {}"
proof -
  have L: "in_use p L - set (free_obj p) = L" "set (free_obj p) \<subseteq> in_use p L" "distinct (free_obj p)"
    "distinct (full_free_chunks p)"
    using inv by (auto simp: in_use_def pool_inv_def)
  obtain m where m: "(case current_chunk p of None \<Rightarrow> Some (chunks p)
              | Some c \<Rightarrow> (case chunks p c of None \<Rightarrow> None
                  | Some ch \<Rightarrow> Some (if chunk_free_num ch = used_num ch then (chunks p)(c := None) else chunks p))) = Some m"
    "drain_inv P (thread_id p) m (in_use p L) (set (full_free_chunks p))"
    using destroy_start [OF ok inv] by blast
  obtain m2 where m2: "release_cached P (free_obj p) m = Some m2" "drain_inv P (thread_id p) m2 L (set (full_free_chunks p))"
    using release_cached_drains [OF m(2) L(3,2)] unfolding L(1) by blast
  obtain m3 where "release_chunks (full_free_chunks p) m2 = Some m3" "drain_inv P (thread_id p) m3 L {}"
    using release_chunks_drains [OF m2(2) L(4)] by blast
  then show ?thesis
    unfolding TlsObjectPool_destroy_def Let_def m(1) using m2(1) by simp
qed

fun return_all :: "pool_params \<Rightarrow> nat list \<Rightarrow> TlsObjectPool \<Rightarrow> TlsObjectPool option" where
  "return_all P [] p = Some p"
| "return_all P (a # as) p =
    (case return_local_object P (Some a) p of None \<Rightarrow> None | Some p' \<Rightarrow> return_all P as p')"

lemma return_all_drains:
  assumes "shutdown p" "drain_inv P (thread_id p) (chunks p) L {}" "distinct as" "set as = L"
  shows "\<exists>p'. return_all P as p = Some p' \<and> chunks p' = Map.empty"
  using assms
proof (induction as arbitrary: p L)
  case Nil
  have "chunks p c \<noteq> Some ch" for c ch
  proof
    assume "chunks p c = Some ch"
    then have "chunk_free_num ch < used_num ch \<and> chunk_free_num ch + card {a \<in> L. address P a = c} = used_num ch"
      using Nil.prems(2) unfolding drain_inv_def by blast
    then show False
      using Nil.prems(4) by auto
  qed
  then have "chunks p = Map.empty"
    by (intro ext) (meson not_None_eq)
  then show ?case by simp
next
  case (Cons a as)
  obtain ch where ch: "chunks p (address P a) = Some ch" "tid ch = thread_id p"
    and one: "chunk_free_num ch + 1 = used_num ch \<longrightarrow> drain_inv P (thread_id p) ((chunks p)(address P a := None)) (L - {a}) {}"
    and more: "chunk_free_num ch + 1 \<noteq> used_num ch \<longrightarrow> drain_inv P (thread_id p)
          ((chunks p)(address P a \<mapsto> ch\<lparr> chunk_free_num := chunk_free_num ch + 1 \<rparr>)) (L - {a}) {}"
    using drain_step [OF Cons.prems(2), of a] Cons.prems(4) by auto
  have as: "distinct as" "set as = L - {a}"
    using Cons.prems by auto
  have "\<exists>p'. return_all P as (p\<lparr> chunks := m \<rparr>) = Some p' \<and> chunks p' = Map.empty"
    if "drain_inv P (thread_id p) m (L - {a}) {}" for m
    using Cons.IH [of "p\<lparr> chunks := m \<rparr>", OF _ _ as] Cons.prems(1) that by simp
  then show ?case
    using ch one more Cons.prems(1) by (auto simp: return_local_object_def recycle_object_def Let_def)
qed

section \<open>What the pool guarantees\<close>

text \<open>The states a thread's pool goes through, with the objects its users hold.\<close>

inductive pool_reach :: "pool_params \<Rightarrow> nat \<Rightarrow> TlsObjectPool \<Rightarrow> nat set \<Rightarrow> bool" for P t where
  start: "pool_reach P t (TlsObjectPool_init t) {}"
| get: "pool_reach P t p L \<Longrightarrow> mem_ready P mem p \<Longrightarrow> get_local_object P mem p = Some (Some (a, new), p') \<Longrightarrow>
    pool_reach P t p' (insert a L)"
| get_fail: "pool_reach P t p L \<Longrightarrow> mem_ready P mem p \<Longrightarrow> get_local_object P mem p = Some (None, p') \<Longrightarrow>
    pool_reach P t p' L"
| return: "pool_reach P t p L \<Longrightarrow> a \<in> L \<Longrightarrow> return_local_object P (Some a) p = Some p' \<Longrightarrow>
    pool_reach P t p' (L - {a})"

lemma pool_reach_live: "pool_reach P t p L \<Longrightarrow> params_ok P \<Longrightarrow> pool_live P p L"
proof (induction rule: pool_reach.induct)
  case start
  then show ?case
    by (simp add: pool_live_def pool_inv_init) (simp add: TlsObjectPool_init_def)
next
  case (get p L mem a new p')
  then show ?case using pool.get_object by blast
next
  case (get_fail p L mem p')
  then show ?case using pool.get_null by blast
next
  case (return p L a p')
  then show ?case using pool.put_object [of P p L a] by auto
qed

lemma aligned_apart:
  fixes c d n :: nat
  assumes "c mod n = 0" "d mod n = 0" "c < d"
  shows "c + n \<le> d"
proof -
  obtain i j where "c = n * i" "d = n * j"
    using assms by (auto simp: mod_eq_0_iff_dvd elim!: dvdE)
  then show ?thesis
    using assms(3) mult_le_mono2 [of "i + 1" j n] by (auto simp: algebra_simps)
qed

lemma object_at_apart: "i < j \<Longrightarrow> object_at P c i + obj_size P \<le> object_at P c j"
  using mult_le_mono1 [of "i + 1" j "obj_size P"] by (simp add: object_at_def)

lemma live_objects_apart:
  assumes ok: "params_ok P" and inv: "pool_inv P p L" and ab: "a \<in> L" "b \<in> L" "a \<noteq> b"
  shows "{a..<a + obj_size P} \<inter> {b..<b + obj_size P} = {}"
proof -
  have in_pool: "a \<in> in_use p L" "b \<in> in_use p L"
    using ab by (auto simp: in_use_def)
  obtain ca i where a: "chunks p (address P a) = Some ca" "i < used_num ca" "a = object_at P (address P a) i"
    by (rule pool_inv_address [OF ok inv in_pool(1)])
  obtain cb j where b: "chunks p (address P b) = Some cb" "j < used_num cb" "b = object_at P (address P b) j"
    by (rule pool_inv_address [OF ok inv in_pool(2)])
  have ca: "chunk_inv P p (in_use p L) (address P a) ca" and cb: "chunk_inv P p (in_use p L) (address P b) cb"
    using a(1) b(1) by (auto intro: pool_inv_chunk [OF inv])
  have inside: "address P a \<le> a" "a + obj_size P \<le> address P a + chunk_size P"
    "address P b \<le> b" "b + obj_size P \<le> address P b + chunk_size P"
    using object_inside [OF ok, of i "address P a"] object_inside [OF ok, of j "address P b"] a b ca cb
    by (auto simp: chunk_inv_def)
  show ?thesis
  proof (cases "address P a = address P b")
    case True
    then have "i \<noteq> j" using a(3) b(3) ab(3) by metis
    then have "a + obj_size P \<le> b \<or> b + obj_size P \<le> a"
      using a(3) b(3) True object_at_apart [of _ _ P "address P a"] by (metis nat_neq_iff)
    then show ?thesis by auto
  next
    case False
    then have "address P a + chunk_size P \<le> address P b \<or> address P b + chunk_size P \<le> address P a"
      using aligned_apart [of _ "chunk_size P"] ca cb by (metis chunk_inv_def nat_neq_iff)
    then show ?thesis using inside by auto
  qed
qed

text \<open>C22: For every object size the pool accepts (8 to 32752 bytes) the constructor's size computation
  stays inside the table of chunk sizes, a chunk has room for its header and all its objects, at least one
  object fits, and the object count fits the 16-bit counters of the chunk header.\<close>

theorem pool_geometry:
  assumes "8 \<le> sz" "sz \<le> 32752"
  shows "\<exists>P. pool_params_for sz cache = Some P \<and> chunk_size P \<in> set k_size_class \<and> 0 < object_num P
     \<and> LOCAL_CHUNK_SIZE + object_num P * sz \<le> chunk_size P \<and> object_num P < 2 ^ 16"
proof -
  obtain P where P: "pool_params_for sz cache = Some P" "params_ok P" "obj_size P = sz"
    using pool_params_for_ok [OF assms] by blast
  have cs: "chunk_size P \<in> set k_size_class"
    using P(1) nth_mem [of "chunk_class sz" k_size_class] by (auto simp: pool_params_for_def Let_def split: if_splits)
  then have "chunk_size P \<le> 32768"
    by (auto simp: k_size_class_def)
  moreover have fit: "LOCAL_CHUNK_SIZE + object_num P * sz \<le> chunk_size P" "0 < object_num P"
    using P by (auto simp: params_ok_def)
  ultimately have "object_num P * 8 \<le> 32768"
    using mult_le_mono2 [OF assms(1), of "object_num P"] by linarith
  then show ?thesis
    using P(1) cs fit by auto
qed

theorem pool_geometry_witness:
  "\<exists>P. pool_params_for 64 8192 = Some P \<and> chunk_size P \<in> set k_size_class \<and> 0 < object_num P
     \<and> LOCAL_CHUNK_SIZE + object_num P * 64 \<le> chunk_size P \<and> object_num P < 2 ^ 16"
  using pool_geometry [of 64 8192] by simp

text \<open>C8: Whatever sequence of gets and returns a thread performs, the objects it holds never overlap, a
  further get never touches freed memory, and any object it holds can be returned: the chunk header found by
  masking the object's address is allocated and carries the thread's id.\<close>

theorem pool_objects_disjoint:
  assumes "params_ok P" "pool_reach P t p L" "mem_ready P mem p"
  shows "(\<forall>a \<in> L. \<forall>b \<in> L. a \<noteq> b \<longrightarrow> {a..<a + obj_size P} \<inter> {b..<b + obj_size P} = {})
     \<and> get_local_object P mem p \<noteq> None \<and> (\<forall>a \<in> L. return_local_object P (Some a) p \<noteq> None)"
proof -
  have live: "pool_live P p L"
    using assms pool_reach_live by blast
  then have "\<forall>a \<in> L. \<forall>b \<in> L. a \<noteq> b \<longrightarrow> {a..<a + obj_size P} \<inter> {b..<b + obj_size P} = {}"
    unfolding pool_live_def using live_objects_apart by blast
  then show ?thesis
    using pool.get_returns [OF live assms(3)] pool.put_object [OF live] by fastforce
qed

abbreviation pool64 :: pool_params where
  "pool64 \<equiv> \<lparr> obj_size = 64, chunk_size = 16384, object_num = 255, cache_max = 1 \<rparr>"

lemma pool64_two_objects:
  "\<exists>p. pool_reach pool64 7 p {16400, 16464} \<and> mem_ready pool64 (Some 32768) p \<and> pool_inv pool64 p {16400, 16464}"
proof -
  let ?s = "TlsObjectPool_init 7"
  let ?q = "\<lambda>n. ?s\<lparr> chunks := [16384 \<mapsto> \<lparr> used_num = n, chunk_free_num = 0, tid = 7 \<rparr>], current_chunk := Some 16384 \<rparr>"
  have s1: "get_local_object pool64 (Some 16384) ?s = Some (Some (16400, True), ?q 1)"
    by (simp add: get_local_object_def get_or_new_object_def construct_from_def alloc_object_def object_at_def
        LOCAL_CHUNK_SIZE_def TlsObjectPool_init_def)
  have s2: "get_local_object pool64 None (?q 1) = Some (Some (16464, True), ?q (Suc (Suc 0)))"
    by (simp add: get_local_object_def get_or_new_object_def construct_from_def alloc_object_def object_at_def
        LOCAL_CHUNK_SIZE_def TlsObjectPool_init_def)
  have r1: "pool_reach pool64 7 (?q 1) {16400}"
    using pool_reach.get [OF pool_reach.start _ s1] by (simp add: mem_ready_def TlsObjectPool_init_def)
  have "pool_reach pool64 7 (?q (Suc (Suc 0))) (insert 16464 {16400})"
    by (rule pool_reach.get [OF r1 _ s2]) (simp add: mem_ready_def)
  then have r2: "pool_reach pool64 7 (?q (Suc (Suc 0))) {16400, 16464}"
    by (simp add: insert_commute)
  then have "pool_inv pool64 (?q (Suc (Suc 0))) {16400, 16464}"
    using pool_reach_live by (force simp: pool_live_def params_ok_def LOCAL_CHUNK_SIZE_def)
  then show ?thesis
    using r2 by (intro exI [of _ "?q (Suc (Suc 0))"]) (simp add: mem_ready_def)
qed

theorem pool_objects_disjoint_witness:
  "\<exists>p. {16400..<16400 + 64} \<inter> {16464..<16464 + (64::nat)} = {}
     \<and> get_local_object pool64 (Some 32768) p \<noteq> None \<and> return_local_object pool64 (Some 16464) p \<noteq> None"
proof -
  obtain p where "pool_reach pool64 7 p {16400, 16464}" "mem_ready pool64 (Some 32768) p"
    using pool64_two_objects by blast
  then show ?thesis
    using pool_objects_disjoint [of pool64 7 p "{16400, 16464}" "Some 32768"]
    by (intro exI [of _ p]) (auto simp: params_ok_def LOCAL_CHUNK_SIZE_def)
qed

text \<open>C21: At thread exit the destructor frees only allocated chunks, each once; once the objects still held
  have been returned, in whatever order, every chunk has been freed.\<close>

theorem pool_exit_frees_all:
  assumes "params_ok P" "pool_reach P t p L" "distinct objs" "set objs = L"
  shows "\<exists>p' p''. TlsObjectPool_destroy P p = Some p' \<and> return_all P objs p' = Some p'' \<and> chunks p'' = Map.empty"
proof -
  have "pool_inv P p L"
    using pool_reach_live [OF assms(2,1)] by (simp add: pool_live_def)
  then obtain p' where "TlsObjectPool_destroy P p = Some p'" "shutdown p'" "drain_inv P (thread_id p') (chunks p') L {}"
    using TlsObjectPool_destroy_drains [OF assms(1)] by fastforce
  then show ?thesis
    using return_all_drains assms(3,4) by blast
qed

theorem pool_exit_frees_all_witness:
  "\<exists>p p' p''. TlsObjectPool_destroy pool64 p = Some p' \<and> return_all pool64 [16464, 16400] p' = Some p''
     \<and> chunks p'' = Map.empty"
proof -
  obtain p where "pool_reach pool64 7 p {16400, 16464}"
    using pool64_two_objects by blast
  then have "\<exists>p' p''. TlsObjectPool_destroy pool64 p = Some p' \<and> return_all pool64 [16464, 16400] p' = Some p''
     \<and> chunks p'' = Map.empty"
    by (rule_tac pool_exit_frees_all [where t = 7 and L = "{16400, 16464}"])
      (auto simp: params_ok_def LOCAL_CHUNK_SIZE_def)
  then show ?thesis by blast
qed

end
