(* ===== verification/Timer_Manager.thy ===== *)
theory Timer_Manager
  imports Object_Pool
begin

text \<open>The timer list of \<^verbatim>\<open>src/src/common/timer_manager.{h,cc}\<close>: a doubly linked list of
  \<^verbatim>\<open>TimeoutContext\<close> objects taken from the thread-local object pool.  \<open>ctxs\<close> is the memory of the
  contexts; an object the pool hands out again without constructing it keeps its old contents, so
  \<^verbatim>\<open>AddTimer\<close> relies on the \<^verbatim>\<open>Reset\<close> of the removal.  The operations take the pool's get and put as
  arguments; their laws are the locale \<open>recycled_store\<close>, which extends \<open>object_store\<close> by what is
  known of recycled objects.  \<open>None\<close> is a null or dangling pointer, a failed check, or a loop that does
  not end.  The callback of \<^verbatim>\<open>HandleTimeout\<close> is modelled by the list of its arguments.\<close>

section \<open>Contexts and the list\<close>

record TimeoutContext =
  onfired_ts :: u64
  timer_arg :: nat
  next_ctx :: "nat option"
  prev_ctx :: "nat option"

definition Reset :: "TimeoutContext \<Rightarrow> TimeoutContext" where
  "Reset c = c\<lparr> next_ctx := None, prev_ctx := None \<rparr>"

record 'p TimerManager =
  timeout_ts :: u64
  head_ctx :: "nat option"
  tail_ctx :: "nat option"
  ctxs :: "nat \<rightharpoonup> TimeoutContext"
  pool :: 'p

definition TimerManager_init :: "u64 \<Rightarrow> 'p \<Rightarrow> 'p TimerManager" where
  "TimerManager_init ts p = \<lparr> timeout_ts = ts, head_ctx = None, tail_ctx = None, ctxs = Map.empty, pool = p \<rparr>"

definition modify_ctx :: "nat option \<Rightarrow> (TimeoutContext \<Rightarrow> TimeoutContext) \<Rightarrow> 'p TimerManager \<Rightarrow> 'p TimerManager option" where
  "modify_ctx q f s =
    (case q of
       None \<Rightarrow> None
     | Some a \<Rightarrow> (case ctxs s a of None \<Rightarrow> None | Some c \<Rightarrow> Some (s\<lparr> ctxs := (ctxs s)(a \<mapsto> f c) \<rparr>)))"

text \<open>What the pool's get leaves in the context: default initialised pointers for a constructed object,
  the old contents for a recycled one.\<close>

definition obtained :: "nat \<Rightarrow> bool \<Rightarrow> 'p \<Rightarrow> 'p TimerManager \<Rightarrow> 'p TimerManager" where
  "obtained a new p s =
    (if new then s\<lparr> pool := p, ctxs := (ctxs s)(a \<mapsto>
                      \<lparr> onfired_ts = 0, timer_arg = 0, next_ctx = None, prev_ctx = None \<rparr>) \<rparr>
     else s\<lparr> pool := p \<rparr>)"

definition AddTimer :: "('m \<Rightarrow> 'p \<Rightarrow> ((nat \<times> bool) option \<times> 'p) option) \<Rightarrow> 'm \<Rightarrow> u64 \<Rightarrow> nat \<Rightarrow> 'p TimerManager \<Rightarrow>
    (nat \<times> 'p TimerManager) option" where
  "AddTimer get m now arg s =
    (case get m (pool s) of
       Some (Some (a, new), p') \<Rightarrow>
         Option.bind
           (modify_ctx (Some a) (\<lambda>c. c\<lparr> onfired_ts := now + timeout_ts s, timer_arg := arg \<rparr>) (obtained a new p' s))
           (\<lambda>s1. if head_ctx s1 = None then Some (a, s1\<lparr> head_ctx := Some a, tail_ctx := Some a \<rparr>)
                 else
                   Option.bind (modify_ctx (tail_ctx s1) (\<lambda>c. c\<lparr> next_ctx := Some a \<rparr>) s1)
                     (\<lambda>s2. Option.bind (modify_ctx (Some a) (\<lambda>c. c\<lparr> prev_ctx := tail_ctx s2 \<rparr>) s2)
                       (\<lambda>s3. Some (a, s3\<lparr> tail_ctx := Some a \<rparr>))))
     | _ \<Rightarrow> None)"

text \<open>\<^verbatim>\<open>ctx->Reset()\<close> followed by \<^verbatim>\<open>return_tls_object\<close>.\<close>

definition reset_and_return :: "(nat \<Rightarrow> 'p \<Rightarrow> 'p option) \<Rightarrow> nat \<Rightarrow> 'p TimerManager \<Rightarrow> 'p TimerManager option" where
  "reset_and_return put a s =
    Option.bind (modify_ctx (Some a) Reset s)
      (\<lambda>s1. case put a (pool s1) of None \<Rightarrow> None | Some p' \<Rightarrow> Some (s1\<lparr> pool := p' \<rparr>))"

definition unlink :: "nat \<Rightarrow> 'p TimerManager \<Rightarrow> 'p TimerManager option" where
  "unlink a s =
    (case ctxs s a of
       None \<Rightarrow> None
     | Some c \<Rightarrow>
         if Some a = head_ctx s \<and> Some a = tail_ctx s then Some (s\<lparr> head_ctx := None, tail_ctx := None \<rparr>)
         else if Some a = head_ctx s then
           modify_ctx (next_ctx c) (\<lambda>d. d\<lparr> prev_ctx := None \<rparr>) (s\<lparr> head_ctx := next_ctx c \<rparr>)
         else if Some a = tail_ctx s then
           modify_ctx (prev_ctx c) (\<lambda>d. d\<lparr> next_ctx := None \<rparr>) (s\<lparr> tail_ctx := prev_ctx c \<rparr>)
         else
           Option.bind (modify_ctx (prev_ctx c) (\<lambda>d. d\<lparr> next_ctx := next_ctx c \<rparr>) s)
             (\<lambda>s1. modify_ctx (next_ctx c) (\<lambda>d. d\<lparr> prev_ctx := prev_ctx c \<rparr>) s1))"

definition RemoveTimer :: "(nat \<Rightarrow> 'p \<Rightarrow> 'p option) \<Rightarrow> nat option \<Rightarrow> 'p TimerManager \<Rightarrow> 'p TimerManager option" where
  "RemoveTimer put ctx s =
    (case ctx of None \<Rightarrow> None | Some a \<Rightarrow> Option.bind (unlink a s) (reset_and_return put a))"

partial_function (option) timeout_loop ::
  "(nat \<Rightarrow> 'p \<Rightarrow> 'p option) \<Rightarrow> u64 \<Rightarrow> nat list \<Rightarrow> 'p TimerManager \<Rightarrow> (nat list \<times> 'p TimerManager) option" where
  "timeout_loop put now fired s =
    (case head_ctx s of
       None \<Rightarrow> Some (fired, s)
     | Some h \<Rightarrow>
         (case ctxs s h of
            None \<Rightarrow> None
          | Some c \<Rightarrow>
              if now < onfired_ts c then Some (fired, s)
              else
                Option.bind (reset_and_return put h (s\<lparr> head_ctx := next_ctx c \<rparr>))
                  (\<lambda>s1. timeout_loop put now (fired @ [timer_arg c]) s1)))"

definition HandleTimeout :: "(nat \<Rightarrow> 'p \<Rightarrow> 'p option) \<Rightarrow> u64 \<Rightarrow> 'p TimerManager \<Rightarrow> (nat list \<times> 'p TimerManager) option" where
  "HandleTimeout put now s =
    Option.bind (timeout_loop put now [] s)
      (\<lambda>(fired, s1).
         if head_ctx s1 \<noteq> None
         then map_option (Pair fired) (modify_ctx (head_ctx s1) (\<lambda>c. c\<lparr> prev_ctx := None \<rparr>) s1)
         else Some (fired, s1\<lparr> tail_ctx := head_ctx s1 \<rparr>))"

partial_function (option) clear_loop ::
  "(nat \<Rightarrow> 'p \<Rightarrow> 'p option) \<Rightarrow> nat list \<Rightarrow> 'p TimerManager \<Rightarrow> (nat list \<times> 'p TimerManager) option" where
  "clear_loop put ret s =
    (case head_ctx s of
       None \<Rightarrow> Some (ret, s)
     | Some h \<Rightarrow>
         (case ctxs s h of
            None \<Rightarrow> None
          | Some c \<Rightarrow> Option.bind (RemoveTimer put (Some h) s) (\<lambda>s1. clear_loop put (ret @ [timer_arg c]) s1)))"

definition ClearAndGetUserArg :: "(nat \<Rightarrow> 'p \<Rightarrow> 'p option) \<Rightarrow> 'p TimerManager \<Rightarrow> (nat list \<times> 'p TimerManager) option" where
  "ClearAndGetUserArg put s = clear_loop put [] s"

section \<open>Doubly linked segments\<close>

definition first :: "nat list \<Rightarrow> nat option \<Rightarrow> nat option" where
  "first xs n = (case xs of [] \<Rightarrow> n | x # _ \<Rightarrow> Some x)"

definition final :: "nat option \<Rightarrow> nat list \<Rightarrow> nat option" where
  "final p xs = (if xs = [] then p else Some (last xs))"

lemma first_simps [simp]: "first [] n = n" "first (x # xs) n = Some x"
  "first (xs @ ys) n = first xs (first ys n)"
  by (auto simp: first_def split: list.split)

lemma final_simps [simp]: "final p [] = p" "final p (x # xs) = final (Some x) xs" "final p (xs @ ys) = final (final p xs) ys"
  by (auto simp: final_def)

lemma final_cons_Some: "\<exists>y. final (Some x) xs = Some y \<and> y \<in> insert x (set xs)"
  by (auto simp: final_def)

primrec dseg :: "(nat \<rightharpoonup> TimeoutContext) \<Rightarrow> nat option \<Rightarrow> nat list \<Rightarrow> nat option \<Rightarrow> bool" where
  "dseg h p [] n \<longleftrightarrow> True"
| "dseg h p (x # xs) n \<longleftrightarrow>
    (\<exists>c. h x = Some c \<and> prev_ctx c = p \<and> next_ctx c = first xs n \<and> dseg h (Some x) xs n)"

lemma dseg_append [simp]: "dseg h p (xs @ ys) n \<longleftrightarrow> dseg h p xs (first ys n) \<and> dseg h (final p xs) ys n"
  by (induction xs arbitrary: p) auto

lemma dseg_frame: "\<forall>x \<in> set xs. h' x = h x \<Longrightarrow> dseg h' p xs n = dseg h p xs n"
  by (induction xs arbitrary: p) auto

lemma dseg_upd [simp]: "a \<notin> set xs \<Longrightarrow> dseg (h(a := v)) p xs n = dseg h p xs n"
  by (rule dseg_frame) auto

lemma dseg_allocated: "dseg h p xs n \<Longrightarrow> x \<in> set xs \<Longrightarrow> h x \<noteq> None"
  by (induction xs arbitrary: p) auto

definition payload :: "TimeoutContext \<Rightarrow> nat \<times> u64" where
  "payload c = (timer_arg c, onfired_ts c)"

definition same_payload :: "(nat \<rightharpoonup> TimeoutContext) \<Rightarrow> (nat \<rightharpoonup> TimeoutContext) \<Rightarrow> bool" where
  "same_payload h h' \<longleftrightarrow> (\<forall>x. map_option payload (h' x) = map_option payload (h x))"

definition entries :: "(nat \<rightharpoonup> TimeoutContext) \<Rightarrow> nat list \<Rightarrow> (nat \<times> u64) list" where
  "entries h xs = map (\<lambda>a. the (map_option payload (h a))) xs"

lemma entries_simps [simp]: "entries h [] = []" "entries h (xs @ ys) = entries h xs @ entries h ys"
  "entries h (x # xs) = the (map_option payload (h x)) # entries h xs"
  by (simp_all add: entries_def)

lemma entries_same: "same_payload h h' \<Longrightarrow> entries h' xs = entries h xs"
  by (simp add: entries_def same_payload_def)

lemma entries_upd [simp]: "a \<notin> set xs \<Longrightarrow> entries (h(a := v)) xs = entries h xs"
  by (auto simp: entries_def)

definition relinked :: "'p TimerManager \<Rightarrow> 'p TimerManager \<Rightarrow> nat list \<Rightarrow> bool" where
  "relinked s s' xs \<longleftrightarrow> head_ctx s' = first xs None \<and> tail_ctx s' = final None xs \<and> dseg (ctxs s') None xs None
     \<and> (\<forall>x. x \<notin> set xs \<longrightarrow> ctxs s' x = ctxs s x) \<and> same_payload (ctxs s) (ctxs s')
     \<and> pool s' = pool s \<and> timeout_ts s' = timeout_ts s"

lemma unlink_ok:
  assumes "distinct (as @ a # bs)" and "head_ctx s = first (as @ a # bs) None"
    and "tail_ctx s = final None (as @ a # bs)" and "dseg (ctxs s) None (as @ a # bs) None"
  shows "\<exists>s'. unlink a s = Some s' \<and> relinked s s' (as @ bs)"
proof -
  note defs = unlink_def modify_ctx_def same_payload_def payload_def relinked_def
  consider (only) "as = []" "bs = []" | (head) y ys where "as = []" "bs = y # ys"
    | (tail) x xs where "as = xs @ [x]" "bs = []" | (mid) x xs y ys where "as = xs @ [x]" "bs = y # ys"
    by (metis list.exhaust rev_exhaust)
  then show ?thesis
  proof cases
    case only
    then show ?thesis using assms by (auto simp: defs)
  next
    case head
    then show ?thesis using assms final_cons_Some [of y ys] by (auto simp: defs)
  next
    case tail
    then show ?thesis using assms by (cases xs) (auto simp: defs)
  next
    case mid
    then show ?thesis using assms final_cons_Some [of y ys] by (cases xs) (auto simp: defs)
  qed
qed

section \<open>The timer list over any recycling store\<close>

definition cached_clean :: "nat set \<Rightarrow> (nat \<rightharpoonup> TimeoutContext) \<Rightarrow> bool" where
  "cached_clean A h \<longleftrightarrow> (\<forall>a \<in> A. \<exists>c. h a = Some c \<and> next_ctx c = None \<and> prev_ctx c = None)"

text \<open>\<open>timers live cached s xs L\<close>: the list of \<open>s\<close> consists of the contexts \<open>xs\<close>, which are among
  the objects \<open>L\<close> handed out by the pool, and every recycled object has been reset.\<close>

definition timers :: "('p \<Rightarrow> nat set \<Rightarrow> bool) \<Rightarrow> ('p \<Rightarrow> nat set) \<Rightarrow> 'p TimerManager \<Rightarrow> nat list \<Rightarrow> nat set \<Rightarrow> bool" where
  "timers live cached s xs L \<longleftrightarrow> live (pool s) L \<and> set xs \<subseteq> L \<and> distinct xs
     \<and> head_ctx s = first xs None \<and> tail_ctx s = final None xs \<and> dseg (ctxs s) None xs None
     \<and> cached_clean (cached (pool s)) (ctxs s)"

definition due :: "u64 \<Rightarrow> (nat \<rightharpoonup> TimeoutContext) \<Rightarrow> nat \<Rightarrow> bool" where
  "due now h a \<longleftrightarrow> onfired_ts (the (h a)) \<le> now"

lemma cached_clean_upd: "a \<notin> A \<Longrightarrow> cached_clean A (h(a := v)) = cached_clean A h"
  by (auto simp: cached_clean_def)

lemma cached_clean_cong: "(\<And>a. a \<in> A \<Longrightarrow> h a = h' a) \<Longrightarrow> cached_clean A h = cached_clean A h'"
  by (auto simp: cached_clean_def)

lemma cached_clean_mono: "cached_clean A h \<Longrightarrow> B \<subseteq> A \<Longrightarrow> cached_clean B h"
  by (auto simp: cached_clean_def)

locale recycled_store = object_store get put ready holds_live
  for get :: "'m \<Rightarrow> 'p \<Rightarrow> ((nat \<times> bool) option \<times> 'p) option" and put :: "nat \<Rightarrow> 'p \<Rightarrow> 'p option"
    and ready :: "'m \<Rightarrow> 'p \<Rightarrow> bool" and holds_live :: "'p \<Rightarrow> nat set \<Rightarrow> bool" +
  fixes cached :: "'p \<Rightarrow> nat set"
  assumes cached_not_live: "holds_live p L \<Longrightarrow> cached p \<inter> L = {}"
    and get_recycled: "get m p = Some (Some (a, False), p') \<Longrightarrow> a \<in> cached p"
    and get_cached: "get m p = Some (r, p') \<Longrightarrow> cached p' \<subseteq> cached p"
    and put_cached: "put a p = Some p' \<Longrightarrow> cached p' \<subseteq> insert a (cached p)"
begin

lemma obtained_clean:
  assumes inv: "timers holds_live cached s xs L" and m: "ready m (pool s)" and get: "get m (pool s) = Some (Some (a, new), p')"
  shows "\<exists>c. ctxs (obtained a new p' s) a = Some c \<and> next_ctx c = None \<and> prev_ctx c = None"
    and "a \<notin> set xs" "holds_live p' (insert a L)" "a \<notin> cached p'" "cached p' \<subseteq> cached (pool s)"
proof -
  have live: "a \<notin> L \<and> holds_live p' (insert a L)"
    using get_object [OF _ m get] inv by (simp add: timers_def)
  then show "a \<notin> set xs" "holds_live p' (insert a L)"
    using inv by (auto simp: timers_def)
  show "a \<notin> cached p'"
    using cached_not_live [of p' "insert a L"] live by auto
  show "cached p' \<subseteq> cached (pool s)"
    using get_cached [OF get] .
  show "\<exists>c. ctxs (obtained a new p' s) a = Some c \<and> next_ctx c = None \<and> prev_ctx c = None"
    using get_recycled [of m "pool s" a p'] get inv
    by (cases new) (auto simp: obtained_def timers_def cached_clean_def)
qed

lemma AddTimer_ok:
  assumes inv: "timers holds_live cached s xs L" and m: "ready m (pool s)" and get: "get m (pool s) = Some (Some (a, new), p')"
  shows "\<exists>s'. AddTimer get m now arg s = Some (a, s') \<and> timers holds_live cached s' (xs @ [a]) (insert a L)
     \<and> entries (ctxs s') (xs @ [a]) = entries (ctxs s) xs @ [(arg, now + timeout_ts s)] \<and> timeout_ts s' = timeout_ts s"
proof -
  note oc = obtained_clean [OF assms]
  obtain c where c: "ctxs (obtained a new p' s) a = Some c" "next_ctx c = None" "prev_ctx c = None"
    using oc(1) by blast
  have simps: "head_ctx (obtained a new p' s) = head_ctx s" "tail_ctx (obtained a new p' s) = tail_ctx s"
    "pool (obtained a new p' s) = p'" "timeout_ts (obtained a new p' s) = timeout_ts s"
    by (simp_all add: obtained_def)
  have seg: "dseg (ctxs (obtained a new p' s)) None xs None" "entries (ctxs (obtained a new p' s)) xs = entries (ctxs s) xs"
    using inv oc(2) by (simp_all add: timers_def obtained_def)
  have clean: "cached_clean (cached p') (ctxs (obtained a new p' s))"
    using inv cached_clean_mono [OF _ oc(5)] oc(4) by (simp add: timers_def obtained_def cached_clean_upd)
  have L: "set xs \<subseteq> L" "distinct xs" "head_ctx s = first xs None" "tail_ctx s = final None xs"
    using inv by (simp_all add: timers_def)
  show ?thesis
  proof (cases xs rule: rev_cases)
    case Nil
    then show ?thesis
      using get c simps clean L oc by (simp add: AddTimer_def modify_ctx_def timers_def cached_clean_upd payload_def)
  next
    case (snoc ys y)
    obtain d where d: "ctxs (obtained a new p' s) y = Some d" "next_ctx d = None"
      using seg(1) snoc by auto
    have y: "y \<notin> cached p'" "y \<noteq> a" "first ys (Some y) \<noteq> None"
      using cached_not_live [OF oc(3)] L(1) snoc oc(2) by (auto simp: first_def split: list.split)
    show ?thesis
      using get c simps clean L oc snoc d y seg
      by (auto simp: AddTimer_def modify_ctx_def timers_def cached_clean_upd payload_def)
  qed
qed

lemma reset_and_return_ok:
  assumes live: "holds_live (pool s) L" "a \<in> L" and c: "ctxs s a = Some c" and clean: "cached_clean (cached (pool s)) (ctxs s)"
  shows "\<exists>s' p'. reset_and_return put a s = Some s' \<and> s' = s\<lparr> ctxs := (ctxs s)(a \<mapsto> Reset c), pool := p' \<rparr>
     \<and> holds_live p' (L - {a}) \<and> cached_clean (cached p') (ctxs s')"
proof -
  obtain p' where p': "put a (pool s) = Some p'" "holds_live p' (L - {a})"
    using put_object [OF live] by blast
  have "cached_clean (insert a (cached (pool s))) ((ctxs s)(a \<mapsto> Reset c))"
    using clean by (auto simp: cached_clean_def Reset_def)
  then have "cached_clean (cached p') ((ctxs s)(a \<mapsto> Reset c))"
    using put_cached [OF p'(1)] by (rule cached_clean_mono)
  then show ?thesis
    using p' c by (auto simp: reset_and_return_def modify_ctx_def)
qed

lemma RemoveTimer_ok:
  assumes inv: "timers holds_live cached s (as @ a # bs) L"
  shows "\<exists>s'. RemoveTimer put (Some a) s = Some s' \<and> timers holds_live cached s' (as @ bs) (L - {a})
     \<and> entries (ctxs s') (as @ bs) = entries (ctxs s) (as @ bs) \<and> timeout_ts s' = timeout_ts s"
proof -
  have d: "distinct (as @ a # bs)" "a \<in> L" "set (as @ bs) \<subseteq> L - {a}" "holds_live (pool s) L"
    using inv by (auto simp: timers_def)
  obtain s1 where s1: "unlink a s = Some s1" "relinked s s1 (as @ bs)"
    using unlink_ok [of as a bs s] inv unfolding timers_def by blast
  have disj: "cached (pool s) \<inter> set (as @ bs) = {}"
    using cached_not_live [OF d(4)] d(3) by auto
  have clean: "cached_clean (cached (pool s1)) (ctxs s1)"
    using inv s1(2) disj cached_clean_cong [of "cached (pool s)" "ctxs s1" "ctxs s"]
    by (auto simp: timers_def relinked_def)
  obtain c where c: "ctxs s1 a = Some c"
    using inv s1(2) d(1) by (auto simp: timers_def relinked_def)
  obtain s' p' where s': "reset_and_return put a s1 = Some s'" "s' = s1\<lparr> ctxs := (ctxs s1)(a \<mapsto> Reset c), pool := p' \<rparr>"
    "holds_live p' (L - {a})" "cached_clean (cached p') (ctxs s')"
    using reset_and_return_ok [of s1 L a c] d s1(2) c clean by (auto simp: relinked_def)
  have "a \<notin> set (as @ bs)" "entries (ctxs s1) (as @ bs) = entries (ctxs s) (as @ bs)"
    using d(1) s1(2) entries_same [of "ctxs s" "ctxs s1"] by (auto simp: relinked_def)
  moreover have "distinct (as @ bs)"
    using d(1) by auto
  ultimately show ?thesis
    using s1 s' d(3) by (auto simp: RemoveTimer_def timers_def relinked_def simp del: dseg_append)
qed

lemma timeout_loop_ok:
  assumes "holds_live (pool s) L" "set xs \<subseteq> L" "distinct xs" "head_ctx s = first xs None"
    "dseg (ctxs s) p xs None" "cached_clean (cached (pool s)) (ctxs s)"
  shows "\<exists>s' q. timeout_loop put now fired s = Some (fired @ map fst (entries (ctxs s) (takeWhile (due now (ctxs s)) xs)), s')
     \<and> holds_live (pool s') (L - set (takeWhile (due now (ctxs s)) xs))
     \<and> head_ctx s' = first (dropWhile (due now (ctxs s)) xs) None \<and> tail_ctx s' = tail_ctx s
     \<and> dseg (ctxs s') q (dropWhile (due now (ctxs s)) xs) None
     \<and> entries (ctxs s') (dropWhile (due now (ctxs s)) xs) = entries (ctxs s) (dropWhile (due now (ctxs s)) xs)
     \<and> cached_clean (cached (pool s')) (ctxs s') \<and> timeout_ts s' = timeout_ts s"
  using assms
proof (induction xs arbitrary: s L p fired)
  case Nil
  then show ?case
    by (simp add: timeout_loop.simps)
next
  case (Cons a xs)
  obtain c where c: "ctxs s a = Some c" "next_ctx c = first xs None" "dseg (ctxs s) (Some a) xs None"
    using Cons.prems(5) by auto
  show ?case
  proof (cases "now < onfired_ts c")
    case True
    then show ?thesis
      using Cons.prems c by (intro exI [of _ s] exI [of _ p]) (simp add: timeout_loop.simps due_def)
  next
    case False
    let ?s = "s\<lparr> head_ctx := next_ctx c \<rparr>"
    obtain s1 p1 where s1: "reset_and_return put a ?s = Some s1" "s1 = ?s\<lparr> ctxs := (ctxs s)(a \<mapsto> Reset c), pool := p1 \<rparr>"
      "holds_live p1 (L - {a})" "cached_clean (cached p1) (ctxs s1)"
      using reset_and_return_ok [of ?s L a c] Cons.prems c by auto
    have a: "a \<notin> set xs" "set xs \<subseteq> L - {a}"
      using Cons.prems by auto
    have due: "due now (ctxs s) a" "takeWhile (due now (ctxs s1)) xs = takeWhile (due now (ctxs s)) xs"
      "dropWhile (due now (ctxs s1)) xs = dropWhile (due now (ctxs s)) xs"
      using False c(1) a(1) s1(2) by (auto simp: due_def split: if_splits intro!: takeWhile_cong dropWhile_cong)
    have nin: "a \<notin> set (takeWhile (due now (ctxs s)) xs)" "a \<notin> set (dropWhile (due now (ctxs s)) xs)"
      using a(1) set_takeWhileD set_dropWhileD by metis+
    have eq: "L - {a} - set (takeWhile (due now (ctxs s)) xs) = L - insert a (set (takeWhile (due now (ctxs s)) xs))"
      by auto
    have step: "timeout_loop put now fired s = timeout_loop put now (fired @ [timer_arg c]) s1"
      using Cons.prems(4) c(1) False s1(1) by (subst timeout_loop.simps) simp
    have f: "head_ctx s1 = first xs None" "tail_ctx s1 = tail_ctx s" "pool s1 = p1" "timeout_ts s1 = timeout_ts s"
      "dseg (ctxs s1) (Some a) xs None" "entries (ctxs s1) ys = entries (ctxs s) ys" if "a \<notin> set ys" for ys
      using s1(2) c a(1) that by simp_all
    show ?thesis
      using Cons.IH [of s1 "L - {a}" "Some a" "fired @ [timer_arg c]"] Cons.prems(3) c(1) s1(3,4) a due(1)
      unfolding step due(2,3) f(6) [OF nin(1)] f(6) [OF nin(2)] eq by (simp add: f [OF nin(1)] payload_def)
  qed
qed

lemma HandleTimeout_ok:
  assumes inv: "timers holds_live cached s xs L"
  shows "\<exists>s'. HandleTimeout put now s = Some (map fst (entries (ctxs s) (takeWhile (due now (ctxs s)) xs)), s')
     \<and> timers holds_live cached s' (dropWhile (due now (ctxs s)) xs) (L - set (takeWhile (due now (ctxs s)) xs))
     \<and> entries (ctxs s') (dropWhile (due now (ctxs s)) xs) = entries (ctxs s) (dropWhile (due now (ctxs s)) xs)
     \<and> timeout_ts s' = timeout_ts s"
proof -
  let ?ys = "dropWhile (due now (ctxs s)) xs" and ?zs = "takeWhile (due now (ctxs s)) xs"
  obtain s1 q where s1: "timeout_loop put now [] s = Some (map fst (entries (ctxs s) ?zs), s1)"
    "holds_live (pool s1) (L - set ?zs)" "head_ctx s1 = first ?ys None" "tail_ctx s1 = tail_ctx s" "dseg (ctxs s1) q ?ys None"
    "entries (ctxs s1) ?ys = entries (ctxs s) ?ys" "cached_clean (cached (pool s1)) (ctxs s1)" "timeout_ts s1 = timeout_ts s"
    using timeout_loop_ok [of s L xs None now "[]"] inv by (auto simp: timers_def)
  have split: "distinct (?zs @ ?ys)" "set (?zs @ ?ys) \<subseteq> L" "tail_ctx s = final None (?zs @ ?ys)"
    using inv by (simp_all only: timers_def takeWhile_dropWhile_id)
  have d: "distinct ?ys" "set ?ys \<subseteq> L - set ?zs"
    using split(1,2) unfolding distinct_append set_append by auto
  show ?thesis
  proof (cases ?ys)
    case Nil
    then show ?thesis
      using s1 d by (simp add: HandleTimeout_def timers_def del: dropWhile_eq_Nil_conv)
  next
    case (Cons y ys)
    then obtain c where c: "ctxs s1 y = Some c"
      using s1(5) by auto
    have "tail_ctx s = final None ?ys"
      using split(3) unfolding Cons by simp
    moreover have "y \<notin> cached (pool s1)"
      using cached_not_live [OF s1(2)] d(2) Cons by auto
    ultimately show ?thesis
      using s1 d c Cons by (auto simp: HandleTimeout_def timers_def modify_ctx_def cached_clean_upd payload_def)
  qed
qed

lemma clear_loop_ok:
  assumes "timers holds_live cached s xs L"
  shows "\<exists>s'. clear_loop put ret s = Some (ret @ map fst (entries (ctxs s) xs), s')
     \<and> timers holds_live cached s' [] (L - set xs) \<and> timeout_ts s' = timeout_ts s"
  using assms
proof (induction xs arbitrary: s L ret)
  case Nil
  then show ?case
    by (auto simp: clear_loop.simps timers_def)
next
  case (Cons a xs)
  obtain c where c: "ctxs s a = Some c" "head_ctx s = Some a"
    using Cons.prems by (auto simp: timers_def)
  obtain s1 where s1: "RemoveTimer put (Some a) s = Some s1" "timers holds_live cached s1 xs (L - {a})"
    "entries (ctxs s1) xs = entries (ctxs s) xs" "timeout_ts s1 = timeout_ts s"
    using RemoveTimer_ok [of s "[]" a xs L] Cons.prems by auto
  have "clear_loop put ret s = clear_loop put (ret @ [timer_arg c]) s1"
    using c s1(1) by (subst clear_loop.simps) simp
  moreover have "L - {a} - set xs = L - set (a # xs)"
    by auto
  ultimately show ?case
    using Cons.IH [OF s1(2), of "ret @ [timer_arg c]"] s1 c by (simp add: payload_def)
qed

end

section \<open>The timer list over the object pool\<close>

abbreviation pool_put :: "pool_params \<Rightarrow> nat \<Rightarrow> TlsObjectPool \<Rightarrow> TlsObjectPool option" where
  "pool_put P \<equiv> \<lambda>a. return_local_object P (Some a)"

abbreviation pool_cached :: "TlsObjectPool \<Rightarrow> nat set" where
  "pool_cached p \<equiv> set (free_obj p)"

lemma construct_from_cached: "construct_from P c p = Some (r, p') \<Longrightarrow> free_obj p' = free_obj p \<and> (\<forall>a new. r = Some (a, new) \<longrightarrow> new)"
  by (auto simp: construct_from_def alloc_object_def split: option.splits)

lemma get_local_object_cached:
  assumes "get_local_object P m p = Some (r, p')"
  shows "pool_cached p' \<subseteq> pool_cached p" and "r = Some (a, False) \<Longrightarrow> a \<in> pool_cached p"
  using assms
  by (auto simp: get_local_object_def get_or_new_object_def Let_def
      dest!: construct_from_cached in_set_butlastD split: if_splits option.splits)

lemma return_local_object_cached: "return_local_object P (Some a) p = Some p' \<Longrightarrow> pool_cached p' \<subseteq> insert a (pool_cached p)"
  by (auto simp: return_local_object_def return_or_free_object_def recycle_object_def Let_def
      split: if_splits option.splits)

interpretation tp: recycled_store "get_local_object P" "pool_put P" "mem_ready P" "pool_live P" pool_cached
  for P
proof unfold_locales
  show "pool_cached p \<inter> L = {}" if "pool_live P p L" for p L
    using that by (simp add: pool_live_def pool_inv_def)
  show "a \<in> pool_cached p" if "get_local_object P m p = Some (Some (a, False), p')" for m p a p'
    using get_local_object_cached(2) [OF that] by simp
  show "pool_cached p' \<subseteq> pool_cached p" if "get_local_object P m p = Some (r, p')" for m p r p'
    using get_local_object_cached(1) [OF that] .
  show "pool_cached p' \<subseteq> insert a (pool_cached p)" if "pool_put P a p = Some p'" for a p p'
    using return_local_object_cached [OF that] .
qed

text \<open>The histories of a timer list on one thread, with the timers \<open>(context, argument, deadline)\<close> it
  should hold: the clock does not go back, and deadlines do not wrap around.\<close>

inductive timer_reach :: "pool_params \<Rightarrow> u64 \<Rightarrow> nat \<Rightarrow> TlsObjectPool TimerManager \<Rightarrow> (nat \<times> nat \<times> u64) list \<Rightarrow> u64 \<Rightarrow> bool"
  for P ts t where
  start: "timer_reach P ts t (TimerManager_init ts (TlsObjectPool_init t)) [] 0"
| add: "timer_reach P ts t s xs clk \<Longrightarrow> clk \<le> now \<Longrightarrow> now \<le> now + ts \<Longrightarrow> mem_ready P mem (pool s) \<Longrightarrow>
    AddTimer (get_local_object P) mem now arg s = Some (a, s') \<Longrightarrow>
    timer_reach P ts t s' (xs @ [(a, arg, now + ts)]) now"
| remove: "timer_reach P ts t s xs clk \<Longrightarrow> a \<in> fst ` set xs \<Longrightarrow> RemoveTimer (pool_put P) (Some a) s = Some s' \<Longrightarrow>
    timer_reach P ts t s' (filter (\<lambda>x. fst x \<noteq> a) xs) clk"
| fire: "timer_reach P ts t s xs clk \<Longrightarrow> clk \<le> now \<Longrightarrow> HandleTimeout (pool_put P) now s = Some (fired, s') \<Longrightarrow>
    timer_reach P ts t s' (filter (\<lambda>x. now < snd (snd x)) xs) now"
| clear: "timer_reach P ts t s xs clk \<Longrightarrow> ClearAndGetUserArg (pool_put P) s = Some (args, s') \<Longrightarrow>
    timer_reach P ts t s' [] clk"

definition holds_timers :: "pool_params \<Rightarrow> u64 \<Rightarrow> TlsObjectPool TimerManager \<Rightarrow> (nat \<times> nat \<times> u64) list \<Rightarrow> u64 \<Rightarrow> bool" where
  "holds_timers P ts s xs clk \<longleftrightarrow> (\<exists>L. timers (pool_live P) pool_cached s (map fst xs) L)
     \<and> entries (ctxs s) (map fst xs) = map snd xs \<and> timeout_ts s = ts
     \<and> sorted (map (snd \<circ> snd) xs) \<and> (\<forall>x \<in> set xs. \<exists>n \<le> clk. n \<le> n + ts \<and> snd (snd x) = n + ts)"

lemma holds_timers_sub:
  assumes "holds_timers P ts s xs clk" "\<exists>L. timers (pool_live P) pool_cached s' (map fst (filter Q xs)) L"
    "entries (ctxs s') (map fst (filter Q xs)) = entries (ctxs s) (map fst (filter Q xs))" "timeout_ts s' = timeout_ts s" "clk \<le> now"
  shows "holds_timers P ts s' (filter Q xs) now"
proof -
  have "entries (ctxs s) (map fst (filter Q xs)) = map snd (filter Q xs)"
    using assms(1) by (auto simp: holds_timers_def entries_def)
  then show ?thesis
    using assms by (auto simp: holds_timers_def sorted_filter intro: order_trans)
qed

lemma sorted_dropWhile_filter:
  fixes g :: "'a \<Rightarrow> u64"
  assumes "sorted (map g xs)"
  shows "dropWhile (\<lambda>x. g x \<le> n) xs = filter (\<lambda>x. n < g x) xs \<and> takeWhile (\<lambda>x. g x \<le> n) xs = filter (\<lambda>x. g x \<le> n) xs"
  using assms
proof (induction xs)
  case (Cons x xs)
  have "filter (\<lambda>y. n < g y) xs = xs" "filter (\<lambda>y. g y \<le> n) xs = []" if "n < g x"
    using Cons.prems that by (auto simp: filter_id_conv filter_empty_conv)
  then show ?case
    using Cons by auto
qed simp

lemma due_filter:
  assumes h: "holds_timers P ts s xs clk"
  shows "dropWhile (due now (ctxs s)) (map fst xs) = map fst (filter (\<lambda>x. now < snd (snd x)) xs)"
    and "takeWhile (due now (ctxs s)) (map fst xs) = map fst (filter (\<lambda>x. snd (snd x) \<le> now) xs)"
    and "entries (ctxs s) (map fst (filter Q xs)) = map snd (filter Q xs)"
proof -
  obtain L where L: "dseg (ctxs s) None (map fst xs) None"
    using h by (auto simp: holds_timers_def timers_def)
  have d: "due now (ctxs s) (fst x) \<longleftrightarrow> snd (snd x) \<le> now" if x: "x \<in> set xs" for x
  proof -
    obtain c where "ctxs s (fst x) = Some c"
      using dseg_allocated [OF L, of "fst x"] x by auto
    moreover have "the (map_option payload (ctxs s (fst x))) = snd x"
      using h x by (auto simp: holds_timers_def entries_def)
    ultimately show ?thesis
      by (cases x) (auto simp: due_def payload_def)
  qed
  have s: "sorted (map (\<lambda>x. snd (snd x)) xs)"
    using h by (simp add: holds_timers_def comp_def)
  show "dropWhile (due now (ctxs s)) (map fst xs) = map fst (filter (\<lambda>x. now < snd (snd x)) xs)"
    using d sorted_dropWhile_filter [OF s, of now] by (auto simp: dropWhile_map comp_def cong: dropWhile_cong)
  show "takeWhile (due now (ctxs s)) (map fst xs) = map fst (filter (\<lambda>x. snd (snd x) \<le> now) xs)"
    using d sorted_dropWhile_filter [OF s, of now] by (auto simp: takeWhile_map comp_def cong: takeWhile_cong)
  show "entries (ctxs s) (map fst (filter Q xs)) = map snd (filter Q xs)"
    using h by (auto simp: holds_timers_def entries_def)
qed

lemma holds_timers_HandleTimeout:
  assumes h: "holds_timers P ts s xs clk" and clk: "clk \<le> now"
  shows "\<exists>s'. HandleTimeout (pool_put P) now s = Some (map (fst \<circ> snd) (filter (\<lambda>x. snd (snd x) \<le> now) xs), s')
     \<and> holds_timers P ts s' (filter (\<lambda>x. now < snd (snd x)) xs) now"
proof -
  obtain L where L: "timers (pool_live P) pool_cached s (map fst xs) L"
    using h by (auto simp: holds_timers_def)
  show ?thesis
    using tp.HandleTimeout_ok [OF L, of now] holds_timers_sub [OF h _ _ _ clk]
    unfolding due_filter(1,2) [OF h] by (auto simp: due_filter(3) [OF h])
qed

lemma filter_out_one:
  assumes "distinct (map fst xs)" "xs = ys @ x # zs"
  shows "filter (\<lambda>y. fst y \<noteq> fst x) xs = ys @ zs"
proof -
  have "filter (\<lambda>y. fst y \<noteq> fst x) ys = ys" "filter (\<lambda>y. fst y \<noteq> fst x) zs = zs"
    using assms by (auto simp: filter_id_conv rev_image_eqI)
  then show ?thesis
    using assms(2) by simp
qed

lemma holds_timers_RemoveTimer:
  assumes h: "holds_timers P ts s xs clk" and a: "a \<in> fst ` set xs"
  shows "\<exists>s'. RemoveTimer (pool_put P) (Some a) s = Some s' \<and> holds_timers P ts s' (filter (\<lambda>x. fst x \<noteq> a) xs) clk"
proof -
  obtain L where L: "timers (pool_live P) pool_cached s (map fst xs) L"
    using h by (auto simp: holds_timers_def)
  obtain ys x zs where xs: "xs = ys @ x # zs" "fst x = a"
    using a by (auto dest: split_list)
  have f: "filter (\<lambda>x. fst x \<noteq> a) xs = ys @ zs"
    using filter_out_one [OF _ xs(1)] L xs(2) by (simp add: timers_def)
  have "\<exists>s'. RemoveTimer (pool_put P) (Some a) s = Some s' \<and> timers (pool_live P) pool_cached s' (map fst ys @ map fst zs) (L - {a})
     \<and> entries (ctxs s') (map fst ys @ map fst zs) = entries (ctxs s) (map fst ys @ map fst zs) \<and> timeout_ts s' = timeout_ts s"
    by (rule tp.RemoveTimer_ok) (use L xs in simp)
  then obtain s' where "RemoveTimer (pool_put P) (Some a) s = Some s'" "timers (pool_live P) pool_cached s' (map fst (ys @ zs)) (L - {a})"
    "entries (ctxs s') (map fst (ys @ zs)) = entries (ctxs s) (map fst (ys @ zs))" "timeout_ts s' = timeout_ts s"
    by auto
  then show ?thesis
    using holds_timers_sub [OF h, where Q = "\<lambda>x. fst x \<noteq> a"] unfolding f by blast
qed

lemma holds_timers_AddTimer:
  assumes h: "holds_timers P ts s xs clk" and now: "clk \<le> now" "now \<le> now + ts" and m: "mem_ready P mem (pool s)"
    and add: "AddTimer (get_local_object P) mem now arg s = Some (a, s')"
  shows "holds_timers P ts s' (xs @ [(a, arg, now + ts)]) now"
proof -
  obtain L where L: "timers (pool_live P) pool_cached s (map fst xs) L"
    using h by (auto simp: holds_timers_def)
  obtain b new p' where "get_local_object P mem (pool s) = Some (Some (b, new), p')"
    using add by (auto simp: AddTimer_def split: option.splits)
  then have ok: "timers (pool_live P) pool_cached s' (map fst xs @ [a]) (insert a L)"
    "entries (ctxs s') (map fst xs @ [a]) = entries (ctxs s) (map fst xs) @ [(arg, now + timeout_ts s)]" "timeout_ts s' = timeout_ts s"
    using tp.AddTimer_ok [OF L m, of b new p' now arg] add by auto
  have h': "entries (ctxs s) (map fst xs) = map snd xs" "timeout_ts s = ts" "sorted (map (snd \<circ> snd) xs)"
    and old: "\<forall>x \<in> set xs. \<exists>n \<le> clk. n \<le> n + ts \<and> snd (snd x) = n + ts"
    using h by (auto simp: holds_timers_def)
  have "snd (snd x) \<le> now + ts" if x: "x \<in> set xs" for x
  proof -
    obtain n where "n \<le> clk" "snd (snd x) = n + ts"
      using old x by blast
    moreover have "ts \<le> ts + now"
      using now(2) olen_add_eqv [of now ts] by (simp add: add.commute)
    ultimately show ?thesis
      using word_plus_mono_right [of n now ts] now(1) by (simp add: add.commute)
  qed
  then have "sorted (map (snd \<circ> snd) (xs @ [(a, arg, now + ts)]))"
    using h'(3) by (auto simp: sorted_append)
  moreover have "\<forall>x \<in> set (xs @ [(a, arg, now + ts)]). \<exists>n \<le> now. n \<le> n + ts \<and> snd (snd x) = n + ts"
    using old now by (auto intro: order_trans)
  ultimately show ?thesis
    using ok h'(1,2) unfolding holds_timers_def by auto
qed

lemma timer_reach_holds: "timer_reach P ts t s xs clk \<Longrightarrow> params_ok P \<Longrightarrow> holds_timers P ts s xs clk"
proof (induction rule: timer_reach.induct)
  case start
  then have "pool_live P (TlsObjectPool_init t) {}"
    by (simp add: pool_live_def pool_inv_init) (simp add: TlsObjectPool_init_def)
  then show ?case
    by (auto simp: holds_timers_def timers_def TimerManager_init_def TlsObjectPool_init_def cached_clean_def)
next
  case (add s xs clk now mem arg a s')
  then show ?case using holds_timers_AddTimer by blast
next
  case (remove s xs clk a s')
  then show ?case using holds_timers_RemoveTimer [of P ts s xs clk a] by auto
next
  case (fire s xs clk now fired s')
  then show ?case using holds_timers_HandleTimeout [of P ts s xs clk now] by auto
next
  case (clear s xs clk args s')
  then obtain L where "timers (pool_live P) pool_cached s (map fst xs) L" "timeout_ts s = ts"
    by (auto simp: holds_timers_def)
  then show ?case
    using tp.clear_loop_ok [of P s "map fst xs" L "[]"] clear by (auto simp: holds_timers_def ClearAndGetUserArg_def)
qed

section \<open>What the timer list guarantees\<close>

text \<open>C12: After any history of adding, removing, firing and clearing timers on one thread with a clock that
  does not go back, \<^verbatim>\<open>HandleTimeout\<close> returns, calls the callback for exactly the timers whose deadline has
  passed, in the order in which they were added, and leaves exactly the others.\<close>

theorem timers_fire_when_due:
  assumes "params_ok P" "timer_reach P ts t s xs clk" "clk \<le> now"
  shows "\<exists>s'. HandleTimeout (pool_put P) now s = Some (map (fst \<circ> snd) (filter (\<lambda>x. snd (snd x) \<le> now) xs), s')
     \<and> timer_reach P ts t s' (filter (\<lambda>x. now < snd (snd x)) xs) now"
  using holds_timers_HandleTimeout [OF timer_reach_holds [OF assms(2,1)] assms(3)]
    timer_reach.fire [OF assms(2,3)] by blast

text \<open>After any such history every timer of the list can be removed, wherever it stands, and a following
  \<^verbatim>\<open>ClearAndGetUserArg\<close> returns the arguments of the other timers in order: no timer is lost, duplicated or
  taken from a returned context.\<close>

theorem timer_remove_then_clear:
  assumes "params_ok P" "timer_reach P ts t s xs clk" "a \<in> fst ` set xs"
  shows "\<exists>s' s''. RemoveTimer (pool_put P) (Some a) s = Some s'
     \<and> ClearAndGetUserArg (pool_put P) s' = Some (map (fst \<circ> snd) (filter (\<lambda>x. fst x \<noteq> a) xs), s'')"
proof -
  obtain s' where s': "RemoveTimer (pool_put P) (Some a) s = Some s'" "holds_timers P ts s' (filter (\<lambda>x. fst x \<noteq> a) xs) clk"
    using holds_timers_RemoveTimer [OF timer_reach_holds [OF assms(2,1)] assms(3)] by blast
  let ?ys = "filter (\<lambda>x. fst x \<noteq> a) xs"
  obtain L where "timers (pool_live P) pool_cached s' (map fst ?ys) L" "entries (ctxs s') (map fst ?ys) = map snd ?ys"
    using s'(2) by (auto simp: holds_timers_def)
  then show ?thesis
    using tp.clear_loop_ok [of P s' "map fst ?ys" L "[]"] s'(1) by (auto simp: ClearAndGetUserArg_def)
qed

text \<open>When the pool cannot provide a context (allocation failure, or a thread that is exiting),
  \<^verbatim>\<open>AddTimer\<close> dereferences the null pointer: it does not return.\<close>

theorem add_timer_null_context:
  assumes "get_local_object P mem (pool s) = Some (None, p')"
  shows "AddTimer (get_local_object P) mem now arg s = None"
  using assms by (simp add: AddTimer_def)

theorem add_timer_null_context_witness:
  "get_local_object pool64 None (TlsObjectPool_init 7) = Some (None, TlsObjectPool_init 7)
     \<and> AddTimer (get_local_object pool64) None 5 1 (TimerManager_init 100 (TlsObjectPool_init 7)) = None"
proof -
  have g: "get_local_object pool64 None (TlsObjectPool_init 7) = Some (None, TlsObjectPool_init 7)"
    by (simp add: get_local_object_def get_or_new_object_def TlsObjectPool_init_def)
  then show ?thesis
    using add_timer_null_context [of pool64 None "TimerManager_init 100 (TlsObjectPool_init 7)" "TlsObjectPool_init 7" 5 1]
    by (simp add: TimerManager_init_def)
qed

abbreviation pool32 :: pool_params where
  "pool32 \<equiv> \<lparr> obj_size = 32, chunk_size = 8192, object_num = 255, cache_max = 8192 \<rparr>"

lemma two_timers_reached:
  "\<exists>s. timer_reach pool32 10 7 s [(8208, 1, 15), (8240, 2, 16)] 6"
proof -
  have ok: "params_ok pool32"
    by (simp add: params_ok_def LOCAL_CHUNK_SIZE_def)
  note defs = AddTimer_def get_local_object_def get_or_new_object_def construct_from_def alloc_object_def object_at_def
    LOCAL_CHUNK_SIZE_def TlsObjectPool_init_def TimerManager_init_def obtained_def modify_ctx_def
  let ?i = "TimerManager_init 10 (TlsObjectPool_init 7)"
  obtain s1 where s1: "AddTimer (get_local_object pool32) (Some 8192) 5 1 ?i = Some (8208, s1)"
    "get_local_object pool32 None (pool s1) = Some (Some (8240, True), (pool s1)\<lparr> chunks := [8192 \<mapsto> \<lparr> used_num = Suc (Suc 0), chunk_free_num = 0, tid = 7 \<rparr>] \<rparr>)"
    by (simp add: defs)
  have r1: "timer_reach pool32 10 7 s1 [(8208, 1, 15)] 5"
    using timer_reach.add [OF timer_reach.start _ _ _ s1(1)] by (simp add: mem_ready_def TimerManager_init_def TlsObjectPool_init_def)
  have m: "mem_ready pool32 None (pool s1)"
    by (simp add: mem_ready_def)
  obtain L where L: "timers (pool_live pool32) pool_cached s1 [8208] L"
    using timer_reach_holds [OF r1 ok] by (auto simp: holds_timers_def)
  obtain s2 where "AddTimer (get_local_object pool32) None 6 2 s1 = Some (8240, s2)"
    using tp.AddTimer_ok [OF L m s1(2), of 6 2] by blast
  from timer_reach.add [OF r1 _ _ m this] show ?thesis by auto
qed

theorem timers_fire_when_due_witness:
  "\<exists>s s'. HandleTimeout (pool_put pool32) 15 s = Some ([1], s') \<and> timer_reach pool32 10 7 s' [(8240, 2, 16)] 15"
proof -
  obtain s where "timer_reach pool32 10 7 s [(8208, 1, 15), (8240, 2, 16)] 6"
    using two_timers_reached by blast
  then show ?thesis
    using timers_fire_when_due [of pool32 10 7 s "[(8208, 1, 15), (8240, 2, 16)]" 6 15]
    by (auto simp: params_ok_def LOCAL_CHUNK_SIZE_def)
qed

theorem timer_remove_then_clear_witness:
  "\<exists>s s' s''. RemoveTimer (pool_put pool32) (Some 8208) s = Some s' \<and> ClearAndGetUserArg (pool_put pool32) s' = Some ([2], s'')"
proof -
  obtain s where "timer_reach pool32 10 7 s [(8208, 1, 15), (8240, 2, 16)] 6"
    using two_timers_reached by blast
  then show ?thesis
    using timer_remove_then_clear [of pool32 10 7 s "[(8208, 1, 15), (8240, 2, 16)]" 6 8208]
    by (auto simp: params_ok_def LOCAL_CHUNK_SIZE_def)
qed

end
