(* ===== verification/Err_Simulation.thy ===== *)
theory Err_Simulation
  imports Byte_Order Vesal_Status
begin

text \<open>The simulated errors of \<^verbatim>\<open>src/src/common/err_simulation.{h,cc}\<close>: the state a unit keeps of
  an injected error, how it is consumed, and the 24 byte message that injects it.  \<open>QatErrSimType\<close> is
  the byte of the message, \<open>QatErrSimCode\<close> a signed byte kept as its bit pattern.  The handler of the
  messages is in the theory of the QAT codec, which owns the units.  \<open>UsToDuration\<close> converts
  microseconds to clock ticks with the measured frequency and is an argument.\<close>

unbundle bit_operations_syntax

type_synonym QatErrSimType = u8
type_synonym QatErrSimCode = u8
type_synonym QatErrSimCnt = u64

definition kSubmit :: QatErrSimType where "kSubmit = 1"
definition kPoll :: QatErrSimType where "kPoll = 2"
definition kResult :: QatErrSimType where "kResult = 3"
definition kTypeNum :: QatErrSimType where "kTypeNum = 4"

definition VESAL_QAT_ERR_SIM_OK :: QatErrSimCode where
  "VESAL_QAT_ERR_SIM_OK = 0"

definition VESAL_QAT_ERR_SIM_IS_TIMEOUT :: "QatErrSimCode \<Rightarrow> bool" where
  "VESAL_QAT_ERR_SIM_IS_TIMEOUT code \<longleftrightarrow> code = 6"

definition VESAL_ERR_SIM_UDS_MSG_LEN :: nat where
  "VESAL_ERR_SIM_UDS_MSG_LEN = 24"

definition VESAL_QAT_ERR_SIM_UDS_MAGIC :: "u8 list" where
  "VESAL_QAT_ERR_SIM_UDS_MAGIC = [0x51, 0x44, 0x43]"

definition VESAL_ERR_SIM_UDS_MAGIC_LEN :: nat where
  "VESAL_ERR_SIM_UDS_MAGIC_LEN = 3"

text \<open>The cast back to a status code; \<open>None\<close> is a value outside the range the debug check admits.\<close>

definition QatErrSimCodeToVesalStatusCode :: "QatErrSimCode \<Rightarrow> StatusCode option" where
  "QatErrSimCodeToVesalStatusCode code =
    (if 0 \<le> sint code \<and> sint code \<le> int (code_value kUnknown)
     then Some (GetAllStatusCodes ! unat code) else None)"

section \<open>The simulated error of a unit\<close>

record QatErrSim =
  err_type :: QatErrSimType
  err_code :: QatErrSimCode
  err_cnt :: QatErrSimCnt
  err_hang_until_ts :: u64

definition QatErrSim_Reset :: "QatErrSim \<Rightarrow> QatErrSim" where
  "QatErrSim_Reset e = e\<lparr> err_type := kTypeNum, err_code := VESAL_QAT_ERR_SIM_OK, err_cnt := 0, err_hang_until_ts := 0 \<rparr>"

definition QatErrSim_init :: QatErrSim where
  "QatErrSim_init = QatErrSim_Reset \<lparr> err_type = 0, err_code = 0, err_cnt = 0, err_hang_until_ts = 0 \<rparr>"

definition GetErr :: "u64 \<Rightarrow> QatErrSimType \<Rightarrow> QatErrSim \<Rightarrow> (QatErrSimCode \<times> u64) \<times> QatErrSim" where
  "GetErr now type e =
    (if type \<noteq> err_type e \<or> err_code e = VESAL_QAT_ERR_SIM_OK then ((VESAL_QAT_ERR_SIM_OK, 0), e)
     else
       let code = err_code e;
           e1 = (if VESAL_QAT_ERR_SIM_IS_TIMEOUT code
                 then (if now > err_hang_until_ts e then e\<lparr> err_cnt := 0 \<rparr> else e)
                 else e\<lparr> err_cnt := err_cnt e - 1 \<rparr>);
           e2 = (if err_cnt e1 = 0 then QatErrSim_Reset e1 else e1)
       in ((code, err_hang_until_ts e2), e2))"

definition SetError :: "(u64 \<Rightarrow> u64) \<Rightarrow> u64 \<Rightarrow> QatErrSimType \<Rightarrow> QatErrSimCode \<Rightarrow> QatErrSimCnt \<Rightarrow> QatErrSim \<Rightarrow> QatErrSim" where
  "SetError UsToDuration now type code cnt e =
    e\<lparr> err_type := type, err_code := code, err_cnt := cnt,
       err_hang_until_ts := (if VESAL_QAT_ERR_SIM_IS_TIMEOUT code then now + UsToDuration cnt else 0) \<rparr>"

section \<open>Messages\<close>

definition ntohll :: "bool \<Rightarrow> u64 \<Rightarrow> u64" where
  "ntohll le x = (if le then bswap_64 x else x)"

definition htonll :: "bool \<Rightarrow> u64 \<Rightarrow> u64" where
  "htonll le x = (if le then bswap_64 x else x)"

definition VESAL_QAT_ERR_SIM_SPECIFY_TYPE :: "u8 \<Rightarrow> u8" where
  "VESAL_QAT_ERR_SIM_SPECIFY_TYPE flags = flags AND 0b11"

definition VESAL_QAT_ERR_SIM_OP_TYPE :: "u8 \<Rightarrow> u8" where
  "VESAL_QAT_ERR_SIM_OP_TYPE flags = drop_bit 2 (flags AND 0b100)"

definition PackQatErrSimUdsFlags :: "u8 \<Rightarrow> u8 \<Rightarrow> u8" where
  "PackQatErrSimUdsFlags selection op =
    (let ret = 0 :: u8; ret = ret OR (selection AND 0b11) in ret OR (push_bit 2 op AND 0b100))"

definition PackQatErrSimUdsMsg ::
  "bool \<Rightarrow> u8 \<Rightarrow> u8 \<Rightarrow> u8 \<Rightarrow> u8 \<Rightarrow> QatErrSimType \<Rightarrow> QatErrSimCode \<Rightarrow> QatErrSimCnt \<Rightarrow> u8 list" where
  "PackQatErrSimUdsMsg le flags pf_id vf_id inst_id type code cnt =
    (let msg = replicate VESAL_ERR_SIM_UDS_MSG_LEN 0;
         msg = overwrite 0 VESAL_QAT_ERR_SIM_UDS_MAGIC msg;
         cur = VESAL_ERR_SIM_UDS_MAGIC_LEN;
         msg = msg[cur := flags, cur + 1 := pf_id, cur + 2 := vf_id, cur + 3 := inst_id, cur + 4 := type, cur + 5 := code]
     in overwrite (cur + 6) (mem_bytes le (htonll le cnt)) msg)"

record err_sim_msg =
  m_flags :: u8
  m_pf_id :: u8
  m_vf_id :: u8
  m_inst_id :: u8
  m_type :: QatErrSimType
  m_code :: QatErrSimCode
  m_cnt :: QatErrSimCnt

text \<open>The fields \<^verbatim>\<open>HandleQatErrSim\<close> reads from a message of 24 bytes.\<close>

definition parse_err_sim :: "bool \<Rightarrow> u8 list \<Rightarrow> err_sim_msg" where
  "parse_err_sim le msg =
    (let cur = VESAL_ERR_SIM_UDS_MAGIC_LEN
     in \<lparr> m_flags = msg ! cur, m_pf_id = msg ! (cur + 1), m_vf_id = msg ! (cur + 2), m_inst_id = msg ! (cur + 3),
          m_type = msg ! (cur + 4), m_code = msg ! (cur + 5),
          m_cnt = ntohll le (mem_value le (take 8 (drop (cur + 6) msg))) \<rparr>)"

section \<open>Packing and parsing\<close>

lemma mem_bytes_htonll: "mem_bytes le (htonll le x) = rev (store_le 8 x)"
  by (simp add: mem_bytes_def htonll_def store_bswap)

lemma pack_msg_bytes:
  "PackQatErrSimUdsMsg le flags pf_id vf_id inst_id type code cnt =
    [0x51, 0x44, 0x43, flags, pf_id, vf_id, inst_id, type, code] @ rev (store_le 8 cnt) @ replicate 7 0"
  by (simp add: PackQatErrSimUdsMsg_def mem_bytes_htonll overwrite_def VESAL_ERR_SIM_UDS_MAGIC_LEN_def
      VESAL_ERR_SIM_UDS_MSG_LEN_def VESAL_QAT_ERR_SIM_UDS_MAGIC_def numeral_eq_Suc Let_def del: store_le.simps)

lemma ntohll_mem_value: "ntohll le (mem_value le (rev (store_le 8 x))) = x"
proof -
  have "mem_value le (rev (store_le 8 x)) = htonll le x"
    using mem_value_bytes [of le "htonll le x"] by (simp only: mem_bytes_htonll)
  then show ?thesis
    by (simp add: ntohll_def htonll_def)
qed

lemma parse_pack_msg:
  "parse_err_sim le (PackQatErrSimUdsMsg le flags pf_id vf_id inst_id type code cnt) =
    \<lparr> m_flags = flags, m_pf_id = pf_id, m_vf_id = vf_id, m_inst_id = inst_id, m_type = type, m_code = code, m_cnt = cnt \<rparr>"
proof -
  have "drop 9 (PackQatErrSimUdsMsg le flags pf_id vf_id inst_id type code cnt) = rev (store_le 8 cnt) @ replicate 7 0"
    by (simp add: pack_msg_bytes)
  then have "take 8 (drop 9 (PackQatErrSimUdsMsg le flags pf_id vf_id inst_id type code cnt)) = rev (store_le 8 cnt)"
    by simp
  then show ?thesis
    unfolding parse_err_sim_def Let_def VESAL_ERR_SIM_UDS_MAGIC_LEN_def
    by (simp add: ntohll_mem_value) (simp add: pack_msg_bytes)
qed

lemma specify_type_pack: "VESAL_QAT_ERR_SIM_SPECIFY_TYPE (PackQatErrSimUdsFlags sel op) = sel AND 0b11"
  by (simp add: VESAL_QAT_ERR_SIM_SPECIFY_TYPE_def PackQatErrSimUdsFlags_def bit.conj_disj_distrib2 and.assoc)

lemma op_type_pack: "VESAL_QAT_ERR_SIM_OP_TYPE (PackQatErrSimUdsFlags sel op) = op AND 1"
  by (rule bit_word_eqI) (auto simp: VESAL_QAT_ERR_SIM_OP_TYPE_def PackQatErrSimUdsFlags_def bit_simps)

section \<open>Consuming a simulated error\<close>

primrec get_errs :: "u64 \<Rightarrow> QatErrSimType \<Rightarrow> nat \<Rightarrow> QatErrSim \<Rightarrow> (QatErrSimCode \<times> u64) list" where
  "get_errs now type 0 e = []"
| "get_errs now type (Suc n) e = (let (r, e') = GetErr now type e in r # get_errs now type n e')"

lemma get_errs_reset: "err_code e = VESAL_QAT_ERR_SIM_OK \<Longrightarrow> get_errs now type n e = replicate n (VESAL_QAT_ERR_SIM_OK, 0)"
  by (induction n) (simp_all add: GetErr_def)

lemma get_errs_counted:
  assumes "err_type e = type" "err_code e \<noteq> VESAL_QAT_ERR_SIM_OK" "\<not> VESAL_QAT_ERR_SIM_IS_TIMEOUT (err_code e)"
    "err_hang_until_ts e = 0" "unat (err_cnt e) = Suc n"
  shows "get_errs now type k e = replicate (min k (Suc n)) (err_code e, 0) @ replicate (k - Suc n) (VESAL_QAT_ERR_SIM_OK, 0)"
  using assms
proof (induction n arbitrary: e k)
  case 0
  then have "err_cnt e = 1"
    by (simp add: word_unat_eq_iff)
  then have "GetErr now type e = ((err_code e, 0), QatErrSim_Reset (e\<lparr> err_cnt := 0 \<rparr>))"
    using 0 by (simp add: GetErr_def QatErrSim_Reset_def)
  then show ?case
    by (cases k) (simp_all add: get_errs_reset QatErrSim_Reset_def)
next
  case (Suc n)
  have cnt: "unat (err_cnt e - 1) = Suc n"
    using Suc.prems(5) by (simp add: unat_minus_one unat_gt_0 flip: unat_eq_zero)
  then have nz: "err_cnt e - 1 \<noteq> 0"
    by auto
  have "GetErr now type e = ((err_code e, 0), e\<lparr> err_cnt := err_cnt e - 1 \<rparr>)"
    using Suc.prems nz by (simp add: GetErr_def)
  then show ?case
    using Suc.IH [of "e\<lparr> err_cnt := err_cnt e - 1 \<rparr>"] Suc.prems cnt by (cases k) simp_all
qed

text \<open>An injected error that is not a timeout is reported by exactly the next \<open>cnt\<close> queries of its
  type, and every later query reports success, until another error is injected.\<close>

theorem injected_error_count:
  assumes "code \<noteq> VESAL_QAT_ERR_SIM_OK" "\<not> VESAL_QAT_ERR_SIM_IS_TIMEOUT code" "cnt \<noteq> 0"
  shows "get_errs now type k (SetError UsToDuration t type code cnt e) =
    replicate (min k (unat cnt)) (code, 0) @ replicate (k - unat cnt) (VESAL_QAT_ERR_SIM_OK, 0)"
proof -
  obtain n where n: "unat cnt = Suc n"
    using assms(3) by (metis not0_implies_Suc unat_eq_zero)
  then show ?thesis
    using get_errs_counted [of "SetError UsToDuration t type code cnt e" type n now k] assms
    by (simp add: SetError_def)
qed

theorem injected_error_count_witness:
  "get_errs 9 kSubmit 3 (SetError id 5 kSubmit 4 2 QatErrSim_init) = [(4, 0), (4, 0), (VESAL_QAT_ERR_SIM_OK, 0)]"
  using injected_error_count [of 4 2 9 kSubmit 3 id 5 QatErrSim_init]
  by (simp add: VESAL_QAT_ERR_SIM_OK_def VESAL_QAT_ERR_SIM_IS_TIMEOUT_def) (simp add: numeral_2_eq_2)

text \<open>A simulated hang is reported with its end time while it lasts.  The query that first finds it
  over still reports the timeout code, but with the time 0 instead of the end of the hang, because the state
  is reset before it is read; afterwards queries report success.\<close>

theorem simulated_hang:
  assumes "until = t + UsToDuration cnt" "cnt \<noteq> 0" "e' = SetError UsToDuration t type 6 cnt e"
  shows "(now \<le> until \<longrightarrow> GetErr now type e' = ((6, until), e'))
    \<and> (until < now \<longrightarrow> get_errs now type (Suc k) e' = (6, 0) # replicate k (VESAL_QAT_ERR_SIM_OK, 0))"
proof -
  have e': "err_type e' = type" "err_code e' = 6" "err_cnt e' = cnt" "err_hang_until_ts e' = until"
    using assms by (simp_all add: SetError_def VESAL_QAT_ERR_SIM_IS_TIMEOUT_def)
  then show ?thesis
    using assms(2) by (auto simp: GetErr_def VESAL_QAT_ERR_SIM_OK_def VESAL_QAT_ERR_SIM_IS_TIMEOUT_def
        QatErrSim_Reset_def get_errs_reset)
qed

theorem simulated_hang_witness:
  "GetErr 20 kResult (SetError (\<lambda>us. 2 * us) 10 kResult 6 5 QatErrSim_init) =
     ((6, 20), SetError (\<lambda>us. 2 * us) 10 kResult 6 5 QatErrSim_init)
   \<and> get_errs 21 kResult 1 (SetError (\<lambda>us. 2 * us) 10 kResult 6 5 QatErrSim_init) = [(6, 0)]"
  using simulated_hang [of 20 10 "\<lambda>us. 2 * us" 5 _ kResult QatErrSim_init 20 0]
    simulated_hang [of 20 10 "\<lambda>us. 2 * us" 5 _ kResult QatErrSim_init 21 0] by simp

text \<open>The fields of a packed message are read back unchanged on hosts of either byte order, and the
  selection and operation packed into the flag byte are recovered.\<close>

theorem err_sim_message_roundtrip:
  "parse_err_sim le (PackQatErrSimUdsMsg le (PackQatErrSimUdsFlags sel op) pf_id vf_id inst_id type code cnt) =
     \<lparr> m_flags = PackQatErrSimUdsFlags sel op, m_pf_id = pf_id, m_vf_id = vf_id, m_inst_id = inst_id,
       m_type = type, m_code = code, m_cnt = cnt \<rparr>
   \<and> VESAL_QAT_ERR_SIM_SPECIFY_TYPE (PackQatErrSimUdsFlags sel op) = sel AND 0b11
   \<and> VESAL_QAT_ERR_SIM_OP_TYPE (PackQatErrSimUdsFlags sel op) = op AND 1"
  by (simp add: parse_pack_msg specify_type_pack op_type_pack)

end
