(* ===== verification/Qat_Unit.thy ===== *)
theory Qat_Unit
  imports Err_Simulation
begin

text \<open>A QAT instance of the driver as the library sees it, \<^verbatim>\<open>src/src/common/qat/qat_unit.{h,cc}\<close>:
  its attributes, its start sequence, its reference count and blacklist mark, and the simulated error
  attached to it.  The driver is a record of functions that give the status and the data each call returns
  for an instance handle.  Attributes that were never queried hold whatever the memory held: the constructor
  takes them as an argument.\<close>

unbundle bit_operations_syntax

datatype UnitType = kDc | kCy | kUnitTypeNum

record CpaDcInstanceCapabilities =
  statelessLZ4Compression :: bool
  statelessLZ4Decompression :: bool
  statelessDeflateCompression :: bool
  statelessDeflateDecompression :: bool
  statelessLZ4SCompression :: bool
  checksumXXHash32 :: bool
  checksumAdler32 :: bool
  compressAndVerify :: bool
  compressAndVerifyAndRecover :: bool

record CpaInstanceInfo2 =
  partName :: string
  instName :: string
  busAddress :: u16
  requiresPhysicallyContiguousMemory :: bool
  nodeAffinity :: int
  isPolled :: bool

record qat_driver =
  cyQueryCapabilities :: "nat \<Rightarrow> int \<times> bool"
  cySymQueryCapabilities :: "nat \<Rightarrow> int \<times> bool"
  dcQueryCapabilities :: "nat \<Rightarrow> int \<times> CpaDcInstanceCapabilities"
  instanceGetInfo2 :: "UnitType \<Rightarrow> nat \<Rightarrow> int \<times> CpaInstanceInfo2"
  setAddressTranslation :: "UnitType \<Rightarrow> nat \<Rightarrow> int"
  startInstance :: "UnitType \<Rightarrow> nat \<Rightarrow> int"
  stopInstance :: "UnitType \<Rightarrow> nat \<Rightarrow> int"
  getNumInstances :: "UnitType \<Rightarrow> int \<times> u16"
  getInstances :: "UnitType \<Rightarrow> nat \<Rightarrow> int \<times> nat list"

record QatUnitAttr =
  part_name :: string
  instance_id :: string
  device_id :: u32
  function_id :: u32
  inst_id :: u32
  numa_hint :: int
  is_polled :: bool
  is_crc_supp :: bool
  is_phys_contiguous_mem_required :: bool
  is_lz4_compression :: bool
  is_lz4_decompression :: bool
  is_zstd_compression :: bool
  is_zstd_decompression :: bool
  is_deflate_compression :: bool
  is_deflate_decompression :: bool
  is_aes_xts_supp :: bool

record QatUnit =
  cpa_instance_handle :: nat
  qat_unit_attr :: QatUnitAttr
  unit_type :: UnitType
  in_use_thread_name :: string
  ref_cnt :: int
  blacklisted :: bool
  qat_err_sim :: QatErrSim

definition QatUnit_new :: "QatUnitAttr \<Rightarrow> nat \<Rightarrow> UnitType \<Rightarrow> QatUnit" where
  "QatUnit_new attr0 inst_hdl ut =
    \<lparr> cpa_instance_handle = inst_hdl,
      qat_unit_attr = attr0\<lparr> part_name := ''4xxxvf'', instance_id := '''', is_aes_xts_supp := False \<rparr>,
      unit_type = ut, in_use_thread_name = '''', ref_cnt = 0, blacklisted = False, qat_err_sim = QatErrSim_init \<rparr>"

section \<open>Accessors and marks\<close>

definition GetNumaId :: "QatUnit \<Rightarrow> int" where
  "GetNumaId u = numa_hint (qat_unit_attr u)"

definition GetDeviceId :: "QatUnit \<Rightarrow> int" where
  "GetDeviceId u = sint (device_id (qat_unit_attr u))"

definition GetFunctionId :: "QatUnit \<Rightarrow> int" where
  "GetFunctionId u = sint (function_id (qat_unit_attr u))"

definition GetInstId :: "QatUnit \<Rightarrow> int" where
  "GetInstId u = sint (inst_id (qat_unit_attr u))"

definition SvmEnabled :: "QatUnit \<Rightarrow> bool" where
  "SvmEnabled u \<longleftrightarrow> \<not> is_phys_contiguous_mem_required (qat_unit_attr u)"

text \<open>\<open>name\<close> is the name of the calling thread.\<close>

definition SetThreadName :: "string \<Rightarrow> QatUnit \<Rightarrow> QatUnit" where
  "SetThreadName name u = u\<lparr> in_use_thread_name := name \<rparr>"

definition ClearThreadName :: "QatUnit \<Rightarrow> QatUnit" where
  "ClearThreadName u = u\<lparr> in_use_thread_name := '''' \<rparr>"

definition IsInUse :: "QatUnit \<Rightarrow> bool" where
  "IsInUse u \<longleftrightarrow> ref_cnt u > 0"

definition IncRefCnt :: "QatUnit \<Rightarrow> QatUnit" where
  "IncRefCnt u = u\<lparr> ref_cnt := ref_cnt u + 1 \<rparr>"

definition DecRefCnt :: "QatUnit \<Rightarrow> QatUnit" where
  "DecRefCnt u = u\<lparr> ref_cnt := ref_cnt u - 1 \<rparr>"

definition ResetRefCnt :: "QatUnit \<Rightarrow> QatUnit" where
  "ResetRefCnt u = u\<lparr> ref_cnt := 0 \<rparr>"

definition MarkBlacklist :: "QatUnit \<Rightarrow> QatUnit" where
  "MarkBlacklist u = u\<lparr> blacklisted := True \<rparr>"

definition UnMarkBlacklist :: "QatUnit \<Rightarrow> QatUnit" where
  "UnMarkBlacklist u = u\<lparr> blacklisted := False \<rparr>"

definition IsInBlackList :: "QatUnit \<Rightarrow> bool" where
  "IsInBlackList u \<longleftrightarrow> blacklisted u"

definition Usable :: "QatUnit \<Rightarrow> bool" where
  "Usable u \<longleftrightarrow> \<not> IsInBlackList u \<and> \<not> IsInUse u"

definition ResetContext :: "QatUnit \<Rightarrow> QatUnit" where
  "ResetContext u = ClearThreadName (ResetRefCnt (UnMarkBlacklist u))"

definition SetQatErrSim :: "(u64 \<Rightarrow> u64) \<Rightarrow> u64 \<Rightarrow> QatErrSimType \<Rightarrow> QatErrSimCode \<Rightarrow> QatErrSimCnt \<Rightarrow> QatUnit \<Rightarrow> QatUnit" where
  "SetQatErrSim UsToDuration now type code cnt u =
    u\<lparr> qat_err_sim := SetError UsToDuration now type code cnt (qat_err_sim u) \<rparr>"

definition GetQatErrSim :: "u64 \<Rightarrow> QatErrSimType \<Rightarrow> QatUnit \<Rightarrow> (QatErrSimCode \<times> u64) \<times> QatUnit" where
  "GetQatErrSim now type u = (let (r, e) = GetErr now type (qat_err_sim u) in (r, u\<lparr> qat_err_sim := e \<rparr>))"

section \<open>Starting a unit\<close>

definition kSupportedQatModelName :: "string list" where
  "kSupportedQatModelName = [''4xxx'', ''4xxxvf'', ''200xx'', ''200xxvf'']"

definition IsModelSupported :: "string \<Rightarrow> bool" where
  "IsModelSupported name \<longleftrightarrow> list_ex (\<lambda>s. name = s) kSupportedQatModelName"

definition is_digit :: "char \<Rightarrow> bool" where
  "is_digit c \<longleftrightarrow> of_char CHR ''0'' \<le> (of_char c :: nat) \<and> (of_char c :: nat) \<le> of_char CHR ''9''"

definition digit_value :: "char \<Rightarrow> int" where
  "digit_value c = of_char c - of_char CHR ''0''"

text \<open>The loop runs over the characters from the last one; the argument is the reversed name.\<close>

fun int_at_end_loop :: "string \<Rightarrow> int \<Rightarrow> int" where
  "int_at_end_loop [] num = num"
| "int_at_end_loop (c # cs) num =
    (if is_digit c then int_at_end_loop cs (num * 10 + digit_value c) else num)"

definition IntAtTheEnd :: "string \<Rightarrow> int" where
  "IntAtTheEnd s = int_at_end_loop (rev s) 0"

text \<open>Decimal digits of \<^verbatim>\<open>std::to_string\<close>.\<close>

fun to_string :: "nat \<Rightarrow> string" where
  "to_string n = (if n < 10 then [char_of (48 + n)] else to_string (n div 10) @ [char_of (48 + n mod 10)])"

declare to_string.simps [simp del]

definition QueryCapabilities :: "qat_driver \<Rightarrow> QatUnit \<Rightarrow> Status \<times> QatUnit" where
  "QueryCapabilities drv u =
    (if unit_type u = kCy then
         let (st, symSupported) = cyQueryCapabilities drv (cpa_instance_handle u) in
         if st \<noteq> 0 then (CpaStatusToVesalStatus st ''Fail to cpaCyQueryCapabilities'', u)
         else if symSupported then
           let (st, xts) = cySymQueryCapabilities drv (cpa_instance_handle u) in
           if st \<noteq> 0 then (CpaStatusToVesalStatus st ''Fail to cpaCySymQueryCapabilities'', u)
           else if xts then (OkStatus, u\<lparr> qat_unit_attr := (qat_unit_attr u)\<lparr> is_aes_xts_supp := True \<rparr> \<rparr>)
           else (StatusCodeToStatus kNotSupported ''Not supported aes xts'', u)
         else (StatusCodeToStatus kNotSupported ''Not supported sym'', u)
     else
         let (st, caps) = dcQueryCapabilities drv (cpa_instance_handle u) in
         if st \<noteq> 0 then (CpaStatusToVesalStatus st ''Fail to cpaDcQueryCapabilities'', u)
         else if \<not> statelessLZ4Compression caps \<or> \<not> statelessLZ4Decompression caps
              \<or> \<not> statelessDeflateCompression caps \<or> \<not> statelessDeflateDecompression caps
              \<or> \<not> statelessLZ4SCompression caps \<or> \<not> checksumXXHash32 caps \<or> \<not> checksumAdler32 caps
              \<or> \<not> compressAndVerify caps \<or> \<not> compressAndVerifyAndRecover caps
         then (StatusCodeToStatus kNotSupported (''QAT Capability check failed. Vesal requires all capabilities of LZ4, LZ4S, ''
           @ ''Deflate, XXHash32, Adler32, CompressAndVerify, CompressAndVerifyAndRecover''), u)
         else
           (OkStatus,
            u\<lparr> qat_unit_attr := (qat_unit_attr u)\<lparr>
                 is_lz4_compression := statelessLZ4Compression caps,
                 is_lz4_decompression := statelessLZ4Decompression caps,
                 is_zstd_compression := statelessLZ4SCompression caps,
                 is_zstd_decompression := False,
                 is_deflate_compression := statelessDeflateCompression caps,
                 is_deflate_decompression := statelessDeflateDecompression caps,
                 is_crc_supp := checksumXXHash32 caps \<and> checksumAdler32 caps \<rparr> \<rparr>))"

definition QueryInformation :: "qat_driver \<Rightarrow> QatUnit \<Rightarrow> Status \<times> QatUnit" where
  "QueryInformation drv u =
    (let (st, info2) = instanceGetInfo2 drv (unit_type u) (cpa_instance_handle u) in
     if st \<noteq> 0 then (CpaStatusToVesalStatus st ''Fail to CpaInstanceInfo2'', u)
     else
       let name = takeWhile (\<lambda>c. c \<noteq> CHR '' '') (partName info2);
           u1 = u\<lparr> qat_unit_attr := (qat_unit_attr u)\<lparr> part_name := name \<rparr> \<rparr> in
       if \<not> IsModelSupported name then (StatusCodeToStatus kNotSupported (''Not supported qat model: '' @ name), u1)
       else
         let fid = ucast (busAddress info2 AND 0xff) in
         (OkStatus,
          u1\<lparr> qat_unit_attr := (qat_unit_attr u1)\<lparr>
                inst_id := word_of_int (IntAtTheEnd (instName info2)),
                function_id := fid,
                device_id := ucast (drop_bit 8 (busAddress info2)),
                instance_id := to_string (unat fid) @ ''.'' @ instName info2,
                is_phys_contiguous_mem_required := requiresPhysicallyContiguousMemory info2,
                numa_hint := nodeAffinity info2,
                is_polled := isPolled info2 \<rparr> \<rparr>))"

definition QatUnit_Start :: "qat_driver \<Rightarrow> QatUnit \<Rightarrow> Status \<times> QatUnit" where
  "QatUnit_Start drv u =
    (let (st, u) = QueryCapabilities drv u in
     if \<not> status_ok st then (st, u)
     else
       let (st, u) = QueryInformation drv u in
       if \<not> status_ok st then (st, u)
       else
         let cpa_st = setAddressTranslation drv (unit_type u) (cpa_instance_handle u) in
         if cpa_st \<noteq> 0
         then (CpaStatusToVesalStatus cpa_st ''Fail to cpaDcSetAddressTranslation'', u)
         else
           let cpa_st = startInstance drv (unit_type u) (cpa_instance_handle u) in
           if cpa_st \<noteq> 0
           then (CpaStatusToVesalStatus cpa_st ''Fail to cpaDcStartInstance'', u)
           else (OkStatus, u))"

definition QatUnit_Stop :: "qat_driver \<Rightarrow> QatUnit \<Rightarrow> Status" where
  "QatUnit_Stop drv u =
    (let cpa_st = stopInstance drv (unit_type u) (cpa_instance_handle u) in
     if cpa_st \<noteq> 0 then CpaStatusToVesalStatus cpa_st ''Fail to cpaDcStopInstance''
     else OkStatus)"

section \<open>A started unit\<close>

definition dc_capable :: "CpaDcInstanceCapabilities \<Rightarrow> bool" where
  "dc_capable caps \<longleftrightarrow> statelessLZ4Compression caps \<and> statelessLZ4Decompression caps
     \<and> statelessDeflateCompression caps \<and> statelessDeflateDecompression caps \<and> statelessLZ4SCompression caps
     \<and> checksumXXHash32 caps \<and> checksumAdler32 caps \<and> compressAndVerify caps \<and> compressAndVerifyAndRecover caps"

lemma QueryCapabilities_keeps:
  assumes "QueryCapabilities drv u = (st, u')"
  shows "cpa_instance_handle u' = cpa_instance_handle u" "unit_type u' = unit_type u" "ref_cnt u' = ref_cnt u"
    "blacklisted u' = blacklisted u" "qat_err_sim u' = qat_err_sim u"
  using assms by (auto simp: QueryCapabilities_def Let_def split: if_splits prod.splits)

lemma QueryInformation_keeps:
  assumes "QueryInformation drv u = (st, u')"
  shows "cpa_instance_handle u' = cpa_instance_handle u" "unit_type u' = unit_type u" "ref_cnt u' = ref_cnt u"
    "blacklisted u' = blacklisted u" "qat_err_sim u' = qat_err_sim u"
  using assms by (auto simp: QueryInformation_def Let_def split: if_splits prod.splits)

lemma QatUnit_Start_keeps:
  assumes "QatUnit_Start drv u = (st, u')"
  shows "ref_cnt u' = ref_cnt u" "blacklisted u' = blacklisted u" "qat_err_sim u' = qat_err_sim u"
  using assms QueryCapabilities_keeps QueryInformation_keeps
  by (auto simp: QatUnit_Start_def Let_def split: if_splits prod.splits)

lemma bus_device: "sint (ucast (drop_bit 8 b) :: u32) = uint b div 256" for b :: u16
proof -
  have "uint (ucast (drop_bit 8 b) :: u32) = uint b div 256"
    by (simp add: uint_up_ucast is_up drop_bit_eq_div uint_div)
  moreover have "uint b div 256 < 2 ^ 31"
    using uint_lt2p [of b] by simp
  ultimately show ?thesis
    by (simp add: sint_u32_small)
qed

lemma bus_function: "sint (ucast (b AND 0xff) :: u32) = uint b mod 256" for b :: u16
proof -
  have "b AND 0xff = take_bit 8 b"
    by (simp add: take_bit_eq_mask mask_eq_exp_minus_1)
  then have "uint (ucast (b AND 0xff) :: u32) = uint b mod 256"
    by (simp add: uint_up_ucast is_up take_bit_eq_mod uint_mod)
  moreover have "uint b mod 256 < 2 ^ 31"
    using pos_mod_bound [of 256 "uint b"] by simp
  ultimately show ?thesis
    by (simp add: sint_u32_small)
qed

text \<open>A compression unit starts successfully only on a supported model whose instance has every
  capability the library needs, and after the driver accepted the address translation and the start; its
  device and function ids are then the two bytes of the instance's bus address.\<close>

theorem QatUnit_Start_ok:
  assumes "QatUnit_Start drv u = (st, u')" "status_ok st" "unit_type u = kDc"
    "instanceGetInfo2 drv kDc (cpa_instance_handle u) = (s2, info)" "dcQueryCapabilities drv (cpa_instance_handle u) = (s1, caps)"
  shows "dc_capable caps \<and> IsModelSupported (part_name (qat_unit_attr u')) \<and> s1 = 0 \<and> s2 = 0
     \<and> setAddressTranslation drv kDc (cpa_instance_handle u) = 0 \<and> startInstance drv kDc (cpa_instance_handle u) = 0
     \<and> GetDeviceId u' = uint (busAddress info) div 256 \<and> GetFunctionId u' = uint (busAddress info) mod 256"
  using assms
  by (auto simp: QatUnit_Start_def QueryCapabilities_def QueryInformation_def Let_def dc_capable_def GetDeviceId_def
      GetFunctionId_def bus_device bus_function split: if_splits prod.splits)

definition idle_driver :: qat_driver where
  "idle_driver =
    \<lparr> cyQueryCapabilities = \<lambda>h. (0, True), cySymQueryCapabilities = \<lambda>h. (0, True),
      dcQueryCapabilities = \<lambda>h. (0, \<lparr> statelessLZ4Compression = True, statelessLZ4Decompression = True,
        statelessDeflateCompression = True, statelessDeflateDecompression = True, statelessLZ4SCompression = True,
        checksumXXHash32 = True, checksumAdler32 = True, compressAndVerify = True, compressAndVerifyAndRecover = True \<rparr>),
      instanceGetInfo2 = \<lambda>t h. (0, \<lparr> partName = ''4xxxvf QAT'', instName = ''Dc0'', busAddress = 0x7501,
        requiresPhysicallyContiguousMemory = False, nodeAffinity = 0, isPolled = True \<rparr>),
      setAddressTranslation = \<lambda>t h. 0, startInstance = \<lambda>t h. 0, stopInstance = \<lambda>t h. 0,
      getNumInstances = \<lambda>t. (0, 2), getInstances = \<lambda>t n. (0, [10, 11]) \<rparr>"

theorem QatUnit_Start_ok_witness:
  "\<forall>attr0. let (st, u') = QatUnit_Start idle_driver (QatUnit_new attr0 10 kDc)
     in status_ok st \<and> GetDeviceId u' = 0x75 \<and> GetFunctionId u' = 1"
proof
  fix attr0
  obtain st u' where s: "QatUnit_Start idle_driver (QatUnit_new attr0 10 kDc) = (st, u')"
    by (metis surj_pair)
  have ok: "status_ok st"
    using s by (auto simp: QatUnit_Start_def QueryCapabilities_def QueryInformation_def Let_def idle_driver_def
        QatUnit_new_def IsModelSupported_def kSupportedQatModelName_def)
  show "let (st, u') = QatUnit_Start idle_driver (QatUnit_new attr0 10 kDc)
     in status_ok st \<and> GetDeviceId u' = 0x75 \<and> GetFunctionId u' = 1"
    using QatUnit_Start_ok [OF s ok _ prod.collapse [symmetric] prod.collapse [symmetric]] s ok
    by (simp add: QatUnit_new_def idle_driver_def)
qed

text \<open>\<^verbatim>\<open>IntAtTheEnd\<close> reads the decimal digits at the end of an instance name from the last to the
  first, so the number it returns is the one with the digits reversed: \<^verbatim>\<open>Dc12\<close> gets the id 21, and \<^verbatim>\<open>Dc1\<close> and
  \<^verbatim>\<open>Dc10\<close> get the same id.\<close>

theorem IntAtTheEnd_reads_backwards:
  assumes "list_all is_digit ds" "name = [] \<or> \<not> is_digit (last name)"
  shows "IntAtTheEnd (name @ ds) = foldl (\<lambda>n c. n * 10 + digit_value c) 0 (rev ds)"
proof -
  have stop: "int_at_end_loop (rev name) n = n" for n
    using assms(2) by (cases name rule: rev_cases) auto
  have "int_at_end_loop (cs @ rev name) n = foldl (\<lambda>n c. n * 10 + digit_value c) n cs" if "list_all is_digit cs" for cs n
    using that by (induction cs arbitrary: n) (simp_all add: stop)
  then show ?thesis
    using assms(1) by (simp add: IntAtTheEnd_def list_all_iff)
qed

theorem IntAtTheEnd_reads_backwards_witness:
  "IntAtTheEnd ''Dc12'' = 21 \<and> IntAtTheEnd ''Dc10'' = IntAtTheEnd ''Dc1''"
  using IntAtTheEnd_reads_backwards [of "''12''" "''Dc''"] IntAtTheEnd_reads_backwards [of "''10''" "''Dc''"]
    IntAtTheEnd_reads_backwards [of "''1''" "''Dc''"]
  by (simp add: is_digit_def digit_value_def)

end
