(* ===== verification/Qat_Unit_Manager.thy ===== *)
theory Qat_Unit_Manager
  imports Qat_Unit
begin

text \<open>The manager of all QAT units, \<^verbatim>\<open>src/src/common/qat/qat_unit_manager.{h,cc}\<close>.  A unit is named by
  its position in \<open>all_units\<close>.  Every operation holds the manager's mutex, so concurrent channels act on it
  one operation at a time; \<open>thread\<close> is the name of the calling thread.  \<open>None\<close> as the result of an
  operation is the use of an end iterator or of a pointer that is not a unit.\<close>

record QatUnitSelection =
  sel_numa_id :: int
  sel_pf_id :: int
  sel_vf_id :: int
  sel_inst_id :: int

definition QatUnitSelection_default :: QatUnitSelection where
  "QatUnitSelection_default = \<lparr> sel_numa_id = -1, sel_pf_id = -1, sel_vf_id = -1, sel_inst_id = -1 \<rparr>"

record QatUnitManager =
  unit_num :: u16
  all_units :: "QatUnit list"
  pf_in_use_cnt :: "int \<rightharpoonup> int"

definition QatUnitManager_new :: QatUnitManager where
  "QatUnitManager_new = \<lparr> unit_num = 0, all_units = [], pf_in_use_cnt = Map.empty \<rparr>"

section \<open>Starting and stopping\<close>

fun start_units :: "qat_driver \<Rightarrow> UnitType \<Rightarrow> (nat \<times> QatUnitAttr) list \<Rightarrow> nat \<Rightarrow> QatUnitManager \<Rightarrow> nat \<times> QatUnitManager" where
  "start_units drv ut [] succ_num m = (succ_num, m)"
| "start_units drv ut ((h, attr0) # hs) succ_num m =
    (let (r, u) = QatUnit_Start drv (QatUnit_new attr0 h ut) in
     if \<not> status_ok r
     then start_units drv ut hs succ_num (m\<lparr> all_units := all_units m @ [MarkBlacklist u] \<rparr>)
     else start_units drv ut hs (succ_num + 1)
            (m\<lparr> pf_in_use_cnt := (pf_in_use_cnt m)(GetDeviceId u \<mapsto> 0), all_units := all_units m @ [u] \<rparr>))"

text \<open>\<open>mem i\<close> is what the memory of the \<open>i\<close>th unit's attributes holds before it is queried.\<close>

definition QatUnitManager_Init ::
  "qat_driver \<Rightarrow> (nat \<Rightarrow> QatUnitAttr) \<Rightarrow> UnitType \<Rightarrow> QatUnitManager \<Rightarrow> Status \<times> QatUnitManager" where
  "QatUnitManager_Init drv mem ut m =
    (let (st, n) = getNumInstances drv ut; m = m\<lparr> unit_num := n \<rparr> in
     if st \<noteq> 0 then (CpaStatusToVesalStatus st ''Get qat instance num failed'', m)
     else if n = 0 then (StatusCodeToStatus kHardwareError ''No qat instances found for the section'', m)
     else
       let (st, handles) = getInstances drv ut (unat n) in
       if st \<noteq> 0 then (CpaStatusToVesalStatus st ''Get qat instance handles failed'', m)
       else
         let (succ_num, m) = start_units drv ut (map (\<lambda>i. (handles ! i, mem i)) [0..<unat n]) 0 m
         in (if succ_num > 0 then OkStatus else StatusCodeToStatus kResourceBusy ''No qat unit available'', m))"

text \<open>\<^verbatim>\<open>Uninit\<close> stops every unit, resets its context and releases it; failures to stop are only logged.\<close>

definition QatUnitManager_Uninit :: "qat_driver \<Rightarrow> QatUnitManager \<Rightarrow> Status list \<times> QatUnitManager" where
  "QatUnitManager_Uninit drv m =
    (map (QatUnit_Stop drv) (all_units m),
     m\<lparr> pf_in_use_cnt := Map.empty, all_units := [], unit_num := 0 \<rparr>)"

section \<open>Selecting units\<close>

definition FitSelection :: "QatUnitSelection \<Rightarrow> QatUnit \<Rightarrow> bool" where
  "FitSelection sel u \<longleftrightarrow>
    (let ret = True;
         ret = (ret \<and> (sel_numa_id sel < 0 \<or> sel_numa_id sel = GetNumaId u));
         ret = (ret \<and> (sel_pf_id sel < 0 \<or> sel_pf_id sel = GetDeviceId u));
         ret = (ret \<and> (sel_vf_id sel < 0 \<or> sel_vf_id sel = GetFunctionId u));
         ret = (ret \<and> (sel_inst_id sel < 0 \<or> sel_inst_id sel = GetInstId u))
     in ret)"

definition LookupUnits :: "QatUnitSelection \<Rightarrow> QatUnitManager \<Rightarrow> nat list" where
  "LookupUnits sel m = filter (\<lambda>i. FitSelection sel (all_units m ! i)) [0..<length (all_units m)]"

text \<open>The loop of \<^verbatim>\<open>GrabAvailableUnit\<close>; \<open>i\<close> is the position of the first unit of the list.\<close>

fun grab_loop :: "QatUnitSelection \<Rightarrow> (int \<rightharpoonup> int) \<Rightarrow> QatUnit list \<Rightarrow> nat \<Rightarrow> nat option \<Rightarrow> int \<Rightarrow> nat option option" where
  "grab_loop sel cnts [] i ret pf_id_cnt = Some ret"
| "grab_loop sel cnts (u # us) i ret pf_id_cnt =
    (if Usable u \<and> FitSelection sel u then
       (case cnts (GetDeviceId u) of
          None \<Rightarrow> None
        | Some cnt \<Rightarrow>
            if ret = None \<or> cnt < pf_id_cnt then grab_loop sel cnts us (i + 1) (Some i) cnt
            else grab_loop sel cnts us (i + 1) ret pf_id_cnt)
     else grab_loop sel cnts us (i + 1) ret pf_id_cnt)"

text \<open>\<^verbatim>\<open>operator[]\<close> of the map creates a missing entry with value 0.\<close>

definition at_or_zero :: "(int \<rightharpoonup> int) \<Rightarrow> int \<Rightarrow> int" where
  "at_or_zero cnts pf = (case cnts pf of None \<Rightarrow> 0 | Some c \<Rightarrow> c)"

definition touch :: "(int \<rightharpoonup> int) \<Rightarrow> int \<Rightarrow> (int \<rightharpoonup> int)" where
  "touch cnts pf = cnts(pf \<mapsto> at_or_zero cnts pf)"

definition take_unit :: "string \<Rightarrow> nat option \<Rightarrow> QatUnitManager \<Rightarrow> QatUnitManager" where
  "take_unit thread ret m =
    (case ret of
       None \<Rightarrow> m
     | Some i \<Rightarrow>
         let u = SetThreadName thread (IncRefCnt (all_units m ! i)); pf = GetDeviceId u
         in m\<lparr> all_units := (all_units m)[i := u],
               pf_in_use_cnt := (pf_in_use_cnt m)(pf \<mapsto> at_or_zero (pf_in_use_cnt m) pf + 1) \<rparr>)"

definition GrabAvailableUnit :: "string \<Rightarrow> QatUnitSelection \<Rightarrow> QatUnitManager \<Rightarrow> (nat option \<times> QatUnitManager) option" where
  "GrabAvailableUnit thread sel m =
    (case grab_loop sel (pf_in_use_cnt m) (all_units m) 0 None (-1) of
       None \<Rightarrow> None
     | Some ret \<Rightarrow> Some (ret, take_unit thread ret m))"

fun diff_loop :: "int list \<Rightarrow> QatUnit list \<Rightarrow> nat \<Rightarrow> nat option \<Rightarrow> int \<Rightarrow> (int \<rightharpoonup> int) \<Rightarrow> nat option \<times> (int \<rightharpoonup> int)" where
  "diff_loop excluded [] i ret pf_id_cnt cnts = (ret, cnts)"
| "diff_loop excluded (u # us) i ret pf_id_cnt cnts =
    (let pf_id = GetDeviceId u in
     if Usable u \<and> list_all (\<lambda>d. d \<noteq> pf_id) excluded then
       if ret = None \<or> at_or_zero cnts pf_id < pf_id_cnt
       then diff_loop excluded us (i + 1) (Some i) (at_or_zero cnts pf_id) (touch cnts pf_id)
       else diff_loop excluded us (i + 1) ret pf_id_cnt (touch cnts pf_id)
     else diff_loop excluded us (i + 1) ret pf_id_cnt cnts)"

definition GrabFromDiffDevice :: "string \<Rightarrow> nat list \<Rightarrow> QatUnitManager \<Rightarrow> nat option \<times> QatUnitManager" where
  "GrabFromDiffDevice thread excluded_units m =
    (let (ret, cnts) = diff_loop (map (\<lambda>i. GetDeviceId (all_units m ! i)) excluded_units) (all_units m) 0 None (-1) (pf_in_use_cnt m)
     in (ret, take_unit thread ret (m\<lparr> pf_in_use_cnt := cnts \<rparr>)))"

definition release_unit :: "(QatUnit \<Rightarrow> QatUnit) \<Rightarrow> nat \<Rightarrow> QatUnitManager \<Rightarrow> QatUnitManager option" where
  "release_unit f i m =
    (if i < length (all_units m) then
       let u = f (DecRefCnt (all_units m ! i)); pf = GetDeviceId u
       in Some (m\<lparr> all_units := (all_units m)[i := u],
                   pf_in_use_cnt := (pf_in_use_cnt m)(pf \<mapsto> at_or_zero (pf_in_use_cnt m) pf - 1) \<rparr>)
     else None)"

definition PutBackUnit :: "nat option \<Rightarrow> QatUnitManager \<Rightarrow> QatUnitManager option" where
  "PutBackUnit p m = (case p of None \<Rightarrow> Some m | Some i \<Rightarrow> release_unit ClearThreadName i m)"

definition PutBackToBlackList :: "nat option \<Rightarrow> QatUnitManager \<Rightarrow> QatUnitManager option" where
  "PutBackToBlackList p m =
    (case p of None \<Rightarrow> Some m | Some i \<Rightarrow> release_unit (\<lambda>u. ClearThreadName (MarkBlacklist u)) i m)"

text \<open>The devices and their NUMA nodes; the order of the vector is that of an unordered map and is left open.\<close>

definition GetQatDeviceInfos :: "QatUnitManager \<Rightarrow> (int \<rightharpoonup> int)" where
  "GetQatDeviceInfos m = foldl (\<lambda>pf_to_numa u. pf_to_numa(GetDeviceId u \<mapsto> GetNumaId u)) Map.empty (all_units m)"

section \<open>The loops choose a least busy candidate\<close>

lemmas unit_ops = SetThreadName_def IncRefCnt_def DecRefCnt_def ClearThreadName_def MarkBlacklist_def
  GetDeviceId_def GetNumaId_def GetFunctionId_def GetInstId_def

text \<open>\<open>least_busy C busy us r\<close>: \<open>r\<close> is the position of a unit satisfying \<open>C\<close> with the least
  load, or nothing when no unit satisfies \<open>C\<close>.\<close>

definition least_busy :: "(QatUnit \<Rightarrow> bool) \<Rightarrow> (QatUnit \<Rightarrow> int) \<Rightarrow> QatUnit list \<Rightarrow> nat option \<Rightarrow> bool" where
  "least_busy C busy us r \<longleftrightarrow>
    (case r of
       None \<Rightarrow> \<forall>u \<in> set us. \<not> C u
     | Some i \<Rightarrow> i < length us \<and> C (us ! i) \<and> (\<forall>u \<in> set us. C u \<longrightarrow> busy (us ! i) \<le> busy u))"

lemma least_busy_snoc:
  assumes "least_busy C busy us r"
  shows "\<not> C u \<Longrightarrow> least_busy C busy (us @ [u]) r"
    and "C u \<Longrightarrow> r = None \<Longrightarrow> least_busy C busy (us @ [u]) (Some (length us))"
    and "C u \<Longrightarrow> r = Some i \<Longrightarrow> busy u < busy (us ! i) \<Longrightarrow> least_busy C busy (us @ [u]) (Some (length us))"
    and "C u \<Longrightarrow> r = Some i \<Longrightarrow> \<not> busy u < busy (us ! i) \<Longrightarrow> least_busy C busy (us @ [u]) r"
  using assms by (auto simp: least_busy_def nth_append split: option.splits intro: order_trans less_imp_le)

abbreviation load :: "(int \<rightharpoonup> int) \<Rightarrow> QatUnit \<Rightarrow> int" where
  "load cnts u \<equiv> at_or_zero cnts (GetDeviceId u)"

lemma grab_loop_least:
  assumes "\<forall>u \<in> set us. Usable u \<longrightarrow> GetDeviceId u \<in> dom cnts"
    and "least_busy (\<lambda>u. Usable u \<and> FitSelection sel u) (load cnts) ps ret"
    and "\<forall>i. ret = Some i \<longrightarrow> c = load cnts (ps ! i)"
  shows "\<exists>r. grab_loop sel cnts us (length ps) ret c = Some r
     \<and> least_busy (\<lambda>u. Usable u \<and> FitSelection sel u) (load cnts) (ps @ us) r"
  using assms
proof (induction us arbitrary: ps ret c)
  case (Cons u us)
  let ?C = "\<lambda>u. Usable u \<and> FitSelection sel u"
  note step = least_busy_snoc [OF Cons.prems(2), of u]
  show ?case
  proof (cases "?C u")
    case True
    then obtain n where n: "cnts (GetDeviceId u) = Some n" "load cnts u = n"
      using Cons.prems(1) by (auto simp: at_or_zero_def)
    show ?thesis
    proof (cases "ret = None \<or> n < c")
      case better: True
      then have "least_busy ?C (load cnts) (ps @ [u]) (Some (length ps))"
        using step True n Cons.prems(3) by (cases ret) auto
      then show ?thesis
        using Cons.IH [of "ps @ [u]" "Some (length ps)" n] Cons.prems(1) True n better by (simp add: nth_append)
    next
      case False
      then have "least_busy ?C (load cnts) (ps @ [u]) ret"
        using step True n Cons.prems(3) by (cases ret) auto
      moreover have "\<forall>i. ret = Some i \<longrightarrow> c = load cnts ((ps @ [u]) ! i)"
        using Cons.prems(2,3) by (auto simp: least_busy_def nth_append)
      ultimately show ?thesis
        using Cons.IH [of "ps @ [u]" ret c] Cons.prems(1) True n False by auto
    qed
  next
    case False
    moreover have "\<forall>i. ret = Some i \<longrightarrow> c = load cnts ((ps @ [u]) ! i)"
      using Cons.prems(2,3) by (auto simp: least_busy_def nth_append)
    ultimately show ?thesis
      using Cons.IH [of "ps @ [u]" ret c] Cons.prems(1) step by auto
  qed
qed simp

lemma diff_loop_least:
  assumes "\<forall>u \<in> set us. Usable u \<longrightarrow> GetDeviceId u \<in> dom cnts"
    and "least_busy (\<lambda>u. Usable u \<and> GetDeviceId u \<notin> set ex) (load cnts) ps ret"
    and "\<forall>i. ret = Some i \<longrightarrow> c = load cnts (ps ! i)"
  shows "\<exists>r. diff_loop ex us (length ps) ret c cnts = (r, cnts)
     \<and> least_busy (\<lambda>u. Usable u \<and> GetDeviceId u \<notin> set ex) (load cnts) (ps @ us) r"
  using assms
proof (induction us arbitrary: ps ret c)
  case (Cons u us)
  let ?C = "\<lambda>u. Usable u \<and> GetDeviceId u \<notin> set ex"
  note step = least_busy_snoc [OF Cons.prems(2), of u]
  have ex: "list_all (\<lambda>d. d \<noteq> x) ex \<longleftrightarrow> x \<notin> set ex" for x
    by (auto simp: list_all_iff)
  have keep: "\<forall>i. ret = Some i \<longrightarrow> c = load cnts ((ps @ [u]) ! i)"
    using Cons.prems(2,3) by (auto simp: least_busy_def nth_append)
  show ?case
  proof (cases "?C u")
    case True
    then have t: "touch cnts (GetDeviceId u) = cnts"
      using Cons.prems(1) by (auto simp: touch_def at_or_zero_def)
    show ?thesis
    proof (cases "ret = None \<or> load cnts u < c")
      case better: True
      then have "least_busy ?C (load cnts) (ps @ [u]) (Some (length ps))"
        using step True Cons.prems(3) by (cases ret) auto
      then show ?thesis
        using Cons.IH [of "ps @ [u]" "Some (length ps)" "load cnts u"] Cons.prems(1) True t better by (simp add: nth_append ex)
    next
      case False
      then have "least_busy ?C (load cnts) (ps @ [u]) ret"
        using step True Cons.prems(3) by (cases ret) auto
      then show ?thesis
        using Cons.IH [of "ps @ [u]" ret c] Cons.prems(1) True t False keep by (auto simp: ex)
    qed
  next
    case False
    then show ?thesis
      using Cons.IH [of "ps @ [u]" ret c] Cons.prems(1) step keep by (auto simp: ex)
  qed
qed simp

section \<open>The invariant of the manager\<close>

definition units_on :: "int \<Rightarrow> QatUnit list \<Rightarrow> QatUnit list" where
  "units_on pf us = filter (\<lambda>u. GetDeviceId u = pf) us"

definition um_inv :: "QatUnitManager \<Rightarrow> bool" where
  "um_inv m \<longleftrightarrow>
    (\<forall>u \<in> set (all_units m). (ref_cnt u = 0 \<or> ref_cnt u = 1) \<and> (blacklisted u \<longrightarrow> ref_cnt u = 0)
       \<and> (\<not> blacklisted u \<longrightarrow> GetDeviceId u \<in> dom (pf_in_use_cnt m)))
    \<and> (\<forall>pf c. pf_in_use_cnt m pf = Some c \<longrightarrow> c = sum_list (map ref_cnt (units_on pf (all_units m))))"

lemma units_on_update:
  assumes "i < length us" "GetDeviceId u = GetDeviceId (us ! i)"
  shows "sum_list (map ref_cnt (units_on pf (us[i := u]))) =
    sum_list (map ref_cnt (units_on pf us)) + (if GetDeviceId u = pf then ref_cnt u - ref_cnt (us ! i) else 0)"
  using assms
proof (induction us arbitrary: i)
  case (Cons a us)
  show ?case
  proof (cases i)
    case 0
    then show ?thesis
      using Cons.prems by (auto simp: units_on_def)
  next
    case (Suc j)
    then show ?thesis
      using Cons.IH [of j] Cons.prems by (auto simp: units_on_def)
  qed
qed simp

lemma units_on_idle: "\<forall>u \<in> set us. ref_cnt u = 0 \<Longrightarrow> sum_list (map ref_cnt (units_on pf us)) = 0"
  by (induction us) (auto simp: units_on_def)

lemma um_inv_unit:
  assumes "um_inv m" "u \<in> set (all_units m)"
  shows "ref_cnt u = 0 \<or> ref_cnt u = 1" "blacklisted u \<longrightarrow> ref_cnt u = 0"
    "\<not> blacklisted u \<Longrightarrow> GetDeviceId u \<in> dom (pf_in_use_cnt m)"
  using assms by (auto simp: um_inv_def)

lemma um_inv_update:
  assumes inv: "um_inv m" and i: "i < length (all_units m)" "GetDeviceId u = GetDeviceId (all_units m ! i)"
    and u: "ref_cnt u = 0 \<or> ref_cnt u = 1" "blacklisted u \<longrightarrow> ref_cnt u = 0"
    and old: "\<not> blacklisted (all_units m ! i)"
  shows "um_inv (m\<lparr> all_units := (all_units m)[i := u], pf_in_use_cnt := (pf_in_use_cnt m)(GetDeviceId u \<mapsto>
      at_or_zero (pf_in_use_cnt m) (GetDeviceId u) + (ref_cnt u - ref_cnt (all_units m ! i))) \<rparr>)" (is "um_inv ?m")
proof -
  have dom: "GetDeviceId u \<in> dom (pf_in_use_cnt m)"
    unfolding i(2) using um_inv_unit(3) [OF inv nth_mem [OF i(1)] old] .
  have 1: "(ref_cnt v = 0 \<or> ref_cnt v = 1) \<and> (blacklisted v \<longrightarrow> ref_cnt v = 0)
      \<and> (\<not> blacklisted v \<longrightarrow> GetDeviceId v \<in> dom (pf_in_use_cnt ?m))" if "v \<in> set (all_units ?m)" for v
  proof (cases "v = u")
    case False
    then have v: "v \<in> set (all_units m)"
      using that set_update_subset_insert [of "all_units m" i u] by auto
    show ?thesis
      using um_inv_unit [OF inv v] by auto
  qed (use u in simp)
  have 2: "c = sum_list (map ref_cnt (units_on pf (all_units ?m)))" if "pf_in_use_cnt ?m pf = Some c" for pf c
    using that inv dom by (auto simp: units_on_update [OF i] um_inv_def at_or_zero_def split: if_splits)
  show ?thesis
    unfolding um_inv_def using 1 2 by blast
qed

lemma start_units_inv:
  assumes "um_inv m" "\<forall>u \<in> set (all_units m). ref_cnt u = 0" "start_units drv ut hs n m = (n', m')"
  shows "um_inv m' \<and> (\<forall>u \<in> set (all_units m'). ref_cnt u = 0) \<and> length (all_units m') = length (all_units m) + length hs"
  using assms
proof (induction drv ut hs n m rule: start_units.induct)
  case (2 drv ut h attr0 hs n m)
  obtain r u where ru: "QatUnit_Start drv (QatUnit_new attr0 h ut) = (r, u)"
    by fastforce
  have u: "ref_cnt u = 0" "blacklisted u = False"
    using QatUnit_Start_keeps [OF ru] by (simp_all add: QatUnit_new_def)
  let ?f = "m\<lparr> all_units := all_units m @ [MarkBlacklist u] \<rparr>"
  let ?s = "m\<lparr> pf_in_use_cnt := (pf_in_use_cnt m)(GetDeviceId u \<mapsto> 0), all_units := all_units m @ [u] \<rparr>"
  have zero: "sum_list (map ref_cnt (units_on pf (all_units m))) = 0" for pf
    using "2.prems"(2) by (rule units_on_idle)
  have f: "um_inv ?f"
    using "2.prems"(1) u by (auto simp: um_inv_def MarkBlacklist_def units_on_def)
  have s: "um_inv ?s"
    using "2.prems"(1) u zero by (auto simp: um_inv_def units_on_def)
  show ?case
  proof (cases "status_ok r")
    case True
    then show ?thesis
      using "2.IH"(2) [OF ru [symmetric] refl _ s] "2.prems"(2,3) ru u by auto
  next
    case False
    then show ?thesis
      using "2.IH"(1) [OF ru [symmetric] refl _ f] "2.prems"(2,3) ru u by (auto simp: MarkBlacklist_def)
  qed
qed simp

lemma GetDeviceId_ops [simp]:
  "GetDeviceId (SetThreadName t u) = GetDeviceId u" "GetDeviceId (IncRefCnt u) = GetDeviceId u"
  "GetDeviceId (DecRefCnt u) = GetDeviceId u" "GetDeviceId (ClearThreadName u) = GetDeviceId u"
  "GetDeviceId (MarkBlacklist u) = GetDeviceId u" "GetDeviceId (u\<lparr> ref_cnt := n \<rparr>) = GetDeviceId u"
  by (simp_all add: unit_ops)

lemma ref_cnt_ops [simp]: "ref_cnt (ClearThreadName u) = ref_cnt u" "ref_cnt (MarkBlacklist u) = ref_cnt u"
  by (simp_all add: unit_ops)

text \<open>\<open>marks m held\<close>: exactly the units at the positions \<open>held\<close> are in use.\<close>

definition marks :: "QatUnitManager \<Rightarrow> nat list \<Rightarrow> bool" where
  "marks m held \<longleftrightarrow> distinct held \<and> set held \<subseteq> {..<length (all_units m)}
     \<and> (\<forall>i < length (all_units m). IsInUse (all_units m ! i) \<longleftrightarrow> i \<in> set held)"

lemma take_unit_inv:
  assumes inv: "um_inv m" "marks m held" and i: "i < length (all_units m)" "Usable (all_units m ! i)"
  shows "um_inv (take_unit t (Some i) m)" "marks (take_unit t (Some i) m) (i # held)"
proof -
  let ?u = "SetThreadName t (IncRefCnt (all_units m ! i))"
  have r: "ref_cnt (all_units m ! i) = 0" "\<not> blacklisted (all_units m ! i)"
    using um_inv_unit [OF inv(1) nth_mem [OF i(1)]] i(2) by (auto simp: Usable_def IsInUse_def IsInBlackList_def)
  have "um_inv (m\<lparr> all_units := (all_units m)[i := ?u], pf_in_use_cnt := (pf_in_use_cnt m)(GetDeviceId ?u \<mapsto>
      at_or_zero (pf_in_use_cnt m) (GetDeviceId ?u) + (ref_cnt ?u - ref_cnt (all_units m ! i))) \<rparr>)"
    using r i by (intro um_inv_update [OF inv(1)]) (simp_all add: SetThreadName_def IncRefCnt_def GetDeviceId_def)
  moreover have "ref_cnt ?u - ref_cnt (all_units m ! i) = 1"
    by (simp add: SetThreadName_def IncRefCnt_def)
  ultimately show "um_inv (take_unit t (Some i) m)"
    by (simp add: take_unit_def Let_def)
  have "i \<notin> set held"
    using inv(2) i by (auto simp: marks_def Usable_def)
  then show "marks (take_unit t (Some i) m) (i # held)"
    using inv(2) i r by (auto simp: marks_def take_unit_def Let_def IsInUse_def SetThreadName_def IncRefCnt_def nth_list_update)
qed

lemma release_unit_inv:
  assumes inv: "um_inv m" "marks m held" and i: "i \<in> set held"
    and f: "\<And>u. ref_cnt (f u) = ref_cnt u" "\<And>u. GetDeviceId (f u) = GetDeviceId u"
  shows "\<exists>m'. release_unit f i m = Some m' \<and> um_inv m' \<and> marks m' (remove1 i held)"
proof -
  have l: "i < length (all_units m)" and use: "IsInUse (all_units m ! i)"
    using inv(2) i by (auto simp: marks_def)
  let ?u = "f (DecRefCnt (all_units m ! i))"
  have r: "ref_cnt (all_units m ! i) = 1" "\<not> blacklisted (all_units m ! i)"
    using um_inv_unit [OF inv(1) nth_mem [OF l]] use by (auto simp: IsInUse_def)
  have inv': "um_inv (m\<lparr> all_units := (all_units m)[i := ?u], pf_in_use_cnt := (pf_in_use_cnt m)(GetDeviceId ?u \<mapsto>
      at_or_zero (pf_in_use_cnt m) (GetDeviceId ?u) + (ref_cnt ?u - ref_cnt (all_units m ! i))) \<rparr>)"
    using r l by (intro um_inv_update [OF inv(1)]) (simp_all add: f DecRefCnt_def)
  have "ref_cnt ?u - ref_cnt (all_units m ! i) = -1" "ref_cnt ?u = 0"
    using r by (simp_all add: f DecRefCnt_def)
  with inv' show ?thesis
    using l inv(2) by (auto simp: release_unit_def Let_def marks_def nth_list_update IsInUse_def)
qed

section \<open>Histories of the manager\<close>

text \<open>The states the manager goes through after \<^verbatim>\<open>Init\<close>, with the units that channels hold.\<close>

inductive um_reach :: "qat_driver \<Rightarrow> QatUnitManager \<Rightarrow> nat list \<Rightarrow> bool" for drv where
  init: "QatUnitManager_Init drv mem ut QatUnitManager_new = (st, m) \<Longrightarrow> um_reach drv m []"
| grab: "um_reach drv m held \<Longrightarrow> GrabAvailableUnit t sel m = Some (Some i, m') \<Longrightarrow> um_reach drv m' (i # held)"
| grab_none: "um_reach drv m held \<Longrightarrow> GrabAvailableUnit t sel m = Some (None, m') \<Longrightarrow> um_reach drv m' held"
| diff: "um_reach drv m held \<Longrightarrow> GrabFromDiffDevice t ex m = (Some i, m') \<Longrightarrow> um_reach drv m' (i # held)"
| diff_none: "um_reach drv m held \<Longrightarrow> GrabFromDiffDevice t ex m = (None, m') \<Longrightarrow> um_reach drv m' held"
| put: "um_reach drv m held \<Longrightarrow> i \<in> set held \<Longrightarrow> PutBackUnit (Some i) m = Some m' \<Longrightarrow> um_reach drv m' (remove1 i held)"
| black: "um_reach drv m held \<Longrightarrow> i \<in> set held \<Longrightarrow> PutBackToBlackList (Some i) m = Some m' \<Longrightarrow>
    um_reach drv m' (remove1 i held)"

lemma usable_registered: "um_inv m \<Longrightarrow> \<forall>u \<in> set (all_units m). Usable u \<longrightarrow> GetDeviceId u \<in> dom (pf_in_use_cnt m)"
  using um_inv_unit(3) by (auto simp: Usable_def IsInBlackList_def)

lemma GrabAvailableUnit_least:
  assumes "um_inv m"
  shows "\<exists>r. GrabAvailableUnit t sel m = Some (r, take_unit t r m)
     \<and> least_busy (\<lambda>u. Usable u \<and> FitSelection sel u) (load (pf_in_use_cnt m)) (all_units m) r"
  using grab_loop_least [OF usable_registered [OF assms], of sel "[]" None "-1"]
  by (auto simp: GrabAvailableUnit_def least_busy_def)

lemma GrabFromDiffDevice_least:
  assumes "um_inv m"
  shows "\<exists>r. GrabFromDiffDevice t ex m = (r, take_unit t r m)
     \<and> least_busy (\<lambda>u. Usable u \<and> GetDeviceId u \<notin> (\<lambda>i. GetDeviceId (all_units m ! i)) ` set ex)
         (load (pf_in_use_cnt m)) (all_units m) r"
  using diff_loop_least [OF usable_registered [OF assms], of "map (\<lambda>i. GetDeviceId (all_units m ! i)) ex" "[]" None "-1"]
  by (auto simp: GrabFromDiffDevice_def least_busy_def)

lemma least_busy_Some: "least_busy C b us (Some i) \<Longrightarrow> i < length us \<and> C (us ! i)"
  by (simp add: least_busy_def)

lemma um_reach_inv: "um_reach drv m held \<Longrightarrow> um_inv m \<and> marks m held"
proof (induction rule: um_reach.induct)
  case (init mem ut st m)
  have new: "um_inv (QatUnitManager_new\<lparr> unit_num := n \<rparr>)" "all_units (QatUnitManager_new\<lparr> unit_num := n \<rparr>) = []" for n
    by (simp_all add: um_inv_def QatUnitManager_new_def)
  have "um_inv m \<and> (\<forall>u \<in> set (all_units m). ref_cnt u = 0)"
    using init new start_units_inv [OF new(1)]
    by (auto simp: QatUnitManager_Init_def Let_def split: if_splits prod.splits)
  then show ?case
    by (auto simp: marks_def IsInUse_def)
next
  case (grab m held t sel i m')
  then have m': "m' = take_unit t (Some i) m" "i < length (all_units m)" "Usable (all_units m ! i)"
    using GrabAvailableUnit_least [of m t sel] by (auto dest: least_busy_Some)
  show ?case
    unfolding m'(1) using take_unit_inv [OF _ _ m'(2,3)] grab.IH by blast
next
  case (grab_none m held t sel m')
  then show ?case
    using GrabAvailableUnit_least [of m t sel] by (auto simp: take_unit_def)
next
  case (diff m held t ex i m')
  then have m': "m' = take_unit t (Some i) m" "i < length (all_units m)" "Usable (all_units m ! i)"
    using GrabFromDiffDevice_least [of m t ex] by (auto dest: least_busy_Some)
  show ?case
    unfolding m'(1) using take_unit_inv [OF _ _ m'(2,3)] diff.IH by blast
next
  case (diff_none m held t ex m')
  then show ?case
    using GrabFromDiffDevice_least [of m t ex] by (auto simp: take_unit_def)
next
  case (put m held i m')
  then show ?case
    using release_unit_inv [of m held i ClearThreadName] by (auto simp: PutBackUnit_def)
next
  case (black m held i m')
  then show ?case
    using release_unit_inv [of m held i "\<lambda>u. ClearThreadName (MarkBlacklist u)"]
    by (auto simp: PutBackToBlackList_def)
qed

lemma sum_list_filter_nth:
  "sum_list (map f (filter Q us)) = (\<Sum>i \<in> {i. i < length us \<and> Q (us ! i)}. f (us ! i))" for f :: "'a \<Rightarrow> int"
proof -
  have "filter Q us = map ((!) us) (filter (\<lambda>i. Q (us ! i)) [0..<length us])"
    using filter_map [of Q "(!) us" "[0..<length us]"] by (simp add: map_nth comp_def)
  then have "sum_list (map f (filter Q us)) = sum_list (map (\<lambda>i. f (us ! i)) (filter (\<lambda>i. Q (us ! i)) [0..<length us]))"
    by (simp add: comp_def)
  also have "\<dots> = (\<Sum>i \<in> set (filter (\<lambda>i. Q (us ! i)) [0..<length us]). f (us ! i))"
    by (rule sum_list_distinct_conv_sum_set) simp
  finally show ?thesis
    by simp
qed

lemma held_count:
  assumes "um_inv m" "marks m held"
  shows "sum_list (map ref_cnt (units_on pf (all_units m))) = int (length (filter (\<lambda>i. GetDeviceId (all_units m ! i) = pf) held))"
proof -
  let ?us = "all_units m" and ?on = "\<lambda>i. GetDeviceId (all_units m ! i) = pf"
  have ref: "ref_cnt (?us ! i) = (if i \<in> set held then 1 else 0)" if "i < length ?us" for i
    using assms that um_inv_unit(1) [OF assms(1) nth_mem [OF that]] by (auto simp: marks_def IsInUse_def)
  have "sum_list (map ref_cnt (units_on pf ?us)) = (\<Sum>i \<in> {i. i < length ?us \<and> ?on i}. ref_cnt (?us ! i))"
    by (simp add: units_on_def sum_list_filter_nth)
  also have "\<dots> = (\<Sum>i \<in> {i. i < length ?us \<and> ?on i}. if i \<in> set held then 1 else 0)"
    using ref by (intro sum.cong) auto
  also have "\<dots> = int (card (set (filter ?on held)))"
    using assms(2) by (subst sum.inter_filter [symmetric]) (auto simp: marks_def intro!: arg_cong [where f = card])
  finally show ?thesis
    using assms(2) distinct_card [of "filter ?on held"] by (simp add: marks_def)
qed

section \<open>What the manager guarantees\<close>

text \<open>C10: Through any sequence of grabbing and putting back units by any number of channels, no unit is
  ever handed to two holders at once, a unit that is held is neither free nor blacklisted, and the load the
  manager keeps for a device is exactly the number of units of that device that are held.\<close>

theorem unit_never_shared:
  assumes "um_reach drv m held"
  shows "distinct held \<and> (\<forall>i \<in> set held. i < length (all_units m) \<and> IsInUse (all_units m ! i) \<and> \<not> IsInBlackList (all_units m ! i))
     \<and> (\<forall>pf c. pf_in_use_cnt m pf = Some c \<longrightarrow> c = int (length (filter (\<lambda>i. GetDeviceId (all_units m ! i) = pf) held)))"
proof -
  have inv: "um_inv m" "marks m held"
    using um_reach_inv [OF assms] by auto
  have "\<not> IsInBlackList (all_units m ! i)" if "i < length (all_units m)" "IsInUse (all_units m ! i)" for i
    using um_inv_unit(2) [OF inv(1) nth_mem [OF that(1)]] that(2) by (auto simp: IsInBlackList_def IsInUse_def)
  then show ?thesis
    using inv held_count [OF inv] by (auto simp: marks_def um_inv_def)
qed

text \<open>C23: In every such state \<^verbatim>\<open>GrabAvailableUnit\<close> returns without touching a missing load entry; it finds a unit
  whenever a usable one fits the selection, and the unit it returns is usable, fits, and belongs to a least
  loaded device among the candidates.\<close>

theorem GrabAvailableUnit_correct:
  assumes "um_reach drv m held"
  shows "\<exists>r. GrabAvailableUnit t sel m = Some (r, take_unit t r m)
     \<and> (case r of
          None \<Rightarrow> \<forall>u \<in> set (all_units m). \<not> (Usable u \<and> FitSelection sel u)
        | Some i \<Rightarrow> i < length (all_units m) \<and> i \<notin> set held \<and> Usable (all_units m ! i) \<and> FitSelection sel (all_units m ! i)
            \<and> (\<forall>u \<in> set (all_units m). Usable u \<and> FitSelection sel u \<longrightarrow>
                 load (pf_in_use_cnt m) (all_units m ! i) \<le> load (pf_in_use_cnt m) u))"
proof -
  have inv: "um_inv m" "marks m held"
    using um_reach_inv [OF assms] by auto
  have "i \<notin> set held" if "i < length (all_units m)" "Usable (all_units m ! i)" for i
    using inv(2) that by (auto simp: marks_def Usable_def)
  then show ?thesis
    using GrabAvailableUnit_least [OF inv(1), of t sel] by (auto simp: least_busy_def split: option.splits)
qed

text \<open>\<^verbatim>\<open>GrabFromDiffDevice\<close> never returns a unit of a device that one of the excluded units belongs to, and
  it finds a unit whenever some usable unit is on another device.\<close>

theorem GrabFromDiffDevice_correct:
  assumes "um_reach drv m held" "GrabFromDiffDevice t ex m = (r, m')"
  shows "case r of
      None \<Rightarrow> m' = m \<and> (\<forall>u \<in> set (all_units m). Usable u \<longrightarrow> (\<exists>x \<in> set ex. GetDeviceId u = GetDeviceId (all_units m ! x)))
    | Some i \<Rightarrow> i < length (all_units m) \<and> i \<notin> set held \<and> IsInUse (all_units m' ! i)
        \<and> (\<forall>x \<in> set ex. GetDeviceId (all_units m ! i) \<noteq> GetDeviceId (all_units m ! x))"
proof -
  have inv: "um_inv m" "marks m held"
    using um_reach_inv [OF assms(1)] by auto
  have "i \<notin> set held \<and> IsInUse (all_units (take_unit t (Some i) m) ! i)" if "i < length (all_units m)" "Usable (all_units m ! i)" for i
    using inv(2) take_unit_inv(2) [OF inv that, of t] that by (auto simp: marks_def Usable_def take_unit_def Let_def)
  then show ?thesis
    using GrabFromDiffDevice_least [OF inv(1), of t ex] assms(2)
    by (auto simp: least_busy_def take_unit_def image_iff split: option.splits)
qed

section \<open>A manager with two units\<close>

definition started_unit :: "nat \<Rightarrow> QatUnit" where
  "started_unit h =
    \<lparr> cpa_instance_handle = h,
      qat_unit_attr = \<lparr> part_name = ''4xxxvf'', instance_id = ''1.Dc0'', device_id = 0x75, function_id = 1, inst_id = 0,
        numa_hint = 0, is_polled = True, is_crc_supp = True, is_phys_contiguous_mem_required = False,
        is_lz4_compression = True, is_lz4_decompression = True, is_zstd_compression = True, is_zstd_decompression = False,
        is_deflate_compression = True, is_deflate_decompression = True, is_aes_xts_supp = False \<rparr>,
      unit_type = kDc, in_use_thread_name = '''', ref_cnt = 0, blacklisted = False, qat_err_sim = QatErrSim_init \<rparr>"

lemma char_of_49: "char_of (49 :: nat) = CHR ''1''"
  by code_simp

lemma start_idle: "QatUnit_Start idle_driver (QatUnit_new (qat_unit_attr (started_unit 0)) h kDc) = (OkStatus, started_unit h)"
  by (simp add: QatUnit_Start_def QueryCapabilities_def QueryInformation_def Let_def idle_driver_def QatUnit_new_def
      IsModelSupported_def kSupportedQatModelName_def started_unit_def IntAtTheEnd_def is_digit_def digit_value_def to_string.simps
      char_of_49)

lemma GetDeviceId_started [simp]: "GetDeviceId (started_unit h) = 0x75"
  by (simp add: GetDeviceId_def started_unit_def)

lemma Usable_started [simp]: "Usable (started_unit h)" "FitSelection QatUnitSelection_default (started_unit h)"
  by (simp_all add: Usable_def IsInBlackList_def IsInUse_def started_unit_def FitSelection_def QatUnitSelection_default_def)

lemma init_idle:
  "QatUnitManager_Init idle_driver (\<lambda>i. qat_unit_attr (started_unit 0)) kDc QatUnitManager_new =
    (OkStatus, \<lparr> unit_num = 2, all_units = [started_unit 10, started_unit 11], pf_in_use_cnt = [0x75 \<mapsto> 0] \<rparr>)"
proof -
  have "getNumInstances idle_driver kDc = (0, 2)" "getInstances idle_driver kDc 2 = (0, [10, 11])" "[0..<2] = [0, 1 :: nat]"
    by (simp_all add: idle_driver_def upt_rec)
  then show ?thesis
    by (simp add: QatUnitManager_Init_def QatUnitManager_new_def start_idle)
qed

lemma two_units_one_held:
  "um_reach idle_driver
    \<lparr> unit_num = 2, all_units = [SetThreadName ''t'' (IncRefCnt (started_unit 10)), started_unit 11],
      pf_in_use_cnt = [0x75 \<mapsto> 1] \<rparr> [0]"
proof -
  let ?m = "\<lparr> unit_num = 2, all_units = [started_unit 10, started_unit 11], pf_in_use_cnt = [0x75 \<mapsto> 0] \<rparr>"
  have "GrabAvailableUnit ''t'' QatUnitSelection_default ?m = Some (Some 0, take_unit ''t'' (Some 0) ?m)"
    by (simp add: GrabAvailableUnit_def)
  then have "um_reach idle_driver (take_unit ''t'' (Some 0) ?m) [0]"
    by (rule um_reach.grab [OF um_reach.init [OF init_idle]])
  then show ?thesis
    by (simp add: take_unit_def at_or_zero_def)
qed

theorem unit_never_shared_witness:
  "\<exists>m. um_reach idle_driver m [0] \<and> \<not> IsInBlackList (all_units m ! 0) \<and> pf_in_use_cnt m 0x75 = Some 1"
  using unit_never_shared [OF two_units_one_held] two_units_one_held
  by (intro exI [of _ "\<lparr> unit_num = 2, all_units = [SetThreadName ''t'' (IncRefCnt (started_unit 10)), started_unit 11],
      pf_in_use_cnt = [0x75 \<mapsto> 1] \<rparr>"]) simp

theorem GrabAvailableUnit_correct_witness:
  "\<exists>m. um_reach idle_driver m [0] \<and> (\<exists>m'. GrabAvailableUnit ''u'' QatUnitSelection_default m = Some (Some 1, m'))"
proof -
  let ?m = "\<lparr> unit_num = 2, all_units = [SetThreadName ''t'' (IncRefCnt (started_unit 10)), started_unit 11],
      pf_in_use_cnt = [0x75 \<mapsto> 1] \<rparr>"
  obtain r where r: "GrabAvailableUnit ''u'' QatUnitSelection_default ?m = Some (r, take_unit ''u'' r ?m)"
    "case r of
          None \<Rightarrow> \<forall>u \<in> set (all_units ?m). \<not> (Usable u \<and> FitSelection QatUnitSelection_default u)
        | Some i \<Rightarrow> i < length (all_units ?m) \<and> i \<notin> set [0]"
    using GrabAvailableUnit_correct [OF two_units_one_held, of "''u''" QatUnitSelection_default]
    by (auto split: option.splits)
  then have "r = Some 1"
    by (cases r) (auto simp: less_Suc_eq)
  then show ?thesis
    using r two_units_one_held by blast
qed

theorem GrabFromDiffDevice_correct_witness:
  "\<exists>m. um_reach idle_driver m [0] \<and> fst (GrabFromDiffDevice ''u'' [0] m) = None"
proof -
  let ?m = "\<lparr> unit_num = 2, all_units = [SetThreadName ''t'' (IncRefCnt (started_unit 10)), started_unit 11],
      pf_in_use_cnt = [0x75 \<mapsto> 1] \<rparr>"
  obtain r m' where r: "GrabFromDiffDevice ''u'' [0] ?m = (r, m')"
    by fastforce
  have "r = None"
    using GrabFromDiffDevice_correct [OF two_units_one_held r] by (cases r) (auto simp: less_Suc_eq)
  then show ?thesis
    using r two_units_one_held by (intro exI [of _ ?m]) simp
qed

end
