(* ===== verification/Qat_Util.thy ===== *)
theory Qat_Util
  imports Qat_Unit
begin

text \<open>Start-up of the QAT driver and the concurrency read from its configuration files,
  \<^verbatim>\<open>src/src/common/qat/qat_util.{h,cc}\<close>.  The driver's \<^verbatim>\<open>icp_sal_userStart\<close> is a function of the number of
  the call and the section name, so that its answer may change from call to call; a configuration file is
  the list of its lines, or \<open>None\<close> when it cannot be opened.\<close>

definition kMaxQatSectionNameId :: nat where "kMaxQatSectionNameId = 1024"
definition kQatSectionPrefix :: string where "kQatSectionPrefix = ''SSL''"
definition kQatDriverConfigNum :: nat where "kQatDriverConfigNum = 64"
definition kMinQatConcurrency :: nat where "kMinQatConcurrency = 64"
definition kMaxQatConcurrency :: nat where "kMaxQatConcurrency = 65536"
definition kDefaultQatConcurrency :: nat where "kDefaultQatConcurrency = 512"
definition kQatDcConcurrecyKey :: string where "kQatDcConcurrecyKey = ''DcNumConcurrentRequests''"
definition kQatSymConcurrecyKey :: string where "kQatSymConcurrecyKey = ''CyNumConcurrentSymRequests''"

section \<open>Starting the driver\<close>

definition GetQatSectionNames :: "string \<Rightarrow> string list" where
  "GetQatSectionNames flag =
    (if flag \<noteq> '''' then [flag]
     else map (\<lambda>i. kQatSectionPrefix @ to_string i) [0..<kMaxQatSectionNameId + 1] @ [kQatSectionPrefix])"

record qat_globals =
  g_qat_started :: bool
  g_section_name :: string

text \<open>One pass over the candidates; \<open>n\<close> counts the calls made so far.\<close>

fun try_sections :: "(nat \<Rightarrow> string \<Rightarrow> int) \<Rightarrow> nat \<Rightarrow> string list \<Rightarrow> string option \<times> nat" where
  "try_sections userStart n [] = (None, n)"
| "try_sections userStart n (c # cs) =
    (if userStart n c = 0 then (Some c, n + 1) else try_sections userStart (n + 1) cs)"

fun start_retries :: "(nat \<Rightarrow> string \<Rightarrow> int) \<Rightarrow> string list \<Rightarrow> nat \<Rightarrow> nat \<Rightarrow> string option \<times> nat" where
  "start_retries userStart candidates 0 n = (None, n)"
| "start_retries userStart candidates (Suc k) n =
    (case try_sections userStart n candidates of
       (Some c, n') \<Rightarrow> (Some c, n')
     | (None, n') \<Rightarrow> start_retries userStart candidates k n')"

definition QatUserStart :: "(nat \<Rightarrow> string \<Rightarrow> int) \<Rightarrow> bool \<Rightarrow> bool \<Rightarrow> string \<Rightarrow> qat_globals \<Rightarrow> bool \<times> qat_globals" where
  "QatUserStart userStart codec_ok cypher_ok flag g =
    (if g_qat_started g then (True, g)
     else if \<not> codec_ok \<and> \<not> cypher_ok then (False, g)
     else
       case fst (start_retries userStart (GetQatSectionNames flag) 3 0) of
         Some c \<Rightarrow> (True, g\<lparr> g_section_name := c, g_qat_started := True \<rparr>)
       | None \<Rightarrow> (False, g))"

definition QatUserStop :: "int \<Rightarrow> qat_globals \<Rightarrow> bool \<times> qat_globals" where
  "QatUserStop userStop g =
    (if g_qat_started g then
       if userStop \<noteq> 0 then (False, g) else (True, g\<lparr> g_qat_started := False \<rparr>)
     else (True, g))"

section \<open>Reading the concurrency\<close>

fun contains :: "string \<Rightarrow> string \<Rightarrow> bool" where
  "contains key [] \<longleftrightarrow> key = []"
| "contains key (c # cs) \<longleftrightarrow> take (length key) (c # cs) = key \<or> contains key cs"

fun leading_number :: "string \<Rightarrow> nat \<Rightarrow> nat" where
  "leading_number [] n = n"
| "leading_number (c # cs) n = (if is_digit c then leading_number cs (n * 10 + nat (digit_value c)) else n)"

text \<open>What a line contributes: nothing, a value, or an exception of \<^verbatim>\<open>std::stoi\<close> (out of range).  The
  text handed to \<^verbatim>\<open>stoi\<close> starts at the first digit after the equals sign, so it is its leading digits that count.\<close>

datatype line_value = NoValue | Value nat | OutOfRange

definition parse_line :: "string \<Rightarrow> string \<Rightarrow> line_value" where
  "parse_line key line =
    (if line = [] \<or> hd line = CHR ''#'' then NoValue
     else if \<not> contains key line then NoValue
     else
       case dropWhile (\<lambda>c. c \<noteq> CHR ''='') line of
         [] \<Rightarrow> NoValue
       | _ # rest \<Rightarrow>
           let digits = dropWhile (\<lambda>c. \<not> is_digit c) rest in
           if digits = [] then NoValue
           else
             let v = leading_number digits 0
             in if v \<le> 2147483647 then Value v else OutOfRange)"

record read_state =
  section_matched :: bool
  configured :: bool
  concurrency :: nat

fun read_lines :: "string \<Rightarrow> string \<Rightarrow> string list \<Rightarrow> read_state \<Rightarrow> read_state option" where
  "read_lines section_line key [] r = Some r"
| "read_lines section_line key (line # lines) r =
    (let r = (if line = section_line then r\<lparr> section_matched := True \<rparr> else r) in
     case parse_line key line of
       NoValue \<Rightarrow> read_lines section_line key lines r
     | Value v \<Rightarrow> read_lines section_line key lines (r\<lparr> concurrency := v, configured := True \<rparr>)
     | OutOfRange \<Rightarrow> None)"

definition ReadConcurrencyFromFile :: "string list option \<Rightarrow> string \<Rightarrow> string \<Rightarrow> nat \<Rightarrow> (bool \<times> nat) option" where
  "ReadConcurrencyFromFile file section_name key conc =
    (case file of
       None \<Rightarrow> Some (False, conc)
     | Some lines \<Rightarrow>
         map_option (\<lambda>r. (section_matched r \<and> configured r, concurrency r))
           (read_lines (''['' @ section_name @ '']'') key lines
              \<lparr> section_matched = False, configured = False, concurrency = conc \<rparr>))"

datatype QatServiceType = kServiceDc | kServiceSym | kServiceNum

definition config_file_name :: "nat \<Rightarrow> string" where
  "config_file_name i = ''/etc/4xxxvf_dev'' @ to_string i @ ''.conf''"

fun min_concurrency :: "(string \<Rightarrow> string list option) \<Rightarrow> string \<Rightarrow> string \<Rightarrow> nat list \<Rightarrow> nat \<Rightarrow> bool \<Rightarrow> (nat \<times> bool) option" where
  "min_concurrency fs section_name key [] ret exists = Some (ret, exists)"
| "min_concurrency fs section_name key (i # is) ret exists =
    (case ReadConcurrencyFromFile (fs (config_file_name i)) section_name key kDefaultQatConcurrency of
       None \<Rightarrow> None
     | Some (found, conc) \<Rightarrow>
         min_concurrency fs section_name key is (if found \<and> conc < ret then conc else ret) (exists \<or> found))"

definition GetQatMaxConcurrency :: "(string \<Rightarrow> string list option) \<Rightarrow> string \<Rightarrow> QatServiceType \<Rightarrow> nat option" where
  "GetQatMaxConcurrency fs section_name type =
    (case (case type of
             kServiceDc \<Rightarrow> min_concurrency fs section_name kQatDcConcurrecyKey [0..<kQatDriverConfigNum] kMaxQatConcurrency False
           | kServiceSym \<Rightarrow> min_concurrency fs section_name kQatSymConcurrecyKey [0..<kQatDriverConfigNum] kMaxQatConcurrency False
           | kServiceNum \<Rightarrow> None) of
       None \<Rightarrow> None
     | Some (ret, config_exists) \<Rightarrow>
         let ret = (if \<not> config_exists then kDefaultQatConcurrency else ret)
         in Some (if ret < kMinQatConcurrency then kMinQatConcurrency else ret))"

section \<open>Properties\<close>


lemma try_sections_append:
  "try_sections userStart n (cs @ ds) =
    (case try_sections userStart n cs of (Some c, n') \<Rightarrow> (Some c, n') | (None, n') \<Rightarrow> try_sections userStart n' ds)"
  by (induction cs arbitrary: n) auto

lemma start_retries_concat: "start_retries userStart cs k n = try_sections userStart n (concat (replicate k cs))"
  by (induction k arbitrary: n) (auto simp: try_sections_append split: prod.splits option.splits)

text \<open>\<open>first_success\<close> is the section of the first call that succeeds when the calls are made in the order of
  a list.\<close>

definition first_success :: "(nat \<Rightarrow> string \<Rightarrow> int) \<Rightarrow> string list \<Rightarrow> string option \<Rightarrow> bool" where
  "first_success userStart cs r \<longleftrightarrow>
    (case r of
       None \<Rightarrow> \<forall>i < length cs. userStart i (cs ! i) \<noteq> 0
     | Some c \<Rightarrow> \<exists>i < length cs. c = cs ! i \<and> userStart i c = 0 \<and> (\<forall>j < i. userStart j (cs ! j) \<noteq> 0))"

lemma first_success_shift:
  assumes "userStart 0 c \<noteq> 0" "first_success (\<lambda>i. userStart (Suc i)) cs r"
  shows "first_success userStart (c # cs) r"
proof (cases r)
  case None
  then show ?thesis
    using assms by (auto simp: first_success_def less_Suc_eq_0_disj)
next
  case (Some d)
  then obtain i where "i < length cs" "d = cs ! i" "userStart (Suc i) d = 0" "\<forall>j < i. userStart (Suc j) (cs ! j) \<noteq> 0"
    using assms(2) by (auto simp: first_success_def)
  then have "Suc i < length (c # cs) \<and> d = (c # cs) ! Suc i \<and> userStart (Suc i) d = 0
      \<and> (\<forall>j < Suc i. userStart j ((c # cs) ! j) \<noteq> 0)"
    using assms(1) by (auto simp: less_Suc_eq_0_disj)
  then show ?thesis
    unfolding first_success_def Some option.case by blast
qed

lemma try_sections_first: "first_success (\<lambda>i. userStart (n + i)) cs (fst (try_sections userStart n cs))"
proof (induction cs arbitrary: n)
  case (Cons c cs)
  show ?case
  proof (cases "userStart n c = 0")
    case True
    then show ?thesis
      by (auto simp: first_success_def intro!: exI [of _ 0])
  next
    case False
    then show ?thesis
      using first_success_shift [of "\<lambda>i. userStart (n + i)" c cs] Cons.IH [of "Suc n"] by simp
  qed
qed (simp add: first_success_def)

text \<open>When the driver is loaded and not yet started, \<^verbatim>\<open>QatUserStart\<close> tries the section names in order, up
  to three times over, and stops at the first call that succeeds, whose section it records; it fails, leaving
  the state as it was, exactly when every one of these calls fails.\<close>

theorem QatUserStart_first_success:
  assumes "\<not> g_qat_started g" "codec_ok \<or> cypher_ok" "names = GetQatSectionNames flag"
  shows "\<exists>r. first_success userStart (names @ names @ names) r
     \<and> QatUserStart userStart codec_ok cypher_ok flag g =
         (case r of None \<Rightarrow> (False, g) | Some c \<Rightarrow> (True, g\<lparr> g_section_name := c, g_qat_started := True \<rparr>))"
proof -
  have "start_retries userStart names 3 0 = try_sections userStart 0 (names @ names @ names)"
    unfolding start_retries_concat by (simp add: numeral_3_eq_3)
  then show ?thesis
    using assms try_sections_first [of userStart 0 "names @ names @ names"]
    by (auto simp: QatUserStart_def split: option.splits)
qed

theorem QatUserStart_first_success_witness:
  "QatUserStart (\<lambda>i c. if i = 1 then 0 else -1) True False ''SSL5'' \<lparr> g_qat_started = False, g_section_name = '''' \<rparr> =
    (True, \<lparr> g_qat_started = True, g_section_name = ''SSL5'' \<rparr>)"
proof -
  let ?g = "\<lparr> g_qat_started = False, g_section_name = '''' \<rparr>" and ?us = "\<lambda>i c. if i = 1 then 0 else -1 :: int"
  obtain r where r: "first_success ?us ([''SSL5''] @ [''SSL5''] @ [''SSL5'']) r"
    "QatUserStart ?us True False ''SSL5'' ?g = (case r of None \<Rightarrow> (False, ?g) | Some c \<Rightarrow> (True, ?g\<lparr> g_section_name := c, g_qat_started := True \<rparr>))"
    using QatUserStart_first_success [of ?g True False "[''SSL5'']" "''SSL5''" ?us] by (auto simp: GetQatSectionNames_def)
  then have "r = Some ''SSL5''"
    by (cases r) (auto simp: first_success_def less_Suc_eq numeral_3_eq_3 split: if_splits)
  then show ?thesis
    using r(2) by simp
qed

section \<open>The concurrency\<close>

text \<open>The last value that a line of the file gives for the key, whatever section the line is in.\<close>

definition last_value :: "string \<Rightarrow> string list \<Rightarrow> nat option" where
  "last_value key lines = foldl (\<lambda>a l. case parse_line key l of Value v \<Rightarrow> Some v | _ \<Rightarrow> a) None lines"

lemma last_value_snoc:
  "last_value key (lines @ [l]) = (case parse_line key l of Value v \<Rightarrow> Some v | _ \<Rightarrow> last_value key lines)"
  by (simp add: last_value_def split: line_value.split)

lemma read_lines_append:
  "read_lines sl key (xs @ ys) r = (case read_lines sl key xs r of None \<Rightarrow> None | Some r' \<Rightarrow> read_lines sl key ys r')"
  by (induction xs arbitrary: r) (auto simp: Let_def split: line_value.splits)

lemma read_lines_last_value:
  assumes "\<forall>l \<in> set lines. parse_line key l \<noteq> OutOfRange"
  shows "read_lines sl key lines \<lparr> section_matched = False, configured = False, concurrency = c \<rparr> =
    Some \<lparr> section_matched = (sl \<in> set lines), configured = (last_value key lines \<noteq> None),
           concurrency = (case last_value key lines of None \<Rightarrow> c | Some v \<Rightarrow> v) \<rparr>"
  using assms
proof (induction lines rule: rev_induct)
  case (snoc l lines)
  then show ?case
    by (cases "parse_line key l") (auto simp: read_lines_append last_value_snoc Let_def)
qed (simp add: last_value_def)

text \<open>\<^verbatim>\<open>ReadConcurrencyFromFile\<close> reports success exactly when the section line occurs somewhere in the file
  and some line gives a value for the key, and it returns the value of the last such line.  The value need not
  stand in the named section, although the comment of the function says so.\<close>

theorem ReadConcurrencyFromFile_last:
  assumes "\<forall>l \<in> set lines. parse_line key l \<noteq> OutOfRange"
  shows "ReadConcurrencyFromFile (Some lines) name key c =
    Some (''['' @ name @ '']'' \<in> set lines \<and> last_value key lines \<noteq> None,
          case last_value key lines of None \<Rightarrow> c | Some v \<Rightarrow> v)"
  using read_lines_last_value [OF assms] by (simp add: ReadConcurrencyFromFile_def)

theorem ReadConcurrencyFromFile_last_witness:
  "ReadConcurrencyFromFile (Some [''[SSL]'', ''[KERNEL]'', ''K = 64'']) ''SSL'' ''K'' 512 = Some (True, 64)"
proof -
  let ?f = "[''[SSL]'', ''[KERNEL]'', ''K = 64'']"
  have v: "parse_line ''K'' ''[SSL]'' = NoValue" "parse_line ''K'' ''[KERNEL]'' = NoValue" "parse_line ''K'' ''K = 64'' = Value 64"
    by (simp_all add: parse_line_def is_digit_def digit_value_def)
  then show ?thesis
    using ReadConcurrencyFromFile_last [of ?f "''K''" "''SSL''" 512] by (simp add: last_value_def)
qed

lemma min_concurrency_bounds:
  "min_concurrency fs name key is ret exists = Some (ret', exists') \<Longrightarrow> ret' \<le> ret"
  by (induction "is" arbitrary: ret "exists") (force split: option.splits prod.splits if_splits)+

text \<open>Whatever the configuration files contain, the concurrency the library works with is at least 64 and
  at most 65536.\<close>

theorem GetQatMaxConcurrency_bounds:
  assumes "GetQatMaxConcurrency fs name type = Some n"
  shows "kMinQatConcurrency \<le> n \<and> n \<le> kMaxQatConcurrency"
  using assms min_concurrency_bounds
  by (auto simp: GetQatMaxConcurrency_def kMinQatConcurrency_def kMaxQatConcurrency_def kDefaultQatConcurrency_def Let_def
      split: option.splits QatServiceType.splits if_splits)

lemma min_concurrency_no_files:
  "(\<And>i. fs (config_file_name i) = None) \<Longrightarrow> min_concurrency fs name key is ret exists = Some (ret, exists)"
  by (induction "is" arbitrary: ret "exists") (auto simp: ReadConcurrencyFromFile_def)

theorem GetQatMaxConcurrency_bounds_witness:
  "GetQatMaxConcurrency (\<lambda>_. None) ''SSL'' kServiceDc = Some 512 \<and> kMinQatConcurrency \<le> 512 \<and> 512 \<le> kMaxQatConcurrency"
proof -
  have "GetQatMaxConcurrency (\<lambda>_. None) ''SSL'' kServiceDc = Some 512"
    by (simp add: GetQatMaxConcurrency_def min_concurrency_no_files kDefaultQatConcurrency_def kMinQatConcurrency_def)
  then show ?thesis
    using GetQatMaxConcurrency_bounds by blast
qed

end
