(* ===== verification/Codec_Types.thy ===== *)
theory Codec_Types
  imports Vesal_Status "HOL-Library.Product_Lexorder"
begin

text \<open>The types of the compression interface, \<^verbatim>\<open>include/vesal/codec.h\<close>: results, options and the order on
  channel options that keys the pollers of shared channels (\<^verbatim>\<open>src/src/codec/codec.cc\<close>).  A callback is
  identified by its address.\<close>

record CodecResult =
  consumed :: u32
  produced :: u32
  in_checksum :: u64
  out_checksum :: u64
  status :: StatusCode
  ctx :: nat

definition CodecResult_default :: CodecResult where
  "CodecResult_default =
    \<lparr> consumed = 0, produced = 0, in_checksum = 0, out_checksum = 0, status = kUnknown, ctx = 0 \<rparr>"

datatype CodecEngineType = kSoftware | kQat | kKae | kEngineNum
datatype HaPolicy = kHaHardware | kHaSoftware | kHaNone | kHaNum
datatype CodecAlgorithm = kLz4 | kZstd | kDeflate | kZlib | kAlgorithmNum
datatype CodecCompLevel =
    kLevel1 | kLevel2 | kLevel3 | kLevel4 | kLevel5 | kLevel6 | kLevel7 | kLevel8 | kLevel9 | kLevel10
  | kLevel11 | kLevel12 | kLevelNum
datatype CodecChecksumType = kNoChecksum | kCrc32 | kChecksumNum
datatype ChannelMode = kDedicated | kShared | kModeNum
datatype CodecDirection = kComp | kDecomp | kDirectionNum

fun ha_value :: "HaPolicy \<Rightarrow> nat" where
  "ha_value kHaHardware = 1" | "ha_value kHaSoftware = 2" | "ha_value kHaNone = 3" | "ha_value kHaNum = 4"

fun algorithm_value :: "CodecAlgorithm \<Rightarrow> nat" where
  "algorithm_value kLz4 = 1" | "algorithm_value kZstd = 2" | "algorithm_value kDeflate = 3"
| "algorithm_value kZlib = 4" | "algorithm_value kAlgorithmNum = 5"

fun level_value :: "CodecCompLevel \<Rightarrow> nat" where
  "level_value kLevel1 = 1" | "level_value kLevel2 = 2" | "level_value kLevel3 = 3" | "level_value kLevel4 = 4"
| "level_value kLevel5 = 5" | "level_value kLevel6 = 6" | "level_value kLevel7 = 7" | "level_value kLevel8 = 8"
| "level_value kLevel9 = 9" | "level_value kLevel10 = 10" | "level_value kLevel11 = 11" | "level_value kLevel12 = 12"
| "level_value kLevelNum = 13"

fun checksum_value :: "CodecChecksumType \<Rightarrow> nat" where
  "checksum_value kNoChecksum = 1" | "checksum_value kCrc32 = 2" | "checksum_value kChecksumNum = 3"

record ChannelAllocationOption =
  node_affinity :: int
  opt_device_id :: int

record CodecSessionOption =
  codec_algorithm :: CodecAlgorithm
  session_level :: CodecCompLevel

record CodecChannelOption =
  user_cb :: nat
  mode :: ChannelMode
  ha_policy :: HaPolicy
  engine_type :: CodecEngineType
  comp_algorithm :: CodecAlgorithm
  comp_level :: CodecCompLevel
  checksum_type :: CodecChecksumType
  compressed_checksum :: bool
  allocation_option :: ChannelAllocationOption
  sw_backup :: bool
  timeout_ms :: u64

definition CodecChannelOption_default :: CodecChannelOption where
  "CodecChannelOption_default =
    \<lparr> user_cb = 0, mode = kDedicated, ha_policy = kHaNone, engine_type = kQat, comp_algorithm = kLz4,
      comp_level = kLevel4, checksum_type = kNoChecksum, compressed_checksum = True,
      allocation_option = \<lparr> node_affinity = -1, opt_device_id = -1 \<rparr>, sw_backup = False, timeout_ms = 3000 \<rparr>"

text \<open>The tuple of \<^verbatim>\<open>std::tie\<close> and its lexicographic comparison.\<close>

definition option_key :: "CodecChannelOption \<Rightarrow> nat \<times> nat \<times> nat \<times> nat \<times> nat \<times> bool \<times> int \<times> bool \<times> u64" where
  "option_key opt =
    (user_cb opt, ha_value (ha_policy opt), algorithm_value (comp_algorithm opt), level_value (comp_level opt),
     checksum_value (checksum_type opt), compressed_checksum opt, node_affinity (allocation_option opt), sw_backup opt, timeout_ms opt)"

definition option_less :: "CodecChannelOption \<Rightarrow> CodecChannelOption \<Rightarrow> bool" where
  "option_less a b \<longleftrightarrow> option_key a < option_key b"

text \<open>The check \<^verbatim>\<open>ValidateChannelOption\<close> of \<^verbatim>\<open>src/src/codec/qat/qat_codec.cc\<close>.\<close>

definition ValidateChannelOption :: "CodecChannelOption \<Rightarrow> Status" where
  "ValidateChannelOption opts =
    (if mode opts = kModeNum \<or> ha_policy opts = kHaNum \<or> engine_type opts = kEngineNum
        \<or> comp_algorithm opts = kAlgorithmNum \<or> checksum_type opts = kChecksumNum \<or> comp_level opts = kLevelNum
     then StatusCodeToStatus kInvalidArgument ''Invalid channel option.''
     else OkStatus)"

lemma ha_value_inj: "ha_value a = ha_value b \<longleftrightarrow> a = b"
  by (cases a; cases b) simp_all

lemma algorithm_value_inj: "algorithm_value a = algorithm_value b \<longleftrightarrow> a = b"
  by (cases a; cases b) simp_all

lemma level_value_inj: "level_value a = level_value b \<longleftrightarrow> a = b"
  by (cases a; cases b) simp_all

lemma checksum_value_inj: "checksum_value a = checksum_value b \<longleftrightarrow> a = b"
  by (cases a; cases b) simp_all

text \<open>The order on channel options is a strict weak order, as the map that it keys requires, and two
  options are equivalent exactly when they agree on the compared fields; the requested device, the mode and
  the engine are not compared, so options that differ only there count as the same key.\<close>

theorem option_order:
  "\<not> option_less a a \<and> (option_less a b \<longrightarrow> option_less b c \<longrightarrow> option_less a c)
    \<and> ((\<not> option_less a b \<and> \<not> option_less b a) \<longleftrightarrow>
        user_cb a = user_cb b \<and> ha_policy a = ha_policy b \<and> comp_algorithm a = comp_algorithm b \<and> comp_level a = comp_level b
        \<and> checksum_type a = checksum_type b \<and> compressed_checksum a = compressed_checksum b
        \<and> node_affinity (allocation_option a) = node_affinity (allocation_option b) \<and> sw_backup a = sw_backup b
        \<and> timeout_ms a = timeout_ms b)"
proof (intro conjI impI)
  show "\<not> option_less a a"
    unfolding option_less_def by (rule less_irrefl)
  show "option_less a c" if "option_less a b" "option_less b c"
    using that unfolding option_less_def by (rule less_trans)
  have "(\<not> option_less a b \<and> \<not> option_less b a) \<longleftrightarrow> option_key a = option_key b"
    unfolding option_less_def by (rule not_less_iff_gr_or_eq [THEN conj_cong, THEN trans, OF refl]) (metis less_asym less_irrefl)
  then show "(\<not> option_less a b \<and> \<not> option_less b a) \<longleftrightarrow>
        user_cb a = user_cb b \<and> ha_policy a = ha_policy b \<and> comp_algorithm a = comp_algorithm b \<and> comp_level a = comp_level b
        \<and> checksum_type a = checksum_type b \<and> compressed_checksum a = compressed_checksum b
        \<and> node_affinity (allocation_option a) = node_affinity (allocation_option b) \<and> sw_backup a = sw_backup b
        \<and> timeout_ms a = timeout_ms b"
    by (simp add: option_key_def ha_value_inj algorithm_value_inj level_value_inj checksum_value_inj)
qed

theorem option_order_witness:
  "let a = CodecChannelOption_default; b = a\<lparr> timeout_ms := 4000 \<rparr>; c = b\<lparr> sw_backup := True \<rparr>;
       d = a\<lparr> allocation_option := \<lparr> node_affinity = -1, opt_device_id = 7 \<rparr> \<rparr>
   in option_less a b \<and> option_less b c \<and> option_less a c \<and> \<not> option_less a d \<and> \<not> option_less d a"
proof -
  let ?a = CodecChannelOption_default
  let ?b = "?a\<lparr> timeout_ms := 4000 \<rparr>"
  let ?c = "?b\<lparr> sw_backup := True \<rparr>"
  let ?d = "?a\<lparr> allocation_option := \<lparr> node_affinity = -1, opt_device_id = 7 \<rparr> \<rparr>"
  have "option_less ?a ?b" "option_less ?b ?c"
    by (simp_all add: option_less_def option_key_def CodecChannelOption_default_def)
  then show ?thesis
    using option_order [of ?a ?b ?c] option_order [of ?a ?d ?d]
    by (simp add: CodecChannelOption_default_def)
qed

end
