(* ===== verification/Qat_Codec.thy ===== *)
theory Qat_Codec
  imports Qat_Unit_Manager Qat_Util Codec_Types
begin

text \<open>The QAT codec and its place among the codecs, \<^verbatim>\<open>src/src/codec/qat/qat_codec.{h,cc}\<close> and
  \<^verbatim>\<open>src/src/codec/codec.cc\<close>, and the handler of error injection messages that looks up its units
  (\<^verbatim>\<open>src/src/common/err_simulation.cc\<close>).  \<open>is_running\<close> is the static flag of the class.  \<open>None\<close> as a result
  is an access through a null pointer or an exception.\<close>

unbundle bit_operations_syntax

section \<open>The codec\<close>

definition QAT_RING_FREE_SIZE :: nat where "QAT_RING_FREE_SIZE = 2"

record QatCodec =
  unit_manager :: QatUnitManager
  max_in_qat_size :: nat

record codec_env =
  is_running :: bool
  g_max_qat_cfg_concurrency :: nat

text \<open>What a start depends on: the driver, its memory, the configuration files, the section name, the flag that
  bounds the number of requests, and whether the driver library was loaded.\<close>

record start_args =
  sa_driver :: qat_driver
  sa_memory :: "nat \<Rightarrow> QatUnitAttr"
  sa_files :: "string \<Rightarrow> string list option"
  sa_section :: string
  sa_max_in_qat_num :: nat
  sa_driver_load_codec_ok :: bool

definition QatCodec_new :: QatCodec where
  "QatCodec_new = \<lparr> unit_manager = QatUnitManager_new, max_in_qat_size = 0 \<rparr>"

definition QatCodec_Start :: "start_args \<Rightarrow> codec_env \<times> QatCodec \<Rightarrow> (Status \<times> codec_env \<times> QatCodec) option" where
  "QatCodec_Start a = (\<lambda>(env, c).
    if is_running env then Some (StatusCodeToStatus kResourceBusy ''QatCodec already initialized.'', env, c)
    else if \<not> sa_driver_load_codec_ok a
    then Some (StatusCodeToStatus kNotSupported
           (''Failed to load qat driver, make sure libqat_s.so and '' @ ''libusdm_drv_s.so exits in the system.''), env, c)
    else
      case GetQatMaxConcurrency (sa_files a) (sa_section a) kServiceDc of
        None \<Rightarrow> None
      | Some n \<Rightarrow>
          let env = env\<lparr> g_max_qat_cfg_concurrency := n - QAT_RING_FREE_SIZE \<rparr>;
              c = c\<lparr> max_in_qat_size :=
                       (if sa_max_in_qat_num a > g_max_qat_cfg_concurrency env then g_max_qat_cfg_concurrency env
                        else sa_max_in_qat_num a) \<rparr>;
              (r, m) = QatUnitManager_Init (sa_driver a) (sa_memory a) kDc (unit_manager c);
              c = c\<lparr> unit_manager := m \<rparr>
          in Some (if \<not> status_ok r then (r, env, c) else (OkStatus, env\<lparr> is_running := True \<rparr>, c)))"

definition QatCodec_Stop :: "qat_driver \<Rightarrow> codec_env \<times> QatCodec \<Rightarrow> Status \<times> codec_env \<times> QatCodec" where
  "QatCodec_Stop drv = (\<lambda>(env, c).
    if \<not> is_running env then (OkStatus, env, c)
    else (OkStatus, env\<lparr> is_running := False \<rparr>, c\<lparr> unit_manager := snd (QatUnitManager_Uninit drv (unit_manager c)) \<rparr>))"

text \<open>The destructor stops the codec; the object is gone afterwards.\<close>

definition QatCodec_destroy :: "qat_driver \<Rightarrow> codec_env \<times> QatCodec \<Rightarrow> codec_env" where
  "QatCodec_destroy drv s = fst (snd (QatCodec_Stop drv s))"

definition GetAllUnits :: "QatCodec \<Rightarrow> nat list" where
  "GetAllUnits c = LookupUnits QatUnitSelection_default (unit_manager c)"

definition GetUnitWithDeviceId :: "int \<Rightarrow> QatCodec \<Rightarrow> nat list" where
  "GetUnitWithDeviceId dev c = LookupUnits (QatUnitSelection_default\<lparr> sel_pf_id := dev \<rparr>) (unit_manager c)"

definition GetUnitWithFunctionId :: "int \<Rightarrow> int \<Rightarrow> QatCodec \<Rightarrow> nat list" where
  "GetUnitWithFunctionId dev fn c =
    LookupUnits (QatUnitSelection_default\<lparr> sel_pf_id := dev, sel_vf_id := fn \<rparr>) (unit_manager c)"

definition GetUnitWithInstId :: "int \<Rightarrow> int \<Rightarrow> int \<Rightarrow> QatCodec \<Rightarrow> nat option" where
  "GetUnitWithInstId dev fn inst c =
    (let v = LookupUnits (QatUnitSelection_default\<lparr> sel_pf_id := dev, sel_vf_id := fn, sel_inst_id := inst \<rparr>) (unit_manager c)
     in if length v > 0 then Some (v ! 0) else None)"

section \<open>All codecs\<close>

record codecs =
  env :: codec_env
  g_qat_codec :: "QatCodec option"
  g_sw_codec :: bool
  g_kae_codec :: bool

text \<open>\<open>kae\<close> tells whether KAE support is compiled in.\<close>

definition Codec_Init :: "bool \<Rightarrow> start_args \<Rightarrow> bool \<Rightarrow> bool \<Rightarrow> codecs \<Rightarrow> (bool \<times> codecs) option" where
  "Codec_Init kae a init_qat init_kae g =
    (let g = g\<lparr> g_sw_codec := True \<rparr>;
         finish = (\<lambda>g. (True, if init_kae \<and> kae then g\<lparr> g_kae_codec := True \<rparr> else g))
     in if init_qat then
          case QatCodec_Start a (env g, QatCodec_new) of
            None \<Rightarrow> None
          | Some (r, e, c) \<Rightarrow>
              if \<not> status_ok r then Some (False, g\<lparr> env := QatCodec_destroy (sa_driver a) (e, c) \<rparr>)
              else
                let e = (case g_qat_codec g of None \<Rightarrow> e | Some old \<Rightarrow> QatCodec_destroy (sa_driver a) (e, old))
                in Some (finish (g\<lparr> env := e, g_qat_codec := Some c \<rparr>))
        else Some (finish g))"

definition Codec_Uninit :: "bool \<Rightarrow> qat_driver \<Rightarrow> codecs \<Rightarrow> bool \<times> codecs" where
  "Codec_Uninit kae drv g =
    (let g = (case g_qat_codec g of
                None \<Rightarrow> g
              | Some c \<Rightarrow>
                  let (r, e, c') = QatCodec_Stop drv (env g, c)
                  in g\<lparr> env := QatCodec_destroy drv (e, c'), g_qat_codec := None \<rparr>);
         g = g\<lparr> g_sw_codec := False \<rparr>
     in (True, if kae then g\<lparr> g_kae_codec := False \<rparr> else g))"

section \<open>Error injection\<close>

text \<open>Numbers as \<^verbatim>\<open>std::ostream\<close> prints them with \<^verbatim>\<open>std::hex\<close>.\<close>

fun to_hex :: "nat \<Rightarrow> string" where
  "to_hex n = (if n < 16 then [''0123456789abcdef'' ! n] else to_hex (n div 16) @ [''0123456789abcdef'' ! (n mod 16)])"

declare to_hex.simps [simp del]

definition show_bool :: "bool \<Rightarrow> string" where
  "show_bool b = (if b then ''1'' else ''0'')"

definition show_int :: "int \<Rightarrow> string" where
  "show_int i = (if i < 0 then ''-'' @ to_string (nat (- i)) else to_string (nat i))"

definition show_unit :: "QatUnit \<Rightarrow> string" where
  "show_unit u =
    (let a = qat_unit_attr u in
     ''QatUnit, instance_id: '' @ instance_id a @ '', device_id: '' @ to_hex (unat (device_id a))
     @ '', function_id: '' @ to_hex (unat (function_id a)) @ '', inst_id: '' @ to_hex (unat (inst_id a))
     @ '', numa_hint: '' @ to_hex (unat (word_of_int (numa_hint a) :: u32)) @ '', is_polled: '' @ show_bool (is_polled a)
     @ '', is_crc_supp: '' @ show_bool (is_crc_supp a) @ '', svm_disabled: '' @ show_bool (is_phys_contiguous_mem_required a)
     @ '', in_use_cnt: '' @ show_int (ref_cnt u) @ '', blacklisted: '' @ show_bool (blacklisted u)
     @ '', in_use_thread_name_: '' @ in_use_thread_name u)"

definition GetQatUnit :: "u8 \<Rightarrow> u8 \<Rightarrow> u8 \<Rightarrow> u8 \<Rightarrow> QatCodec option \<Rightarrow> nat option list option" where
  "GetQatUnit specify_type pf vf inst codec =
    (case codec of
       None \<Rightarrow> Some []
     | Some c \<Rightarrow>
         if specify_type = 0 then Some (map Some (GetAllUnits c))
         else if specify_type = 1 then Some (map Some (GetUnitWithDeviceId (uint pf) c))
         else if specify_type = 2 then Some (map Some (GetUnitWithFunctionId (uint pf) (uint vf) c))
         else if specify_type = 3 then Some [GetUnitWithInstId (uint pf) (uint vf) (uint inst) c]
         else None)"

text \<open>The loop over the units; a null unit is dereferenced.\<close>

fun inject_units :: "(QatUnit \<Rightarrow> QatUnit) \<Rightarrow> nat option list \<Rightarrow> QatUnit list \<Rightarrow> QatUnit list option" where
  "inject_units f [] us = Some us"
| "inject_units f (None # ps) us = None"
| "inject_units f (Some i # ps) us = inject_units f ps (us[i := f (us ! i)])"

fun list_units :: "nat option list \<Rightarrow> QatUnit list \<Rightarrow> string option" where
  "list_units [] us = Some ''''"
| "list_units (None # ps) us = None"
| "list_units (Some i # ps) us = map_option (\<lambda>t. show_unit (us ! i) @ [CHR 0x0A] @ t) (list_units ps us)"

text \<open>\<open>resp\<close> is whether the caller passed a place for the response.\<close>

definition HandleQatErrSim ::
  "bool \<Rightarrow> (u64 \<Rightarrow> u64) \<Rightarrow> u64 \<Rightarrow> u8 list \<Rightarrow> bool \<Rightarrow> QatCodec option \<Rightarrow> (Status \<times> string \<times> QatCodec option) option" where
  "HandleQatErrSim le UsToDuration now msg resp codec =
    (let p = parse_err_sim le msg;
         specify_type = VESAL_QAT_ERR_SIM_SPECIFY_TYPE (m_flags p);
         op = VESAL_QAT_ERR_SIM_OP_TYPE (m_flags p);
         us = (case codec of None \<Rightarrow> [] | Some c \<Rightarrow> all_units (unit_manager c)) in
     case GetQatUnit specify_type (m_pf_id p) (m_vf_id p) (m_inst_id p) codec of
       None \<Rightarrow> None
     | Some units \<Rightarrow>
         if op = 1 then
           (case list_units units us of
              None \<Rightarrow> None
            | Some text \<Rightarrow> if resp then Some (OkStatus, text, codec) else None)
         else if units = [] then Some (StatusCodeToStatus kInvalidArgument ''invalid msg id'', '''', codec)
         else if VESAL_QAT_ERR_SIM_IS_TIMEOUT (m_code p) \<and> m_type p \<noteq> kResult
         then Some (StatusCodeToStatus kInvalidArgument ''invalid timeout msg type'', '''', codec)
         else if m_cnt p = 0 \<and> m_code p \<noteq> VESAL_QAT_ERR_SIM_OK
         then Some (StatusCodeToStatus kInvalidArgument ''invalid msg cnt'', '''', codec)
         else
           (case inject_units (SetQatErrSim UsToDuration now (m_type p) (m_code p) (m_cnt p)) units us of
              None \<Rightarrow> None
            | Some us' \<Rightarrow>
                Some (OkStatus, if resp then ''OK'' else '''',
                      map_option (\<lambda>c. c\<lparr> unit_manager := (unit_manager c)\<lparr> all_units := us' \<rparr> \<rparr>) codec)))"

definition ErrSimHandler ::
  "bool \<Rightarrow> (u64 \<Rightarrow> u64) \<Rightarrow> u64 \<Rightarrow> u8 list \<Rightarrow> bool \<Rightarrow> QatCodec option \<Rightarrow> (Status \<times> string \<times> QatCodec option) option" where
  "ErrSimHandler le UsToDuration now msg resp codec =
    (if length msg \<noteq> VESAL_ERR_SIM_UDS_MSG_LEN
     then Some (StatusCodeToStatus kInvalidArgument (''invalid msg len='' @ to_string (length msg)), '''', codec)
     else if take VESAL_ERR_SIM_UDS_MAGIC_LEN msg = VESAL_QAT_ERR_SIM_UDS_MAGIC
     then HandleQatErrSim le UsToDuration now msg resp codec
     else Some (StatusCodeToStatus kInvalidArgument
            (''invalid msg magic '' @ map (\<lambda>b. char_of (unat b)) (take VESAL_ERR_SIM_UDS_MAGIC_LEN msg)), '''', codec))"

section \<open>Injection reaches the selected units\<close>

definition selected :: "u8 \<Rightarrow> u8 \<Rightarrow> u8 \<Rightarrow> u8 \<Rightarrow> QatUnit \<Rightarrow> bool" where
  "selected sel pf vf inst u \<longleftrightarrow>
    (unat sel \<ge> 1 \<longrightarrow> uint pf = GetDeviceId u) \<and> (unat sel \<ge> 2 \<longrightarrow> uint vf = GetFunctionId u) \<and> (unat sel \<ge> 3 \<longrightarrow> uint inst = GetInstId u)"

lemma two_bits_cases:
  fixes x :: u8
  assumes "x < 4"
  obtains "x = 3" | "x = 2" | "x = 1" | "x = 0"
proof -
  have "unat x < 4"
    using assms by (simp add: word_less_nat_alt)
  then have "unat x = 3 \<or> unat x = 2 \<or> unat x = 1 \<or> unat x = 0"
    by linarith
  then show ?thesis
    using that by (auto simp: word_unat_eq_iff)
qed

lemma inject_units_at:
  assumes "distinct is" "\<forall>i \<in> set is. i < length us"
  shows "inject_units f (map Some is) us = Some (map (\<lambda>i. if i \<in> set is then f (us ! i) else us ! i) [0..<length us])"
  using assms
proof (induction "is" arbitrary: us)
  case Nil
  then show ?case
    by (simp add: map_nth)
next
  case (Cons i "is")
  then show ?case
    by (auto simp: nth_list_update)
qed

lemma inject_units_filter:
  "inject_units f (map Some (filter (\<lambda>i. P (us ! i)) [0..<length us])) us = Some (map (\<lambda>u. if P u then f u else u) us)"
proof -
  let ?is = "filter (\<lambda>i. P (us ! i)) [0..<length us]"
  have eq: "map (\<lambda>i. if i \<in> set ?is then f (us ! i) else us ! i) [0..<length us] = map (\<lambda>u. if P u then f u else u) us"
    by (rule nth_equalityI) auto
  have "distinct ?is" "\<forall>i \<in> set ?is. i < length us"
    by auto
  then show ?thesis
    unfolding eq [symmetric] by (rule inject_units_at)
qed

lemma GetQatUnit_group:
  assumes "sel < 3"
  shows "GetQatUnit sel pf vf inst (Some c) =
    Some (map Some (filter (\<lambda>i. selected sel pf vf inst (all_units (unit_manager c) ! i)) [0..<length (all_units (unit_manager c))]))"
proof -
  have "sel < 4"
    using assms by (rule order_less_trans) simp
  then show ?thesis
    using assms
    by (cases sel rule: two_bits_cases)
      (simp_all add: GetQatUnit_def GetAllUnits_def GetUnitWithDeviceId_def GetUnitWithFunctionId_def LookupUnits_def
        QatUnitSelection_default_def FitSelection_def selected_def)
qed

lemma GetQatUnit_instance:
  assumes "is = filter (\<lambda>i. selected 3 pf vf inst (all_units (unit_manager c) ! i)) [0..<length (all_units (unit_manager c))]"
  shows "GetQatUnit 3 pf vf inst (Some c) = Some [case is of [] \<Rightarrow> None | i # _ \<Rightarrow> Some i]"
proof -
  have "LookupUnits (QatUnitSelection_default\<lparr> sel_pf_id := uint pf, sel_vf_id := uint vf, sel_inst_id := uint inst \<rparr>) (unit_manager c) = is"
    unfolding assms by (simp add: LookupUnits_def QatUnitSelection_default_def FitSelection_def selected_def)
  then show ?thesis
    by (cases "is") (simp_all add: GetQatUnit_def GetUnitWithInstId_def)
qed

text \<open>A message as the tool sends it, read by the handler.\<close>

definition inject_msg :: "bool \<Rightarrow> u8 \<Rightarrow> u8 \<Rightarrow> u8 \<Rightarrow> u8 \<Rightarrow> u8 \<Rightarrow> QatErrSimType \<Rightarrow> QatErrSimCode \<Rightarrow> QatErrSimCnt \<Rightarrow> u8 list" where
  "inject_msg le sel op pf vf inst type code cnt =
    PackQatErrSimUdsMsg le (PackQatErrSimUdsFlags sel op) pf vf inst type code cnt"

lemma and_three: "(x :: u8) < 4 \<Longrightarrow> x AND 3 = x"
  by (erule two_bits_cases) simp_all

lemma ErrSimHandler_inject:
  assumes "sel < 4" "op < 2"
  shows "ErrSimHandler le us now (inject_msg le sel op pf vf inst type code cnt) resp codec =
    HandleQatErrSim le us now (inject_msg le sel op pf vf inst type code cnt) resp codec"
    and "parse_err_sim le (inject_msg le sel op pf vf inst type code cnt) =
      \<lparr> m_flags = PackQatErrSimUdsFlags sel op, m_pf_id = pf, m_vf_id = vf, m_inst_id = inst, m_type = type, m_code = code, m_cnt = cnt \<rparr>"
    and "VESAL_QAT_ERR_SIM_SPECIFY_TYPE (PackQatErrSimUdsFlags sel op) = sel"
    and "VESAL_QAT_ERR_SIM_OP_TYPE (PackQatErrSimUdsFlags sel op) = op"
proof -
  have "unat op < 2"
    using assms(2) by (simp add: word_less_nat_alt)
  then have "op = 0 \<or> op = 1"
    by (auto simp: word_unat_eq_iff less_2_cases_iff)
  then show "VESAL_QAT_ERR_SIM_OP_TYPE (PackQatErrSimUdsFlags sel op) = op"
    by (auto simp: op_type_pack)
  show "ErrSimHandler le us now (inject_msg le sel op pf vf inst type code cnt) resp codec =
    HandleQatErrSim le us now (inject_msg le sel op pf vf inst type code cnt) resp codec"
    by (simp add: ErrSimHandler_def inject_msg_def pack_msg_bytes
      VESAL_ERR_SIM_UDS_MSG_LEN_def VESAL_ERR_SIM_UDS_MAGIC_LEN_def VESAL_QAT_ERR_SIM_UDS_MAGIC_def)
qed (use assms in \<open>simp_all add: inject_msg_def parse_pack_msg specify_type_pack and_three\<close>)

definition two_unit_codec :: QatCodec where
  "two_unit_codec =
    \<lparr> unit_manager = \<lparr> unit_num = 2, all_units = [started_unit 10, started_unit 11], pf_in_use_cnt = [0x75 \<mapsto> 0] \<rparr>,
      max_in_qat_size = 62 \<rparr>"

text \<open>C24: An injection message for all units, for a device or for a function of a device, packed on a host of
  either byte order, puts the simulated error into exactly the selected units and leaves every other unit and
  the rest of the codec unchanged; when no unit is selected it is rejected and changes nothing.\<close>

theorem injection_reaches_selected:
  assumes "sel < 3" "VESAL_QAT_ERR_SIM_IS_TIMEOUT code \<longrightarrow> type = kResult" "cnt \<noteq> 0 \<or> code = VESAL_QAT_ERR_SIM_OK"
    and "us = all_units (unit_manager c)"
  shows "ErrSimHandler le UsToDuration now (inject_msg le sel 0 pf vf inst type code cnt) resp (Some c) =
    (if \<exists>u \<in> set us. selected sel pf vf inst u then
       Some (OkStatus, if resp then ''OK'' else '''',
         Some (c\<lparr> unit_manager := (unit_manager c)\<lparr> all_units :=
           map (\<lambda>u. if selected sel pf vf inst u then SetQatErrSim UsToDuration now type code cnt u else u) us \<rparr> \<rparr>))
     else Some (StatusCodeToStatus kInvalidArgument ''invalid msg id'', '''', Some c))"
proof -
  have sel: "sel < 4"
    using assms(1) by (rule order_less_trans) simp
  have op: "(0 :: u8) < 2"
    by simp
  have none: "filter (\<lambda>i. selected sel pf vf inst (us ! i)) [0..<length us] = [] \<longleftrightarrow> \<not> (\<exists>u \<in> set us. selected sel pf vf inst u)"
    by (auto simp: filter_empty_conv all_set_conv_all_nth)
  note handler = ErrSimHandler_inject [OF sel op]
  show ?thesis
    using assms(2,3) inject_units_filter [of "SetQatErrSim UsToDuration now type code cnt" "selected sel pf vf inst" us]
    unfolding handler(1) HandleQatErrSim_def Let_def handler(2) err_sim_msg.simps handler(3,4) GetQatUnit_group [OF assms(1)]
      option.case assms(4) [symmetric] by (auto simp: none)
qed

theorem injection_reaches_selected_witness:
  "ErrSimHandler True id 0 (inject_msg True 1 0 0x75 0 0 kSubmit 4 2) True (Some two_unit_codec) =
     Some (OkStatus, ''OK'', Some (two_unit_codec\<lparr> unit_manager := (unit_manager two_unit_codec)\<lparr> all_units :=
       map (SetQatErrSim id 0 kSubmit 4 2) [started_unit 10, started_unit 11] \<rparr> \<rparr>))"
  using injection_reaches_selected [of 1 4 kSubmit 2 _ two_unit_codec True id 0 "0x75" 0 0 True]
  by (simp add: two_unit_codec_def selected_def VESAL_QAT_ERR_SIM_IS_TIMEOUT_def)

text \<open>A message that names an instance the codec does not have is not rejected: the lookup gives a list
  with a null pointer, which both listing and injecting dereference.  So any peer of the socket can crash the
  process.\<close>

theorem missing_instance_crashes:
  assumes "\<forall>u \<in> set (all_units (unit_manager c)). \<not> selected 3 pf vf inst u" "op < 2"
    and "VESAL_QAT_ERR_SIM_IS_TIMEOUT code \<longrightarrow> type = kResult" "cnt \<noteq> 0 \<or> code = VESAL_QAT_ERR_SIM_OK"
  shows "ErrSimHandler le UsToDuration now (inject_msg le 3 op pf vf inst type code cnt) resp (Some c) = None"
proof -
  have sel: "(3 :: u8) < 4"
    by simp
  have none: "filter (\<lambda>i. selected 3 pf vf inst (all_units (unit_manager c) ! i)) [0..<length (all_units (unit_manager c))] = []"
    using assms(1) by (simp add: filter_empty_conv)
  note handler = ErrSimHandler_inject [OF sel assms(2)]
  show ?thesis
    using assms(3,4)
    unfolding handler(1) HandleQatErrSim_def Let_def handler(2) err_sim_msg.simps handler(3,4) GetQatUnit_instance [OF refl] none by auto
qed

theorem missing_instance_crashes_witness:
  "ErrSimHandler True id 0 (inject_msg True 3 1 0x75 1 7 kSubmit 4 2) True (Some two_unit_codec) = None"
  using missing_instance_crashes [of two_unit_codec "0x75" 1 7 1 4 kSubmit 2 True id 0 True]
  by (simp add: two_unit_codec_def selected_def VESAL_QAT_ERR_SIM_IS_TIMEOUT_def GetInstId_def started_unit_def)

section \<open>One running instance\<close>

lemma QatCodec_Start_cases:
  assumes "QatCodec_Start a (e, c) = Some (r, e', c')"
  shows "status_ok r \<Longrightarrow> \<not> is_running e \<and> is_running e'" "\<not> status_ok r \<Longrightarrow> is_running e' = is_running e"
    "status_ok r \<Longrightarrow> max_in_qat_size c' \<le> g_max_qat_cfg_concurrency e'"
  using assms by (auto simp: QatCodec_Start_def Let_def split: if_splits option.splits prod.splits)

lemma destroy_stops: "\<not> is_running (QatCodec_destroy drv (e, c))"
  by (simp add: QatCodec_destroy_def QatCodec_Stop_def)

text \<open>C25: From a stopped library, initialization gives a running codec exactly when the QAT codec was requested
  and reported success, the number of requests it admits stays below the configured ring size, and shutting
  down afterwards leaves no codec and nothing running.\<close>

theorem Codec_lifecycle:
  assumes "g_qat_codec g = None" "\<not> is_running (env g)" "Codec_Init kae a init_qat init_kae g = Some (ok, g')"
  shows "(is_running (env g') \<longleftrightarrow> init_qat \<and> ok) \<and> (g_qat_codec g' \<noteq> None \<longleftrightarrow> init_qat \<and> ok)
    \<and> (\<forall>c. g_qat_codec g' = Some c \<longrightarrow> max_in_qat_size c \<le> g_max_qat_cfg_concurrency (env g'))
    \<and> (let (r, g'') = Codec_Uninit kae drv g' in r \<and> g_qat_codec g'' = None \<and> \<not> is_running (env g'') \<and> \<not> g_sw_codec g'')"
proof -
  have init: "(is_running (env g') \<longleftrightarrow> init_qat \<and> ok) \<and> (g_qat_codec g' \<noteq> None \<longleftrightarrow> init_qat \<and> ok)
    \<and> (\<forall>c. g_qat_codec g' = Some c \<longrightarrow> max_in_qat_size c \<le> g_max_qat_cfg_concurrency (env g'))"
  proof (cases init_qat)
    case True
    then obtain r e c where start: "QatCodec_Start a (env g, QatCodec_new) = Some (r, e, c)"
      using assms(3) by (cases "QatCodec_Start a (env g, QatCodec_new)") (auto simp: Codec_Init_def Let_def)
    show ?thesis
      using assms True start QatCodec_Start_cases [OF start]
      by (cases "status_ok r") (auto simp: Codec_Init_def Let_def destroy_stops split: if_splits)
  qed (use assms in \<open>auto simp: Codec_Init_def Let_def split: if_splits\<close>)
  then have "is_running (env g') \<longrightarrow> g_qat_codec g' \<noteq> None"
    by simp
  then have "let (r, g'') = Codec_Uninit kae drv g' in r \<and> g_qat_codec g'' = None \<and> \<not> is_running (env g'') \<and> \<not> g_sw_codec g''"
    by (cases "g_qat_codec g'") (simp_all add: Codec_Uninit_def Let_def destroy_stops split: prod.split)
  then show ?thesis
    using init by blast
qed

text \<open>Initializing again while the codec runs fails, but the destructor of the rejected instance stops the
  codec through the shared flag: nothing counts as running any more although the first codec still holds its
  units, so a further start is admitted, against the rule of one instance per process.\<close>

theorem second_init_clears_running:
  assumes "g_qat_codec g = Some c" "is_running (env g)"
  shows "\<exists>g'. Codec_Init kae a True init_kae g = Some (False, g') \<and> g_qat_codec g' = Some c
    \<and> env g' = (env g)\<lparr> is_running := False \<rparr>"
  using assms by (simp add: Codec_Init_def QatCodec_Start_def QatCodec_destroy_def QatCodec_Stop_def)

definition idle_args :: start_args where
  "idle_args =
    \<lparr> sa_driver = idle_driver, sa_memory = \<lambda>i. qat_unit_attr (started_unit 0), sa_files = \<lambda>f. None, sa_section = ''SSL'',
      sa_max_in_qat_num = 1000, sa_driver_load_codec_ok = True \<rparr>"

definition stopped_codecs :: codecs where
  "stopped_codecs =
    \<lparr> env = \<lparr> is_running = False, g_max_qat_cfg_concurrency = 0 \<rparr>, g_qat_codec = None, g_sw_codec = False, g_kae_codec = False \<rparr>"

lemma no_files_concurrency: "GetQatMaxConcurrency (\<lambda>f. None) s kServiceDc = Some 512"
proof -
  have "min_concurrency (\<lambda>f. None) s key is ret b = Some (ret, b)" for key "is" ret b
    by (induction "is") (simp_all add: ReadConcurrencyFromFile_def)
  then show ?thesis
    by (simp add: GetQatMaxConcurrency_def kDefaultQatConcurrency_def kMinQatConcurrency_def)
qed

lemma init_idle_codecs:
  "Codec_Init False idle_args True False stopped_codecs =
    Some (True, \<lparr> env = \<lparr> is_running = True, g_max_qat_cfg_concurrency = 510 \<rparr>,
      g_qat_codec = Some (two_unit_codec\<lparr> max_in_qat_size := 510 \<rparr>), g_sw_codec = True, g_kae_codec = False \<rparr>)"
  by (simp add: Codec_Init_def QatCodec_Start_def idle_args_def stopped_codecs_def QatCodec_new_def no_files_concurrency init_idle
      QAT_RING_FREE_SIZE_def two_unit_codec_def)

theorem Codec_lifecycle_witness:
  "\<exists>g. Codec_Init False idle_args True False stopped_codecs = Some (True, g) \<and> is_running (env g)
    \<and> \<not> is_running (env (snd (Codec_Uninit False idle_driver g)))"
proof -
  let ?g = "\<lparr> env = \<lparr> is_running = True, g_max_qat_cfg_concurrency = 510 \<rparr>,
      g_qat_codec = Some (two_unit_codec\<lparr> max_in_qat_size := 510 \<rparr>), g_sw_codec = True, g_kae_codec = False \<rparr>"
  have "g_qat_codec stopped_codecs = None" "\<not> is_running (env stopped_codecs)"
    by (simp_all add: stopped_codecs_def)
  then have "\<not> is_running (env (snd (Codec_Uninit False idle_driver ?g)))"
    using Codec_lifecycle [OF _ _ init_idle_codecs, of idle_driver] by (simp add: case_prod_beta Let_def)
  then show ?thesis
    using init_idle_codecs by (intro exI [of _ ?g]) simp
qed

theorem second_init_clears_running_witness:
  "\<exists>g g'. Codec_Init False idle_args True False stopped_codecs = Some (True, g)
    \<and> Codec_Init False idle_args True False g = Some (False, g') \<and> g_qat_codec g' \<noteq> None \<and> \<not> is_running (env g')"
proof -
  let ?g = "\<lparr> env = \<lparr> is_running = True, g_max_qat_cfg_concurrency = 510 \<rparr>,
      g_qat_codec = Some (two_unit_codec\<lparr> max_in_qat_size := 510 \<rparr>), g_sw_codec = True, g_kae_codec = False \<rparr>"
  obtain g' where "Codec_Init False idle_args True False ?g = Some (False, g')" "g_qat_codec g' \<noteq> None" "\<not> is_running (env g')"
    using second_init_clears_running [of ?g "two_unit_codec\<lparr> max_in_qat_size := 510 \<rparr>" False idle_args False] by auto
  then show ?thesis
    using init_idle_codecs by (intro exI [of _ ?g] exI [of _ g']) simp
qed

end
