(* ===== verification/Qat_Ha.thy ===== *)
theory Qat_Ha
  imports Codec_Types
begin

text \<open>The high-availability policy of QAT channels, \<^verbatim>\<open>src/src/codec/qat/qat_ha.{h,cc}\<close>: which errors make a channel
  fall back to other hardware, at once or when enough of them happened within a sliding time window.  Times are
  ticks of the cycle clock; \<open>DurationToUs\<close> converts ticks to microseconds with the measured frequency in
  floating point (\<^verbatim>\<open>src/src/common/timestamp.h\<close>) and is an argument.\<close>

datatype QatHaErrorLevel = kNotHandle | kAccumulate | kImmediately | kErrorLevelNum

fun JudgeHaErrorLevel :: "StatusCode \<Rightarrow> QatHaErrorLevel" where
  "JudgeHaErrorLevel kOk = kNotHandle"
| "JudgeHaErrorLevel kDropped = kNotHandle"
| "JudgeHaErrorLevel kInvalidArgument = kNotHandle"
| "JudgeHaErrorLevel kNotSupported = kNotHandle"
| "JudgeHaErrorLevel kOverflow = kNotHandle"
| "JudgeHaErrorLevel kBadData = kNotHandle"
| "JudgeHaErrorLevel kPermanentError = kNotHandle"
| "JudgeHaErrorLevel kResourceBusy = kAccumulate"
| "JudgeHaErrorLevel kTimeout = kAccumulate"
| "JudgeHaErrorLevel kSliceHang = kAccumulate"
| "JudgeHaErrorLevel kShouldRetry = kAccumulate"
| "JudgeHaErrorLevel kHardwareError = kImmediately"
| "JudgeHaErrorLevel kChannelError = kImmediately"
| "JudgeHaErrorLevel kUnknown = kImmediately"

definition SecToUs :: "u64 \<Rightarrow> u64" where
  "SecToUs sec = sec * 1000 * 1000"

definition kVesalQatHaMaxErrorNum :: u32 where
  "kVesalQatHaMaxErrorNum = 1024"

section \<open>The sliding window\<close>

record SlidingTimeWindow =
  min_counting_time_window_us :: u64
  sliding_window_us :: u64
  error_ts :: "u64 list"

text \<open>The flags: the two windows and the number of errors that triggers a fallback.  The constructor lowers the
  last one to its maximum.\<close>

definition SlidingTimeWindow_new :: "u32 \<Rightarrow> u32 \<Rightarrow> u32 \<Rightarrow> SlidingTimeWindow \<times> u32" where
  "SlidingTimeWindow_new min_us window_sec trigger =
    (\<lparr> min_counting_time_window_us = ucast min_us, sliding_window_us = SecToUs (ucast window_sec), error_ts = [] \<rparr>,
     if trigger > kVesalQatHaMaxErrorNum then kVesalQatHaMaxErrorNum else trigger)"

definition VesalQatHaTriggerErrorNumValidator :: "u32 \<Rightarrow> bool" where
  "VesalQatHaTriggerErrorNumValidator n \<longleftrightarrow> n \<le> kVesalQatHaMaxErrorNum"

definition SlidingTimeWindow_Reset :: "SlidingTimeWindow \<Rightarrow> SlidingTimeWindow" where
  "SlidingTimeWindow_Reset w = w\<lparr> error_ts := [] \<rparr>"

definition GetErrorNum :: "SlidingTimeWindow \<Rightarrow> u32" where
  "GetErrorNum w = of_nat (length (error_ts w))"

definition ClearExpiredErrors :: "(u64 \<Rightarrow> u64) \<Rightarrow> u64 \<Rightarrow> SlidingTimeWindow \<Rightarrow> SlidingTimeWindow" where
  "ClearExpiredErrors DurationToUs now w =
    w\<lparr> error_ts := dropWhile (\<lambda>t. DurationToUs (now - t) > sliding_window_us w) (error_ts w) \<rparr>"

definition NeedRecord :: "(u64 \<Rightarrow> u64) \<Rightarrow> u64 \<Rightarrow> SlidingTimeWindow \<Rightarrow> bool" where
  "NeedRecord DurationToUs now w \<longleftrightarrow>
    error_ts w = [] \<or> DurationToUs (now - last (error_ts w)) > min_counting_time_window_us w"

definition RecordErrorAndCheckIsSafe :: "(u64 \<Rightarrow> u64) \<Rightarrow> u32 \<Rightarrow> u64 \<Rightarrow> SlidingTimeWindow \<Rightarrow> bool \<times> SlidingTimeWindow" where
  "RecordErrorAndCheckIsSafe DurationToUs trigger now w =
    (let w = (if NeedRecord DurationToUs now w
              then ClearExpiredErrors DurationToUs now (w\<lparr> error_ts := error_ts w @ [now] \<rparr>) else w)
     in (GetErrorNum w < trigger, w))"

section \<open>The policy\<close>

record QatHa =
  ha_policy_of :: HaPolicy
  sliding_time_window :: SlidingTimeWindow

definition IsHaEnabled :: "QatHa \<Rightarrow> bool" where
  "IsHaEnabled h \<longleftrightarrow> ha_policy_of h = kHaHardware"

definition ShouldFallback :: "(u64 \<Rightarrow> u64) \<Rightarrow> u32 \<Rightarrow> u64 \<Rightarrow> StatusCode \<Rightarrow> QatHa \<Rightarrow> bool \<times> QatHa" where
  "ShouldFallback DurationToUs trigger now status_code h =
    (let level = JudgeHaErrorLevel status_code in
     if level = kNotHandle then (False, h)
     else
       let (safe, w) = (if level = kImmediately then (False, sliding_time_window h)
                        else RecordErrorAndCheckIsSafe DurationToUs trigger now (sliding_time_window h))
       in if \<not> safe then (True, h\<lparr> sliding_time_window := SlidingTimeWindow_Reset w \<rparr>)
          else (False, h\<lparr> sliding_time_window := w \<rparr>))"

text \<open>A sequence of results, each with the time at which it is judged.\<close>

fun ha_run :: "(u64 \<Rightarrow> u64) \<Rightarrow> u32 \<Rightarrow> (u64 \<times> StatusCode) list \<Rightarrow> QatHa \<Rightarrow> bool list" where
  "ha_run dur trigger [] h = []"
| "ha_run dur trigger ((now, code) # es) h =
    (let (b, h') = ShouldFallback dur trigger now code h in b # ha_run dur trigger es h')"

section \<open>Specification\<close>

text \<open>The specification remembers every counted error since the last fallback and never forgets one: an
  accumulating error is counted unless it follows the last counted one too closely, and a fallback is due when
  the counted errors no older than the window, seen from the last counted one, reach the trigger.\<close>

definition recent :: "(u64 \<Rightarrow> u64) \<Rightarrow> u64 \<Rightarrow> u64 list \<Rightarrow> u64 list" where
  "recent dur window hist = filter (\<lambda>t. dur (last hist - t) \<le> window) hist"

definition ha_spec_step :: "(u64 \<Rightarrow> u64) \<Rightarrow> u64 \<Rightarrow> u64 \<Rightarrow> nat \<Rightarrow> u64 \<Rightarrow> StatusCode \<Rightarrow> u64 list \<Rightarrow> bool \<times> u64 list" where
  "ha_spec_step dur spacing window trigger now code hist =
    (case JudgeHaErrorLevel code of
       kImmediately \<Rightarrow> (True, [])
     | kAccumulate \<Rightarrow>
         let hist = (if hist = [] \<or> dur (now - last hist) > spacing then hist @ [now] else hist)
         in if length (recent dur window hist) \<ge> trigger then (True, []) else (False, hist)
     | _ \<Rightarrow> (False, hist))"

fun ha_spec_run :: "(u64 \<Rightarrow> u64) \<Rightarrow> u64 \<Rightarrow> u64 \<Rightarrow> nat \<Rightarrow> (u64 \<times> StatusCode) list \<Rightarrow> u64 list \<Rightarrow> bool list" where
  "ha_spec_run dur spacing window trigger [] hist = []"
| "ha_spec_run dur spacing window trigger ((now, code) # es) hist =
    (let (b, hist') = ha_spec_step dur spacing window trigger now code hist in b # ha_spec_run dur spacing window trigger es hist')"

text \<open>How the window represents the history at time \<open>t\<close>.\<close>

definition window_rep :: "(u64 \<Rightarrow> u64) \<Rightarrow> nat \<Rightarrow> u64 \<Rightarrow> SlidingTimeWindow \<Rightarrow> u64 list \<Rightarrow> bool" where
  "window_rep dur trigger t w hist \<longleftrightarrow>
    error_ts w = recent dur (sliding_window_us w) hist \<and> sorted (hist @ [t]) \<and> length (error_ts w) < max 1 trigger"

section \<open>The window implements the specification\<close>

lemma word_diff_mono: "(t :: u64) \<le> a \<Longrightarrow> a \<le> b \<Longrightarrow> a - t \<le> b - t"
  by (simp add: word_le_nat_alt unat_sub diff_le_mono)

lemma word_diff_antimono: "(s :: u64) \<le> t \<Longrightarrow> t \<le> b \<Longrightarrow> b - t \<le> b - s"
  by (simp add: word_le_nat_alt unat_sub diff_le_mono2)

lemma dropWhile_old:
  fixes dur :: "u64 \<Rightarrow> u64"
  assumes "mono dur" "sorted (xs @ [now])"
  shows "dropWhile (\<lambda>t. dur (now - t) > win) xs = filter (\<lambda>t. dur (now - t) \<le> win) xs"
  using assms(2)
proof (induction xs)
  case (Cons x xs)
  show ?case
  proof (cases "dur (now - x) > win")
    case False
    have "dur (now - y) \<le> win" if "y \<in> set xs" for y
    proof -
      have "now - y \<le> now - x"
        using Cons.prems that by (intro word_diff_antimono) (auto simp: sorted_append)
      then have "dur (now - y) \<le> dur (now - x)"
        by (rule monoD [OF assms(1)])
      then show ?thesis
        using False by simp
    qed
    then show ?thesis
      using False by simp
  qed (use Cons in simp)
qed simp

lemma recent_snoc:
  assumes "mono dur" "dur 0 = 0" "sorted (hist @ [now])"
  shows "dropWhile (\<lambda>t. dur (now - t) > win) (recent dur win hist @ [now]) = recent dur win (hist @ [now])"
proof -
  have keep: "dur (last hist - t) \<le> win" if near: "dur (now - t) \<le> win" and t: "t \<in> set hist" for t
  proof -
    have "t \<le> last hist" "last hist \<le> now"
      using assms(3) t by (cases hist rule: rev_cases; auto simp: sorted_append)+
    then have "last hist - t \<le> now - t"
      by (rule word_diff_mono)
    then have "dur (last hist - t) \<le> dur (now - t)"
      by (rule monoD [OF assms(1)])
    then show ?thesis
      using near by (rule order_trans)
  qed
  have "sorted (recent dur win hist @ [now])"
    using assms(3) using sorted_filter [of id hist] by (auto simp: recent_def sorted_append)
  then have "sorted ((recent dur win hist @ [now]) @ [now])"
    by (simp add: sorted_append)
  then have "dropWhile (\<lambda>t. dur (now - t) > win) (recent dur win hist @ [now])
      = filter (\<lambda>t. dur (now - t) \<le> win) (recent dur win hist @ [now])"
    by (rule dropWhile_old [OF assms(1)])
  also have "\<dots> = recent dur win (hist @ [now])"
    using keep assms(2) by (auto simp: recent_def intro!: filter_cong)
  finally show ?thesis .
qed

lemma recent_last:
  assumes "dur 0 = 0" "hist \<noteq> []"
  shows "recent dur win hist \<noteq> []" "last (recent dur win hist) = last hist"
proof -
  obtain ts t where "hist = ts @ [t]"
    using assms(2) by (meson rev_exhaust)
  then show "recent dur win hist \<noteq> []" "last (recent dur win hist) = last hist"
    using assms(1) by (simp_all add: recent_def)
qed
lemma record_refines:
  assumes "mono dur" "dur 0 = 0" and rep: "window_rep dur (unat trigger) t w hist" and "t \<le> now"
    and hist': "hist' = (if hist = [] \<or> dur (now - last hist) > min_counting_time_window_us w then hist @ [now] else hist)"
    and r: "RecordErrorAndCheckIsSafe dur trigger now w = (safe, w')"
  shows "safe \<longleftrightarrow> length (recent dur (sliding_window_us w) hist') < unat trigger"
    and "safe \<Longrightarrow> window_rep dur (unat trigger) now w' hist'"
    and "min_counting_time_window_us w' = min_counting_time_window_us w" "sliding_window_us w' = sliding_window_us w"
proof -
  have ts: "error_ts w = recent dur (sliding_window_us w) hist" and len: "length (error_ts w) < max 1 (unat trigger)"
    and sorted: "sorted (hist @ [now])"
    using rep assms(4) by (auto simp: window_rep_def sorted_append)
  have need: "NeedRecord dur now w \<longleftrightarrow> hist = [] \<or> dur (now - last hist) > min_counting_time_window_us w"
    using recent_last [of dur hist "sliding_window_us w"] assms(2) ts by (cases "hist = []") (auto simp: NeedRecord_def recent_def)
  have w': "error_ts w' = recent dur (sliding_window_us w) hist'"
    using r recent_snoc [OF assms(1,2) sorted, of "sliding_window_us w"] ts
    by (auto simp: RecordErrorAndCheckIsSafe_def Let_def need hist' ClearExpiredErrors_def)
  have "length (error_ts w') \<le> Suc (length (error_ts w))"
    using r length_dropWhile_le [of _ "error_ts w @ [now]"]
    by (auto simp: RecordErrorAndCheckIsSafe_def ClearExpiredErrors_def Let_def split: if_splits)
  then have "length (error_ts w') < 2 ^ 32"
    using len unsigned_less [of trigger, where ?'a = nat] by simp
  then have "unat (GetErrorNum w') = length (error_ts w')"
    by (simp add: GetErrorNum_def unat_of_nat)
  moreover have "safe = (GetErrorNum w' < trigger)"
    using r by (auto simp: RecordErrorAndCheckIsSafe_def Let_def)
  ultimately show safe: "safe \<longleftrightarrow> length (recent dur (sliding_window_us w) hist') < unat trigger"
    by (simp add: word_less_nat_alt w')
  show win: "sliding_window_us w' = sliding_window_us w" "min_counting_time_window_us w' = min_counting_time_window_us w"
    using r by (auto simp: RecordErrorAndCheckIsSafe_def ClearExpiredErrors_def Let_def split: if_splits)
  have "sorted (hist' @ [now])"
    using sorted by (auto simp: hist' sorted_append)
  then show "window_rep dur (unat trigger) now w' hist'" if safe
    using that safe w' win by (simp add: window_rep_def)
qed

lemma ShouldFallback_refines:
  assumes "mono dur" "dur 0 = 0" "window_rep dur (unat trigger) t (sliding_time_window h) hist" "t \<le> now"
    and "ShouldFallback dur trigger now code h = (b, h')"
    and "ha_spec_step dur (min_counting_time_window_us (sliding_time_window h)) (sliding_window_us (sliding_time_window h))
      (unat trigger) now code hist = (b', hist')"
  shows "b = b' \<and> window_rep dur (unat trigger) now (sliding_time_window h') hist'
    \<and> min_counting_time_window_us (sliding_time_window h') = min_counting_time_window_us (sliding_time_window h)
    \<and> sliding_window_us (sliding_time_window h') = sliding_window_us (sliding_time_window h)"
proof -
  let ?w = "sliding_time_window h"
  let ?hist = "if hist = [] \<or> dur (now - last hist) > min_counting_time_window_us ?w then hist @ [now] else hist"
  obtain safe w' where r: "RecordErrorAndCheckIsSafe dur trigger now ?w = (safe, w')"
    by fastforce
  note rec = record_refines [OF assms(1-4) refl r]
  have empty: "window_rep dur (unat trigger) now (SlidingTimeWindow_Reset w) []" for w
    by (simp add: window_rep_def SlidingTimeWindow_Reset_def recent_def)
  have later: "window_rep dur (unat trigger) now ?w hist"
    using assms(3,4) by (auto simp: window_rep_def sorted_append)
  have "JudgeHaErrorLevel code \<noteq> kErrorLevelNum"
    by (cases code) simp_all
  then show ?thesis
    using assms(5,6) r rec empty later
    by (cases "JudgeHaErrorLevel code")
      (auto simp: ShouldFallback_def ha_spec_step_def Let_def not_less SlidingTimeWindow_Reset_def split: if_splits)
qed

lemma ha_run_refines:
  assumes "mono dur" "dur 0 = 0" "window_rep dur (unat trigger) t (sliding_time_window h) hist" "sorted (t # map fst es)"
  shows "ha_run dur trigger es h =
    ha_spec_run dur (min_counting_time_window_us (sliding_time_window h)) (sliding_window_us (sliding_time_window h)) (unat trigger) es hist"
  using assms(3,4)
proof (induction es arbitrary: t h hist)
  case (Cons e es)
  obtain now code where e: "e = (now, code)"
    by fastforce
  obtain b h' where s: "ShouldFallback dur trigger now code h = (b, h')"
    by fastforce
  obtain b' hist' where s': "ha_spec_step dur (min_counting_time_window_us (sliding_time_window h))
      (sliding_window_us (sliding_time_window h)) (unat trigger) now code hist = (b', hist')"
    by fastforce
  have "t \<le> now" "sorted (now # map fst es)"
    using Cons.prems(2) e by auto
  then show ?case
    using ShouldFallback_refines [OF assms(1,2) Cons.prems(1) _ s s'] Cons.IH [of now h' hist'] s s' e by simp
qed simp

text \<open>C15: Over any sequence of results judged at non-decreasing times, the policy falls back exactly when the
  specification does, although it keeps only the timestamps inside the window and drops expired ones only when it
  records an error.\<close>

theorem ha_fallback_exact:
  assumes "mono dur" "dur 0 = 0" "sorted (map fst es)" "SlidingTimeWindow_new min_us window_sec flag = (w, trigger)"
  shows "ha_run dur trigger es \<lparr> ha_policy_of = kHaHardware, sliding_time_window = w \<rparr> =
    ha_spec_run dur (ucast min_us) (SecToUs (ucast window_sec)) (unat trigger) es []"
proof -
  have "window_rep dur (unat trigger) 0 w []"
    using assms(4) by (auto simp: window_rep_def SlidingTimeWindow_new_def recent_def)
  moreover have "sorted (0 # map fst es)"
    using assms(3) by simp
  ultimately show ?thesis
    using ha_run_refines [OF assms(1,2), of trigger 0 "\<lparr> ha_policy_of = kHaHardware, sliding_time_window = w \<rparr>" "[]" es] assms(4)
    by (auto simp: SlidingTimeWindow_new_def)
qed

theorem ha_fallback_exact_witness:
  "ha_run id 2 [(100, kTimeout), (120, kTimeout), (200, kTimeout), (210, kHardwareError)]
      \<lparr> ha_policy_of = kHaHardware, sliding_time_window = fst (SlidingTimeWindow_new 50 60 2) \<rparr> = [False, False, True, True]"
proof -
  have "SlidingTimeWindow_new 50 60 2 = (fst (SlidingTimeWindow_new 50 60 2), 2)" "mono (id :: u64 \<Rightarrow> u64)"
    by (simp_all add: SlidingTimeWindow_new_def kVesalQatHaMaxErrorNum_def monoI)
  then show ?thesis
    using ha_fallback_exact [of id "[(100, kTimeout), (120, kTimeout), (200, kTimeout), (210, kHardwareError)]" 50 60 2
        "fst (SlidingTimeWindow_new 50 60 2)" 2]
    by (simp add: ha_spec_step_def recent_def SecToUs_def)
qed

end
