(* ===== verification/Codec_Common.thy ===== *)
theory Codec_Common
  imports Codec_Types Err_Simulation Fifo_Interface
begin

text \<open>The list of finished results of a channel and the validation of scattered buffers,
  \<^verbatim>\<open>src/src/codec/codec_common.{h,cc}\<close>, with error simulation compiled in.  Nodes live in a heap; a push
  is given the node the thread-local pool hands out, with whatever content the recycled object still has, or
  nothing when the pool has none.  \<open>None\<close> as a result is an access through a null or released pointer or a
  simulated code outside the status codes.\<close>

datatype CodecDataDirection = kInput | kOutput | kDataDirectionNum

definition VESAL_MAX_SGL_NUM :: nat where "VESAL_MAX_SGL_NUM = 32"

definition kMaxSrcLen :: u64 where "kMaxSrcLen = 2147483648"

text \<open>The loop stops at an empty buffer (\<open>None\<close>) and otherwise gives the total length.\<close>

fun total_src_len :: "u32 list \<Rightarrow> u64 \<Rightarrow> u64 option" where
  "total_src_len [] n = Some n"
| "total_src_len (len # lens) n = (if len = 0 then None else total_src_len lens (n + ucast len))"

definition ValidateSglArgs :: "nat list \<Rightarrow> u32 list \<Rightarrow> StatusCode" where
  "ValidateSglArgs src src_len =
    (case total_src_len src_len 0 of
       None \<Rightarrow> kInvalidArgument
     | Some total_len \<Rightarrow>
         if total_len > kMaxSrcLen \<or> total_len = 0 then kInvalidArgument
         else if length src \<noteq> length src_len then kInvalidArgument
         else if length src > VESAL_MAX_SGL_NUM then kInvalidArgument
         else kOk)"

section \<open>The result list\<close>

record ErrSimContext =
  err_sim_code :: QatErrSimCode
  err_sim_onfire_ts :: u64
  onfire_ts :: u64

definition ErrSimContext_default :: ErrSimContext where
  "ErrSimContext_default = \<lparr> err_sim_code = VESAL_QAT_ERR_SIM_OK, err_sim_onfire_ts = 0, onfire_ts = 0 \<rparr>"

record CodecResultNode =
  node_result :: CodecResult
  err_sim_ctx :: ErrSimContext
  next_node :: "nat option"

record CodecResultList =
  list_head :: "nat option"
  list_tail :: "nat option"
  num :: nat
  nodes :: "nat \<rightharpoonup> CodecResultNode"

definition CodecResultList_new :: CodecResultList where
  "CodecResultList_new = \<lparr> list_head = None, list_tail = None, num = 0, nodes = Map.empty \<rparr>"

definition PushInternal :: "nat \<Rightarrow> CodecResultList \<Rightarrow> CodecResultList option" where
  "PushInternal node l =
    (if num l = 0 then Some (l\<lparr> list_head := Some node, list_tail := Some node, num := num l + 1 \<rparr>)
     else
       case list_tail l of
         None \<Rightarrow> None
       | Some t \<Rightarrow>
           (case nodes l t of
              None \<Rightarrow> None
            | Some tn \<Rightarrow>
                Some (l\<lparr> nodes := (nodes l)(t \<mapsto> tn\<lparr> next_node := Some node \<rparr>), list_tail := Some node, num := num l + 1 \<rparr>)))"

text \<open>Both overloads of \<^verbatim>\<open>Push\<close> write every field of the result and the simulation context, but not the link.
  The lengths are narrowed from \<^verbatim>\<open>size_t\<close>.\<close>

definition write_result ::
  "nat \<Rightarrow> StatusCode \<Rightarrow> u64 \<Rightarrow> u64 \<Rightarrow> u64 \<Rightarrow> u64 \<Rightarrow> ErrSimContext \<Rightarrow> CodecResultNode \<Rightarrow> CodecResultNode" where
  "write_result user_ctx st consumed_n produced_n in_sum out_sum ec node =
    node\<lparr> node_result := (node_result node)\<lparr> status := st, ctx := user_ctx, consumed := ucast consumed_n,
      produced := ucast produced_n, in_checksum := in_sum, out_checksum := out_sum \<rparr>, err_sim_ctx := ec \<rparr>"

definition Push_full ::
  "(nat \<times> CodecResultNode) option \<Rightarrow> nat \<Rightarrow> StatusCode \<Rightarrow> u64 \<Rightarrow> u64 \<Rightarrow> u64 \<Rightarrow> u64 \<Rightarrow> ErrSimContext
    \<Rightarrow> CodecResultList \<Rightarrow> CodecResultList option" where
  "Push_full obj user_ctx st consumed_n produced_n in_sum out_sum ec l =
    (case obj of
       None \<Rightarrow> None
     | Some (node, stale) \<Rightarrow>
         PushInternal node (l\<lparr> nodes := (nodes l)(node \<mapsto>
           write_result user_ctx st consumed_n produced_n in_sum out_sum ec stale) \<rparr>))"

definition Push_status ::
  "(nat \<times> CodecResultNode) option \<Rightarrow> nat \<Rightarrow> StatusCode \<Rightarrow> ErrSimContext \<Rightarrow> CodecResultList \<Rightarrow> CodecResultList option" where
  "Push_status obj user_ctx st ec l =
    (case obj of
       None \<Rightarrow> None
     | Some (node, stale) \<Rightarrow>
         PushInternal node (l\<lparr> nodes := (nodes l)(node \<mapsto> write_result user_ctx st 0 0 0 0 ec stale) \<rparr>))"

text \<open>\<open>Some (ready, node)\<close>: whether the node may be handed out, and the node with its status adjusted.\<close>

definition ProcessErrSim :: "u64 \<Rightarrow> CodecResultNode \<Rightarrow> (bool \<times> CodecResultNode) option" where
  "ProcessErrSim now node =
    (let ec = err_sim_ctx node; code = err_sim_code ec in
     if code = VESAL_QAT_ERR_SIM_OK then Some (True, node)
     else if \<not> VESAL_QAT_ERR_SIM_IS_TIMEOUT code then
       (case QatErrSimCodeToVesalStatusCode code of
          None \<Rightarrow> None
        | Some st \<Rightarrow> Some (True, node\<lparr> node_result := (node_result node)\<lparr> status := st \<rparr> \<rparr>))
     else
       let min_onfire_ts = (if onfire_ts ec < err_sim_onfire_ts ec then onfire_ts ec else err_sim_onfire_ts ec) in
       if now < min_onfire_ts then Some (False, node)
       else Some (True, if now > onfire_ts ec
                        then node\<lparr> node_result := (node_result node)\<lparr> status := kTimeout \<rparr> \<rparr> else node))"
text \<open>The loops that unlink nodes from the head.\<close>

definition unlink_head :: "CodecResultList \<Rightarrow> (CodecResult \<times> CodecResultList) option" where
  "unlink_head l =
    (case list_head l of
       None \<Rightarrow> None
     | Some a \<Rightarrow>
         (case nodes l a of
            None \<Rightarrow> None
          | Some nd \<Rightarrow> Some (node_result nd, l\<lparr> list_head := next_node nd, nodes := (nodes l)(a := None) \<rparr>)))"

fun pop_nodes :: "nat \<Rightarrow> CodecResultList \<Rightarrow> (CodecResult list \<times> CodecResultList) option" where
  "pop_nodes 0 l = Some ([], l)"
| "pop_nodes (Suc k) l =
    (case unlink_head l of
       None \<Rightarrow> None
     | Some (r, l') \<Rightarrow> (case pop_nodes k l' of None \<Rightarrow> None | Some (rs, l'') \<Rightarrow> Some (r # rs, l'')))"

definition shrink :: "nat \<Rightarrow> CodecResultList \<Rightarrow> CodecResultList" where
  "shrink ret l =
    (let l = l\<lparr> num := num l - ret \<rparr>
     in if num l = 0 then l\<lparr> list_head := None, list_tail := None \<rparr> else l)"

definition Pop_results :: "nat \<Rightarrow> CodecResultList \<Rightarrow> (CodecResult list \<times> CodecResultList) option" where
  "Pop_results max_num l =
    (let ret = (if max_num > num l then num l else max_num)
     in case pop_nodes ret l of None \<Rightarrow> None | Some (rs, l') \<Rightarrow> Some (rs, shrink ret l'))"

fun pop_ready_loop :: "u64 \<Rightarrow> nat \<Rightarrow> CodecResultList \<Rightarrow> (CodecResult list \<times> CodecResultList) option" where
  "pop_ready_loop now 0 l = Some ([], l)"
| "pop_ready_loop now (Suc k) l =
    (case list_head l of
       None \<Rightarrow> None
     | Some a \<Rightarrow>
         (case nodes l a of
            None \<Rightarrow> None
          | Some nd \<Rightarrow>
              (case ProcessErrSim now nd of
                 None \<Rightarrow> None
               | Some (False, nd') \<Rightarrow> Some ([], l)
               | Some (True, nd') \<Rightarrow>
                   (case unlink_head (l\<lparr> nodes := (nodes l)(a \<mapsto> nd') \<rparr>) of
                      None \<Rightarrow> None
                    | Some (r, l') \<Rightarrow>
                        (case pop_ready_loop now k l' of None \<Rightarrow> None | Some (rs, l'') \<Rightarrow> Some (r # rs, l''))))))"

definition PopIfReady :: "u64 \<Rightarrow> nat \<Rightarrow> CodecResultList \<Rightarrow> (CodecResult list \<times> CodecResultList) option" where
  "PopIfReady now max_num l =
    (let max_num = (if max_num > num l then num l else max_num)
     in case pop_ready_loop now max_num l of None \<Rightarrow> None | Some (rs, l') \<Rightarrow> Some (rs, shrink (length rs) l'))"

definition Size_results :: "CodecResultList \<Rightarrow> nat" where
  "Size_results l = num l"

fun modify_loop :: "StatusCode \<Rightarrow> nat \<Rightarrow> nat option \<Rightarrow> (nat \<rightharpoonup> CodecResultNode) \<Rightarrow> (nat \<rightharpoonup> CodecResultNode) option" where
  "modify_loop st 0 p h = Some h"
| "modify_loop st (Suc k) p h =
    (case p of
       None \<Rightarrow> None
     | Some a \<Rightarrow>
         (case h a of
            None \<Rightarrow> None
          | Some nd \<Rightarrow> modify_loop st k (next_node nd) (h(a \<mapsto> nd\<lparr> node_result := (node_result nd)\<lparr> status := st \<rparr> \<rparr>))))"

definition ModifyAll :: "StatusCode \<Rightarrow> CodecResultList \<Rightarrow> (nat \<times> CodecResultList) option" where
  "ModifyAll change_to l =
    map_option (\<lambda>h. (num l, l\<lparr> nodes := h \<rparr>)) (modify_loop change_to (num l) (list_head l) (nodes l))"

text \<open>The destructor returns every node; what remains in the heap afterwards is leaked.\<close>

definition CodecResultList_destroy :: "CodecResultList \<Rightarrow> (nat \<rightharpoonup> CodecResultNode) option" where
  "CodecResultList_destroy l = map_option (\<lambda>(rs, l'). nodes l') (pop_nodes (num l) l)"

section \<open>Well-formed lists\<close>

text \<open>\<open>linked h p as\<close>: following the links from \<open>p\<close> visits the nodes \<open>as\<close>; the link of the last node is
  arbitrary, since the loops never follow it.\<close>

fun linked :: "(nat \<rightharpoonup> CodecResultNode) \<Rightarrow> nat option \<Rightarrow> nat list \<Rightarrow> bool" where
  "linked h p [] \<longleftrightarrow> True"
| "linked h p (a # as) \<longleftrightarrow> p = Some a \<and> (case h a of None \<Rightarrow> False | Some nd \<Rightarrow> linked h (next_node nd) as)"

fun chain :: "nat \<Rightarrow> nat option \<Rightarrow> (nat \<rightharpoonup> CodecResultNode) \<Rightarrow> nat list" where
  "chain 0 p h = []"
| "chain (Suc k) p h =
    (case p of None \<Rightarrow> [] | Some a \<Rightarrow> (case h a of None \<Rightarrow> [a] | Some nd \<Rightarrow> a # chain k (next_node nd) h))"

definition entry_at :: "(nat \<rightharpoonup> CodecResultNode) \<Rightarrow> nat \<Rightarrow> CodecResult \<times> ErrSimContext" where
  "entry_at h a = (case h a of None \<Rightarrow> (CodecResult_default, ErrSimContext_default) | Some nd \<Rightarrow> (node_result nd, err_sim_ctx nd))"

definition entries :: "CodecResultList \<Rightarrow> (CodecResult \<times> ErrSimContext) list" where
  "entries l = map (entry_at (nodes l)) (chain (num l) (list_head l) (nodes l))"

definition seg :: "CodecResultList \<Rightarrow> nat list \<Rightarrow> bool" where
  "seg l as \<longleftrightarrow> linked (nodes l) (list_head l) as \<and> distinct as \<and> dom (nodes l) = set as"

definition list_at :: "CodecResultList \<Rightarrow> nat list \<Rightarrow> bool" where
  "list_at l as \<longleftrightarrow> seg l as \<and> num l = length as
     \<and> (if as = [] then list_head l = None \<and> list_tail l = None else list_tail l = Some (last as))"

definition list_wf :: "CodecResultList \<Rightarrow> bool" where
  "list_wf l \<longleftrightarrow> (\<exists>as. list_at l as)"

lemma linked_cong: "\<forall>a \<in> set as. h a = h' a \<Longrightarrow> linked h p as = linked h' p as"
  by (induction as arbitrary: p) (auto split: option.splits)

lemma linked_entries_cong:
  "\<forall>a \<in> set as. map_option next_node (h a) = map_option next_node (h' a) \<Longrightarrow> linked h p as = linked h' p as"
proof (induction as arbitrary: p)
  case (Cons a as)
  then show ?case
    by (cases "h a"; cases "h' a") auto
qed simp

lemma chain_linked: "linked h p as \<Longrightarrow> chain (length as) p h = as"
  by (induction as arbitrary: p) (auto split: option.splits)

lemma entries_at: "list_at l as \<Longrightarrow> entries l = map (entry_at (nodes l)) as"
  by (simp add: list_at_def seg_def entries_def chain_linked)

lemma linked_snoc:
  assumes "linked h p as" "as \<noteq> []" "distinct as" "h (last as) = Some tn" "h node \<noteq> None" "node \<notin> set as"
  shows "linked (h(last as \<mapsto> tn\<lparr> next_node := Some node \<rparr>)) p (as @ [node])"
  using assms
proof (induction as arbitrary: p)
  case (Cons a as)
  show ?case
  proof (cases "as = []")
    case True
    then show ?thesis
      using Cons.prems by (auto split: option.splits)
  next
    case False
    then have "last as \<noteq> a"
      using Cons.prems(3) last_in_set by fastforce
    then show ?thesis
      using Cons False by (auto split: option.splits)
  qed
qed simp

section \<open>The operations on well-formed lists\<close>

lemma entry_at_cong: "h a = h' a \<Longrightarrow> entry_at h a = entry_at h' a"
  by (simp add: entry_at_def)

lemma push_at:
  assumes l: "list_at l as" and new: "nodes l a = None"
  shows "\<exists>l'. PushInternal a (l\<lparr> nodes := (nodes l)(a \<mapsto> nd) \<rparr>) = Some l' \<and> list_at l' (as @ [a])
    \<and> entries l' = entries l @ [(node_result nd, err_sim_ctx nd)]"
proof -
  have a: "a \<notin> set as" and dom: "dom (nodes l) = set as" and seg: "linked (nodes l) (list_head l) as" "distinct as"
    using l new by (auto simp: list_at_def seg_def)
  show ?thesis
  proof (cases "as = []")
    case True
    then have "nodes l = Map.empty"
      using dom by simp
    then show ?thesis
      using l True by (auto simp: list_at_def seg_def PushInternal_def entries_def entry_at_def split: option.splits)
  next
    case False
    then obtain tn where tn: "nodes l (last as) = Some tn"
      using dom last_in_set by blast
    have t: "list_tail l = Some (last as)" "num l = length as" "last as \<noteq> a"
      using l False a last_in_set [OF False] by (auto simp: list_at_def)
    let ?h = "(nodes l)(a \<mapsto> nd)"
    let ?h' = "?h(last as \<mapsto> tn\<lparr> next_node := Some a \<rparr>)"
    let ?l = "l\<lparr> nodes := ?h', list_tail := Some a, num := num l + 1 \<rparr>"
    have push: "PushInternal a (l\<lparr> nodes := ?h \<rparr>) = Some ?l"
      using t tn False by (simp add: PushInternal_def)
    have "linked ?h (list_head l) as"
      using seg(1) linked_cong [of as "nodes l" ?h] a by auto
    then have "linked ?h' (list_head l) (as @ [a])"
      using seg(2) False tn t(3) a by (intro linked_snoc) simp_all
    then have at: "list_at ?l (as @ [a])"
      using l a tn dom t False by (auto simp: list_at_def seg_def)
    have "entry_at ?h' b = entry_at (nodes l) b" if "b \<in> set as" for b
      using that a tn t(3) by (cases "b = last as") (auto simp: entry_at_def)
    then have "entries ?l = entries l @ [(node_result nd, err_sim_ctx nd)]"
      using entries_at [OF at] entries_at [OF l] t(3) by (simp add: entry_at_def)
    then show ?thesis
      using push at by blast
  qed
qed

lemma unlink_seg:
  assumes "seg l (a # as)"
  shows "\<exists>l'. unlink_head l = Some (fst (entry_at (nodes l) a), l') \<and> seg l' as \<and> num l' = num l \<and> list_tail l' = list_tail l
    \<and> (\<forall>b \<in> set as. nodes l' b = nodes l b)"
proof -
  obtain nd where nd: "nodes l a = Some nd" "list_head l = Some a" "linked (nodes l) (next_node nd) as"
    using assms by (auto simp: seg_def split: option.splits)
  let ?l = "l\<lparr> list_head := next_node nd, nodes := (nodes l)(a := None) \<rparr>"
  have "linked ((nodes l)(a := None)) (next_node nd) as"
    using nd(3) linked_cong [of as "nodes l" "(nodes l)(a := None)"] assms by (auto simp: seg_def)
  then have "seg ?l as"
    using assms by (auto simp: seg_def)
  then show ?thesis
    using nd assms by (auto simp: unlink_head_def entry_at_def seg_def)
qed

lemma pop_nodes_seg:
  assumes "seg l as" "k \<le> length as"
  shows "\<exists>l'. pop_nodes k l = Some (map (fst \<circ> entry_at (nodes l)) (take k as), l') \<and> seg l' (drop k as)
    \<and> num l' = num l \<and> list_tail l' = list_tail l \<and> (\<forall>b \<in> set (drop k as). nodes l' b = nodes l b)"
  using assms
proof (induction k arbitrary: l as)
  case (Suc k)
  then obtain a bs where as: "as = a # bs"
    by (cases as) auto
  then obtain l1 where l1: "unlink_head l = Some (fst (entry_at (nodes l) a), l1)" "seg l1 bs" "num l1 = num l"
      "list_tail l1 = list_tail l" "\<forall>b \<in> set bs. nodes l1 b = nodes l b"
    using unlink_seg [of l a bs] Suc.prems by auto
  have "k \<le> length bs"
    using Suc.prems as by simp
  then obtain l2 where l2: "pop_nodes k l1 = Some (map (fst \<circ> entry_at (nodes l1)) (take k bs), l2)" "seg l2 (drop k bs)"
      "num l2 = num l1" "list_tail l2 = list_tail l1" "\<forall>b \<in> set (drop k bs). nodes l2 b = nodes l1 b"
    using Suc.IH [OF l1(2)] by auto
  have "map (fst \<circ> entry_at (nodes l1)) (take k bs) = map (fst \<circ> entry_at (nodes l)) (take k bs)"
    using l1(5) by (auto simp: entry_at_def dest: in_set_takeD)
  then show ?case
    using l1 l2 as by (auto dest: in_set_dropD)
qed simp

lemma shrink_at:
  assumes l: "list_at l as" and l': "seg l' (drop k as)" "num l' = num l" "list_tail l' = list_tail l"
    "\<forall>b \<in> set (drop k as). nodes l' b = nodes l b" and k: "k \<le> length as"
  shows "list_at (shrink k l') (drop k as)" "entries (shrink k l') = drop k (entries l)"
proof -
  have nodes: "nodes (shrink k l') = nodes l'"
    by (simp add: shrink_def Let_def)
  have "last (drop k as) = last as" if "k < length as"
    using that by simp
  then show at: "list_at (shrink k l') (drop k as)"
    using l l' k by (cases "k = length as"; cases "as = []") (auto simp: list_at_def shrink_def Let_def seg_def)
  show "entries (shrink k l') = drop k (entries l)"
    unfolding entries_at [OF at] entries_at [OF l] drop_map nodes using l'(4) by (auto intro: entry_at_cong)
qed

lemma Pop_results_wf:
  assumes "list_wf l"
  shows "\<exists>l'. Pop_results n l = Some (map fst (take n (entries l)), l') \<and> list_wf l' \<and> entries l' = drop n (entries l)"
proof -
  obtain as where as: "list_at l as"
    using assms by (auto simp: list_wf_def)
  let ?k = "if n > num l then num l else n"
  have k: "?k \<le> length as" "seg l as" "num l = length as"
    using as by (auto simp: list_at_def)
  then obtain l' where l': "pop_nodes ?k l = Some (map (fst \<circ> entry_at (nodes l)) (take ?k as), l')" "seg l' (drop ?k as)"
      "num l' = num l" "list_tail l' = list_tail l" "\<forall>b \<in> set (drop ?k as). nodes l' b = nodes l b"
    using pop_nodes_seg [of l as ?k] by blast
  note s = shrink_at [OF as l'(2-5) k(1)]
  have "take ?k as = take n as" "drop ?k (entries l) = drop n (entries l)"
    using k(3) entries_at [OF as] by auto
  then show ?thesis
    using l'(1) s entries_at [OF as] by (auto simp: Pop_results_def Let_def list_wf_def take_map)
qed

text \<open>When an entry may be handed out, and with which status.\<close>

definition deliverable :: "u64 \<Rightarrow> CodecResult \<times> ErrSimContext \<Rightarrow> bool" where
  "deliverable now e \<longleftrightarrow>
    VESAL_QAT_ERR_SIM_IS_TIMEOUT (err_sim_code (snd e)) \<longrightarrow> now \<ge> min (onfire_ts (snd e)) (err_sim_onfire_ts (snd e))"

definition delivered :: "u64 \<Rightarrow> CodecResult \<times> ErrSimContext \<Rightarrow> CodecResult" where
  "delivered now e =
    (let code = err_sim_code (snd e) in
     if VESAL_QAT_ERR_SIM_IS_TIMEOUT code
     then if now > onfire_ts (snd e) then (fst e)\<lparr> status := kTimeout \<rparr> else fst e
     else if code = VESAL_QAT_ERR_SIM_OK then fst e
     else (fst e)\<lparr> status := the (QatErrSimCodeToVesalStatusCode code) \<rparr>)"

lemma ProcessErrSim_spec:
  assumes "QatErrSimCodeToVesalStatusCode (err_sim_code (err_sim_ctx nd)) \<noteq> None"
  shows "\<exists>nd'. ProcessErrSim now nd = Some (deliverable now (node_result nd, err_sim_ctx nd), nd') \<and> next_node nd' = next_node nd
    \<and> (deliverable now (node_result nd, err_sim_ctx nd) \<longrightarrow> node_result nd' = delivered now (node_result nd, err_sim_ctx nd))"
  using assms by (auto simp: ProcessErrSim_def deliverable_def delivered_def Let_def VESAL_QAT_ERR_SIM_IS_TIMEOUT_def
      VESAL_QAT_ERR_SIM_OK_def min_def not_less)

definition codes_ok :: "CodecResultList \<Rightarrow> bool" where
  "codes_ok l \<longleftrightarrow> (\<forall>nd \<in> ran (nodes l). QatErrSimCodeToVesalStatusCode (err_sim_code (err_sim_ctx nd)) \<noteq> None)"

lemma pop_ready_loop_seg:
  assumes "seg l as" "k \<le> length as" "\<forall>nd \<in> ran (nodes l). QatErrSimCodeToVesalStatusCode (err_sim_code (err_sim_ctx nd)) \<noteq> None"
    and "rs = takeWhile (\<lambda>a. deliverable now (entry_at (nodes l) a)) (take k as)"
  shows "\<exists>l'. pop_ready_loop now k l = Some (map (\<lambda>a. delivered now (entry_at (nodes l) a)) rs, l') \<and> seg l' (drop (length rs) as)
    \<and> num l' = num l \<and> list_tail l' = list_tail l \<and> (\<forall>b \<in> set (drop (length rs) as). nodes l' b = nodes l b)"
  using assms
proof (induction k arbitrary: l as rs)
  case (Suc k)
  then obtain a bs where as: "as = a # bs"
    by (cases as) auto
  obtain nd where nd: "nodes l a = Some nd" "list_head l = Some a"
    using Suc.prems(1) as by (auto simp: seg_def split: option.splits)
  obtain nd' where p: "ProcessErrSim now nd = Some (deliverable now (entry_at (nodes l) a), nd')" "next_node nd' = next_node nd"
      "deliverable now (entry_at (nodes l) a) \<longrightarrow> node_result nd' = delivered now (entry_at (nodes l) a)"
    using ProcessErrSim_spec [of nd now] Suc.prems(3) nd(1) by (auto simp: entry_at_def intro: ranI)
  show ?case
  proof (cases "deliverable now (entry_at (nodes l) a)")
    case False
    then show ?thesis
      using nd p Suc.prems as by simp
  next
    case True
    let ?l = "l\<lparr> nodes := (nodes l)(a \<mapsto> nd') \<rparr>"
    have "linked ((nodes l)(a \<mapsto> nd')) (list_head l) as = linked (nodes l) (list_head l) as"
      using nd p(2) by (intro linked_entries_cong) auto
    then have "seg ?l (a # bs)"
      using Suc.prems(1) as nd(1) by (auto simp: seg_def)
    then obtain l1 where l1: "unlink_head ?l = Some (fst (entry_at (nodes ?l) a), l1)" "seg l1 bs" "num l1 = num l"
        "list_tail l1 = list_tail l" "\<forall>b \<in> set bs. nodes l1 b = nodes ?l b"
      using unlink_seg [of ?l a bs] by auto
    have same: "\<forall>b \<in> set bs. nodes l1 b = nodes l b"
      using l1(5) Suc.prems(1) as by (auto simp: seg_def)
    let ?rs = "takeWhile (\<lambda>a. deliverable now (entry_at (nodes l1) a)) (take k bs)"
    have "ran (nodes l1) \<subseteq> ran (nodes l)"
      using same l1(2) by (auto simp: seg_def ran_def) (metis domI)
    then obtain l2 where l2: "pop_ready_loop now k l1 = Some (map (\<lambda>a. delivered now (entry_at (nodes l1) a)) ?rs, l2)"
        "seg l2 (drop (length ?rs) bs)" "num l2 = num l1" "list_tail l2 = list_tail l1"
        "\<forall>b \<in> set (drop (length ?rs) bs). nodes l2 b = nodes l1 b"
      using Suc.IH [OF l1(2) _ _ refl] Suc.prems(2,3) as by auto
    have eq: "entry_at (nodes l1) b = entry_at (nodes l) b" if "b \<in> set bs" for b
      using same that by (intro entry_at_cong) simp
    have rs: "rs = a # ?rs"
      using True as Suc.prems(4) eq by (auto dest: in_set_takeD intro!: takeWhile_cong)
    have "map (\<lambda>a. delivered now (entry_at (nodes l1) a)) ?rs = map (\<lambda>a. delivered now (entry_at (nodes l) a)) ?rs"
      using eq by (auto dest!: set_takeWhileD in_set_takeD)
    then show ?thesis
      using l1 l2 same as rs nd p True by (auto simp: entry_at_def dest: in_set_dropD)
  qed
qed simp

lemma PopIfReady_wf:
  assumes "list_wf l" "codes_ok l" "ready = takeWhile (deliverable now) (take n (entries l))"
  shows "\<exists>l'. PopIfReady now n l = Some (map (delivered now) ready, l') \<and> list_wf l' \<and> entries l' = drop (length ready) (entries l)"
proof -
  obtain as where as: "list_at l as"
    using assms(1) by (auto simp: list_wf_def)
  let ?k = "if n > num l then num l else n"
  have k: "?k \<le> length as" "seg l as" "num l = length as"
    using as by (auto simp: list_at_def)
  let ?rs = "takeWhile (\<lambda>a. deliverable now (entry_at (nodes l) a)) (take ?k as)"
  obtain l' where l': "pop_ready_loop now ?k l = Some (map (\<lambda>a. delivered now (entry_at (nodes l) a)) ?rs, l')"
      "seg l' (drop (length ?rs) as)" "num l' = num l" "list_tail l' = list_tail l"
      "\<forall>b \<in> set (drop (length ?rs) as). nodes l' b = nodes l b"
    using pop_ready_loop_seg [OF k(2) k(1) _ refl] assms(2) unfolding codes_ok_def by blast
  have len: "length ?rs \<le> length as"
    using length_takeWhile_le [of _ "take ?k as"] by (rule order_trans) simp
  note s = shrink_at [OF as l'(2-5) len]
  have "take ?k as = take n as"
    using k(3) by simp
  then have "ready = map (entry_at (nodes l)) ?rs"
    using assms(3) entries_at [OF as] by (simp add: take_map takeWhile_map comp_def)
  then show ?thesis
    using l'(1) s by (auto simp: PopIfReady_def Let_def list_wf_def comp_def)
qed

lemma modify_loop_seg:
  assumes "linked h p as" "distinct as"
  shows "\<exists>h'. modify_loop st (length as) p h = Some h' \<and> dom h' = dom h
    \<and> (\<forall>a. map_option next_node (h' a) = map_option next_node (h a))
    \<and> (\<forall>a. entry_at h' a = (if a \<in> set as then ((fst (entry_at h a))\<lparr> status := st \<rparr>, snd (entry_at h a)) else entry_at h a))"
  using assms
proof (induction as arbitrary: p h)
  case (Cons a as)
  then obtain nd where nd: "h a = Some nd" "p = Some a" "linked h (next_node nd) as"
    by (auto split: option.splits)
  let ?nd = "nd\<lparr> node_result := (node_result nd)\<lparr> status := st \<rparr> \<rparr>"
  have lk: "linked (h(a \<mapsto> ?nd)) (next_node nd) as" and d: "distinct as"
    using nd(3) Cons.prems(2) linked_cong [of as h "h(a \<mapsto> ?nd)"] by auto
  obtain h' where h': "modify_loop st (length as) (next_node nd) (h(a \<mapsto> ?nd)) = Some h'" "dom h' = dom (h(a \<mapsto> ?nd))"
      "\<forall>b. map_option next_node (h' b) = map_option next_node ((h(a \<mapsto> ?nd)) b)"
      "\<forall>b. entry_at h' b = (if b \<in> set as then ((fst (entry_at (h(a \<mapsto> ?nd)) b))\<lparr> status := st \<rparr>, snd (entry_at (h(a \<mapsto> ?nd)) b))
         else entry_at (h(a \<mapsto> ?nd)) b)"
    using Cons.IH [OF lk d] by blast
  have "entry_at (h(a \<mapsto> ?nd)) b = (if b = a then ((fst (entry_at h a))\<lparr> status := st \<rparr>, snd (entry_at h a)) else entry_at h b)" for b
    using nd(1) by (simp add: entry_at_def)
  then show ?case
    using h' nd Cons.prems(2) by (auto simp: insert_absorb domI)
qed simp

lemma ModifyAll_wf:
  assumes "list_wf l"
  shows "\<exists>l'. ModifyAll st l = Some (length (entries l), l') \<and> list_wf l'
    \<and> entries l' = map (\<lambda>(r, c). (r\<lparr> status := st \<rparr>, c)) (entries l)"
proof -
  obtain as where as: "list_at l as"
    using assms by (auto simp: list_wf_def)
  then have seg: "linked (nodes l) (list_head l) as" "distinct as" "num l = length as"
    by (simp_all add: list_at_def seg_def)
  obtain h where h: "modify_loop st (length as) (list_head l) (nodes l) = Some h" "dom h = dom (nodes l)"
      "\<forall>a. map_option next_node (h a) = map_option next_node (nodes l a)"
      "\<forall>a. entry_at h a = (if a \<in> set as then ((fst (entry_at (nodes l) a))\<lparr> status := st \<rparr>, snd (entry_at (nodes l) a)) else entry_at (nodes l) a)"
    using modify_loop_seg [OF seg(1,2)] by blast
  have "linked h (list_head l) as"
    using linked_entries_cong [of as h "nodes l"] h(3) seg(1) by blast
  then have at: "list_at (l\<lparr> nodes := h \<rparr>) as"
    using as h(2) by (simp add: list_at_def seg_def)
  then show ?thesis
    using h seg(3) entries_at [OF as] entries_at [OF at]
    by (auto simp: ModifyAll_def list_wf_def case_prod_beta)
qed

lemma destroy_wf:
  assumes "list_wf l"
  shows "CodecResultList_destroy l = Some Map.empty"
proof -
  obtain as where as: "list_at l as"
    using assms by (auto simp: list_wf_def)
  then obtain l' where "pop_nodes (length as) l = Some (map (fst \<circ> entry_at (nodes l)) (take (length as) as), l')" "seg l' []"
    using pop_nodes_seg [of l as "length as"] by (auto simp: list_at_def)
  then show ?thesis
    using as by (simp add: CodecResultList_destroy_def list_at_def seg_def)
qed

section \<open>The list as a queue\<close>

text \<open>One entry pushed with the node the pool hands out, and one result popped.\<close>

definition push_entry :: "(nat \<times> CodecResultNode) option \<Rightarrow> CodecResult \<times> ErrSimContext \<Rightarrow> CodecResultList \<Rightarrow> CodecResultList option" where
  "push_entry obj e l =
    Push_full obj (ctx (fst e)) (status (fst e)) (ucast (consumed (fst e))) (ucast (produced (fst e)))
      (in_checksum (fst e)) (out_checksum (fst e)) (snd e) l"

definition pop_one :: "CodecResultList \<Rightarrow> (CodecResult option \<times> CodecResultList) option" where
  "pop_one l =
    (case Pop_results 1 l of
       None \<Rightarrow> None
     | Some ([], l') \<Rightarrow> Some (None, l')
     | Some (r # rs, l') \<Rightarrow> Some (Some r, l'))"

definition pool_gives :: "(nat \<times> CodecResultNode) option \<Rightarrow> CodecResultList \<Rightarrow> bool" where
  "pool_gives obj l \<longleftrightarrow> (case obj of None \<Rightarrow> False | Some (a, stale) \<Rightarrow> nodes l a = None)"

lemma write_result_entry:
  "node_result (write_result (ctx r) (status r) (ucast (consumed r)) (ucast (produced r)) (in_checksum r) (out_checksum r) ec nd) = r"
  "err_sim_ctx (write_result (ctx r) (status r) (ucast (consumed r)) (ucast (produced r)) (in_checksum r) (out_checksum r) ec nd) = ec"
proof -
  have "ucast (ucast x :: u64) = x" for x :: u32
    by (simp add: ucast_up_ucast_id is_up)
  then show "node_result (write_result (ctx r) (status r) (ucast (consumed r)) (ucast (produced r)) (in_checksum r) (out_checksum r) ec nd) = r"
    by (intro CodecResult.equality) (simp_all add: write_result_def)
qed (simp add: write_result_def)

lemma push_entry_wf:
  assumes "list_wf l" "pool_gives obj l"
  shows "\<exists>l'. push_entry obj e l = Some l' \<and> list_wf l' \<and> entries l' = entries l @ [e]"
proof -
  obtain a stale where obj: "obj = Some (a, stale)" "nodes l a = None"
    using assms(2) by (auto simp: pool_gives_def split: option.splits)
  obtain as where as: "list_at l as"
    using assms(1) by (auto simp: list_wf_def)
  show ?thesis
    using push_at [OF as obj(2)] obj(1) by (fastforce simp: push_entry_def Push_full_def write_result_entry list_wf_def)
qed

interpretation rl: fifo_queue "\<lambda>obj r. push_entry obj (r, ErrSimContext_default)" pop_one pool_gives
  "list_wf" "\<lambda>l. map fst (entries l)"
proof unfold_locales
  fix l obj r
  assume "list_wf l" "pool_gives obj l"
  then show "\<exists>l'. push_entry obj (r, ErrSimContext_default) l = Some l' \<and> list_wf l' \<and> map fst (entries l') = map fst (entries l) @ [r]"
    using push_entry_wf [of l obj "(r, ErrSimContext_default)"] by fastforce
next
  fix l
  assume "list_wf l" "map fst (entries l) = []"
  then show "\<exists>l'. pop_one l = Some (None, l') \<and> list_wf l' \<and> map fst (entries l') = []"
    using Pop_results_wf [of l 1] by (fastforce simp: pop_one_def)
next
  fix l r rs
  assume "list_wf l" "map fst (entries l) = r # rs"
  then show "\<exists>l'. pop_one l = Some (Some r, l') \<and> list_wf l' \<and> map fst (entries l') = rs"
    using Pop_results_wf [of l 1] by (fastforce simp: pop_one_def map_eq_Cons_conv)
qed

text \<open>C26: Results pushed one after another, whatever links the recycled nodes still hold, are popped in the same
  order after the ones already there, by a single \<^verbatim>\<open>Pop\<close> of any size, and nothing is lost: the rest stays in the list.\<close>

theorem result_list_fifo:
  assumes "list_wf l" "all_ready pool_gives (\<lambda>obj r. push_entry obj (r, ErrSimContext_default)) rs l"
  shows "\<exists>l1 l2. push_all (\<lambda>obj r. push_entry obj (r, ErrSimContext_default)) rs l = Some l1
    \<and> Pop_results n l1 = Some (take n (map fst (entries l) @ map snd rs), l2)
    \<and> map fst (entries l2) = drop n (map fst (entries l) @ map snd rs)"
proof -
  obtain l1 where l1: "push_all (\<lambda>obj r. push_entry obj (r, ErrSimContext_default)) rs l = Some l1" "list_wf l1"
      "map fst (entries l1) = map fst (entries l) @ map snd rs"
    using rl.push_all_appends [OF assms] by blast
  obtain l2 where l2: "Pop_results n l1 = Some (map fst (take n (entries l1)), l2)" "entries l2 = drop n (entries l1)"
    using Pop_results_wf [OF l1(2)] by blast
  have "map fst (take n (entries l1)) = take n (map fst (entries l) @ map snd rs)"
    "map fst (entries l2) = drop n (map fst (entries l) @ map snd rs)"
    unfolding take_map [symmetric] l2(2) drop_map [symmetric] l1(3) [symmetric] by simp_all
  then show ?thesis
    using l1(1) l2(1) by auto
qed

text \<open>C27: With simulated errors, \<^verbatim>\<open>PopIfReady\<close> hands out exactly the longest prefix of the list whose entries
  are due, at most \<open>n\<close>, each with the status its simulated error gives it, and keeps the rest in order: an entry
  held back by a simulated hang also holds back everything behind it.\<close>

theorem PopIfReady_prefix:
  assumes "list_wf l" "codes_ok l" "ready = takeWhile (deliverable now) (take n (entries l))"
  shows "\<exists>l'. PopIfReady now n l = Some (map (delivered now) ready, l') \<and> entries l' = drop (length ready) (entries l)"
  using PopIfReady_wf [OF assms] by blast

section \<open>Every reachable list is well formed\<close>

inductive results_reach :: "CodecResultList \<Rightarrow> bool" where
  new: "results_reach CodecResultList_new"
| push: "results_reach l \<Longrightarrow> nodes l a = None \<Longrightarrow> Push_full (Some (a, stale)) uc st cn pn i j ec l = Some l' \<Longrightarrow> results_reach l'"
| push_status: "results_reach l \<Longrightarrow> nodes l a = None \<Longrightarrow> Push_status (Some (a, stale)) uc st ec l = Some l' \<Longrightarrow> results_reach l'"
| pop: "results_reach l \<Longrightarrow> Pop_results n l = Some (rs, l') \<Longrightarrow> results_reach l'"
| pop_ready: "results_reach l \<Longrightarrow> codes_ok l \<Longrightarrow> PopIfReady now n l = Some (rs, l') \<Longrightarrow> results_reach l'"
| modify: "results_reach l \<Longrightarrow> ModifyAll st l = Some (n, l') \<Longrightarrow> results_reach l'"

lemma list_wf_new: "list_wf CodecResultList_new"
  by (auto simp: list_wf_def list_at_def seg_def CodecResultList_new_def intro!: exI [of _ "[]"])

lemma push_wf:
  assumes "list_wf l" "nodes l a = None"
  shows "\<exists>l'. PushInternal a (l\<lparr> nodes := (nodes l)(a \<mapsto> nd) \<rparr>) = Some l' \<and> list_wf l'"
  using assms push_at by (meson list_wf_def)

lemma results_reach_wf: "results_reach l \<Longrightarrow> list_wf l"
proof (induction rule: results_reach.induct)
  case new
  show ?case
    by (rule list_wf_new)
next
  case (push l a stale uc st cn pn i j ec l')
  then show ?case
    using push_wf [of l a "write_result uc st cn pn i j ec stale"] by (simp add: Push_full_def)
next
  case (push_status l a stale uc st ec l')
  then show ?case
    using push_wf [of l a "write_result uc st 0 0 0 0 ec stale"] by (simp add: Push_status_def)
next
  case (pop l n rs l')
  then show ?case
    using Pop_results_wf [of l n] by auto
next
  case (pop_ready l now n rs l')
  then show ?case
    using PopIfReady_wf [OF pop_ready.IH pop_ready.hyps(2) refl, of now n] by auto
next
  case (modify l st n l')
  then show ?case
    using ModifyAll_wf [of l st] by auto
qed

text \<open>C28: Every list reachable by pushes, pops and status changes is well formed: its size counts its nodes, the
  tail is its last node, and no node is shared or lost.  So pops never touch a released node, changing all statuses
  changes exactly the listed results, and the destructor returns every node to the pool.\<close>

theorem result_list_well_formed:
  assumes "results_reach l"
  shows "list_wf l \<and> Size_results l = length (entries l) \<and> Pop_results n l \<noteq> None
    \<and> (\<exists>l'. ModifyAll st l = Some (Size_results l, l') \<and> entries l' = map (\<lambda>(r, c). (r\<lparr> status := st \<rparr>, c)) (entries l))
    \<and> CodecResultList_destroy l = Some Map.empty"
proof -
  have wf: "list_wf l"
    using assms by (rule results_reach_wf)
  then have size: "Size_results l = length (entries l)"
    by (auto simp: list_wf_def Size_results_def entries_at) (simp add: list_at_def)
  show ?thesis
    using wf size Pop_results_wf [OF wf, of n] ModifyAll_wf [OF wf, of st] destroy_wf [OF wf] by auto
qed

section \<open>Validation\<close>

lemma total_src_len_sum:
  assumes "sum_list (map unat lens) + unat n < 2 ^ 64"
  shows "total_src_len lens n = (if 0 \<in> set lens then None else Some (n + of_nat (sum_list (map unat lens))))"
  using assms
proof (induction lens arbitrary: n)
  case (Cons len lens)
  have "uint (ucast len :: u64) = uint len"
    by (simp add: uint_up_ucast is_up)
  then have len: "unat (ucast len :: u64) = unat len"
    by (simp only: flip: nat_uint_eq)
  then have "unat (n + ucast len) = unat n + unat len"
    using Cons.prems by (simp add: unat_word_ariths)
  then show ?case
    using Cons.IH [of "n + ucast len"] Cons.prems by (auto simp: ac_simps)
qed simp

lemma sum_lens_bound: "sum_list (map unat (lens :: u32 list)) \<le> length lens * (2 ^ 32 - 1)"
proof (induction lens)
  case (Cons len lens)
  have "unat len \<le> 2 ^ 32 - 1"
    using unsigned_less [of len, where ?'a = nat] by simp
  then show ?case
    using Cons.IH by simp
qed simp

text \<open>\<^verbatim>\<open>ValidateSglArgs\<close> accepts exactly between 1 and 32 buffers with as many lengths, none of them zero,
  that are at most two gigabytes together.\<close>

theorem ValidateSglArgs_exact:
  "ValidateSglArgs src src_len = kOk \<longleftrightarrow>
    length src = length src_len \<and> src_len \<noteq> [] \<and> length src_len \<le> 32 \<and> 0 \<notin> set src_len \<and> sum_list (map unat src_len) \<le> 2 ^ 31"
proof (cases "length src_len \<le> 32")
  case True
  have "length src_len * (2 ^ 32 - 1) \<le> 32 * (2 ^ 32 - 1)"
    using True by (rule mult_le_mono1)
  then have sum: "sum_list (map unat src_len) \<le> 32 * (2 ^ 32 - 1)"
    using sum_lens_bound [of src_len] by (rule order_trans [rotated])
  then have total: "total_src_len src_len 0 = (if 0 \<in> set src_len then None else Some (of_nat (sum_list (map unat src_len))))"
    using total_src_len_sum [of src_len 0] by simp
  have n: "unat (of_nat (sum_list (map unat src_len)) :: u64) = sum_list (map unat src_len)"
    using sum by (simp add: unat_of_nat)
  have zero: "sum_list (map unat src_len) = 0 \<longleftrightarrow> src_len = []" if "0 \<notin> set src_len"
    using that by (cases src_len) (auto simp: unat_eq_zero)
  let ?total = "of_nat (sum_list (map unat src_len)) :: u64"
  have "?total > kMaxSrcLen \<longleftrightarrow> sum_list (map unat src_len) > 2 ^ 31"
    unfolding word_less_nat_alt n by (simp add: kMaxSrcLen_def)
  moreover have "?total = 0 \<longleftrightarrow> sum_list (map unat src_len) = 0"
    unfolding word_unat_eq_iff n by simp
  ultimately show ?thesis
    using True zero by (simp add: ValidateSglArgs_def total VESAL_MAX_SGL_NUM_def not_less)
next
  case False
  then show ?thesis
    by (auto simp: ValidateSglArgs_def VESAL_MAX_SGL_NUM_def split: option.splits)
qed

section \<open>Concrete lists\<close>

text \<open>Two recycled nodes with stale links, and a list that holds one result held back by a simulated hang.\<close>

definition stale_node :: CodecResultNode where
  "stale_node = \<lparr> node_result = CodecResult_default, err_sim_ctx = ErrSimContext_default, next_node = Some 99 \<rparr>"

definition result_of :: "nat \<Rightarrow> CodecResult" where
  "result_of c = CodecResult_default\<lparr> status := kOk, ctx := c \<rparr>"

definition hang_ctx :: ErrSimContext where
  "hang_ctx = \<lparr> err_sim_code = 6, err_sim_onfire_ts = 50, onfire_ts = 70 \<rparr>"

definition hung_list :: CodecResultList where
  "hung_list =
    \<lparr> list_head = Some 5, list_tail = Some 6, num = 2,
      nodes = [5 \<mapsto> stale_node\<lparr> node_result := result_of 1, next_node := Some 6 \<rparr>,
               6 \<mapsto> stale_node\<lparr> node_result := result_of 2, err_sim_ctx := hang_ctx \<rparr>] \<rparr>"

lemma hung_list_at: "list_at hung_list [5, 6]"
  by (auto simp: list_at_def seg_def hung_list_def stale_node_def)

lemma hung_list_entries: "entries hung_list = [(result_of 1, ErrSimContext_default), (result_of 2, hang_ctx)]"
  unfolding entries_at [OF hung_list_at] by (simp add: entry_at_def hung_list_def stale_node_def)

theorem result_list_fifo_witness:
  "\<exists>l1 l2. push_all (\<lambda>obj r. push_entry obj (r, ErrSimContext_default)) [(Some (5, stale_node), result_of 1), (Some (6, stale_node), result_of 2)]
      CodecResultList_new = Some l1
    \<and> Pop_results 1 l1 = Some ([result_of 1], l2) \<and> map fst (entries l2) = [result_of 2]"
proof -
  have "all_ready pool_gives (\<lambda>obj r. push_entry obj (r, ErrSimContext_default))
      [(Some (5, stale_node), result_of 1), (Some (6, stale_node), result_of 2)] CodecResultList_new"
    by (simp add: pool_gives_def CodecResultList_new_def push_entry_def Push_full_def PushInternal_def)
  moreover have "entries CodecResultList_new = []"
    by (simp add: entries_def CodecResultList_new_def)
  ultimately show ?thesis
    using result_list_fifo [OF list_wf_new, of "[(Some (5, stale_node), result_of 1), (Some (6, stale_node), result_of 2)]" 1] by simp
qed

theorem PopIfReady_prefix_witness:
  "(\<exists>l'. PopIfReady 40 2 hung_list = Some ([result_of 1], l') \<and> entries l' = [(result_of 2, hang_ctx)])
   \<and> (\<exists>l'. PopIfReady 80 2 hung_list = Some ([result_of 1, (result_of 2)\<lparr> status := kTimeout \<rparr>], l'))"
proof -
  have wf: "list_wf hung_list"
    using hung_list_at by (auto simp: list_wf_def)
  have ok: "codes_ok hung_list"
    by (auto simp: codes_ok_def hung_list_def ran_def stale_node_def hang_ctx_def ErrSimContext_default_def
        QatErrSimCodeToVesalStatusCode_def VESAL_QAT_ERR_SIM_OK_def split: if_splits)
  have "takeWhile (deliverable 40) (take 2 (entries hung_list)) = [(result_of 1, ErrSimContext_default)]"
    "takeWhile (deliverable 80) (take 2 (entries hung_list)) = [(result_of 1, ErrSimContext_default), (result_of 2, hang_ctx)]"
    "delivered t (result_of 1, ErrSimContext_default) = result_of 1"
    "delivered 80 (result_of 2, hang_ctx) = (result_of 2)\<lparr> status := kTimeout \<rparr>" for t
    by (simp_all add: hung_list_entries deliverable_def delivered_def hang_ctx_def ErrSimContext_default_def
        VESAL_QAT_ERR_SIM_IS_TIMEOUT_def VESAL_QAT_ERR_SIM_OK_def)
  then show ?thesis
    using PopIfReady_prefix [OF wf ok refl, of 40 2] PopIfReady_prefix [OF wf ok refl, of 80 2] by (auto simp: hung_list_entries)
qed

theorem result_list_well_formed_witness:
  "\<exists>l. results_reach l \<and> Size_results l = 1 \<and> CodecResultList_destroy l = Some Map.empty"
proof -
  obtain l where l: "Push_status (Some (5, stale_node)) 1 kOk ErrSimContext_default CodecResultList_new = Some l" "num l = 1"
    by (simp add: Push_status_def PushInternal_def CodecResultList_new_def)
  then have "results_reach l"
    using results_reach.push_status [OF results_reach.new _ l(1)] by (simp add: CodecResultList_new_def)
  then show ?thesis
    using result_list_well_formed [of l 0 kOk] l(2) by (auto simp: Size_results_def intro!: exI [of _ l])
qed

end
