(* ===== verification/Xx_Hash.thy ===== *)
theory Xx_Hash
  imports Byte_Order
begin

text \<open>The xxHash of the LZ4 frame header, \<^verbatim>\<open>XxHash\<close> in \<^verbatim>\<open>src/src/common/checksum_impl.cc\<close>, as the code has it:
  three loops that advance one pointer over the buffer.  Pointers are positions in the buffer.  The architectures
  the library supports are little endian; whether \<^verbatim>\<open>char\<close> is signed differs between them, so it is the argument
  \<open>schar\<close>.\<close>

unbundle bit_operations_syntax

definition xx_k1 :: u32 where "xx_k1 = 2654435761"
definition xx_k2 :: u32 where "xx_k2 = 2246822519"
definition xx_k3 :: u32 where "xx_k3 = 3266489917"
definition xx_k4 :: u32 where "xx_k4 = 668265263"
definition xx_k5 :: u32 where "xx_k5 = 374761393"

definition XX_ROT32 :: "u32 \<Rightarrow> nat \<Rightarrow> u32" where
  "XX_ROT32 x r = push_bit r x OR drop_bit (32 - r) x"

definition word_at :: "u8 list \<Rightarrow> nat \<Rightarrow> u32" where
  "word_at bs p = ucast (load_le (take 4 (drop p bs)))"

definition xx_round :: "u32 \<Rightarrow> u32 \<Rightarrow> u32" where
  "xx_round v w = XX_ROT32 (v + w * xx_k2) 13 * xx_k1"

text \<open>The \<^verbatim>\<open>do ... while (p <= limit)\<close> loop, where \<open>limit\<close> is 16 bytes before the end.\<close>

function xx_stripes :: "u8 list \<Rightarrow> nat \<Rightarrow> u32 \<times> u32 \<times> u32 \<times> u32 \<Rightarrow> nat \<times> u32 \<times> u32 \<times> u32 \<times> u32" where
  "xx_stripes bs p (v1, v2, v3, v4) =
    (let v1 = xx_round v1 (word_at bs p); v2 = xx_round v2 (word_at bs (p + 4));
         v3 = xx_round v3 (word_at bs (p + 8)); v4 = xx_round v4 (word_at bs (p + 12)); p = p + 16
     in if p + 16 \<le> length bs then xx_stripes bs p (v1, v2, v3, v4) else (p, v1, v2, v3, v4))"
  by pat_completeness auto
termination
  by (relation "measure (\<lambda>(bs, p, v). length bs - p)") auto

function xx_words :: "u8 list \<Rightarrow> nat \<Rightarrow> u32 \<Rightarrow> nat \<times> u32" where
  "xx_words bs p h =
    (if p + 4 \<le> length bs then xx_words bs (p + 4) (XX_ROT32 (h + word_at bs p * xx_k3) 17 * xx_k4) else (p, h))"
  by pat_completeness auto
termination
  by (relation "measure (\<lambda>(bs, p, h). length bs - p)") auto

text \<open>The value of a byte read through \<^verbatim>\<open>const char*\<close> and converted to 32 bits.\<close>

definition char_value :: "bool \<Rightarrow> u8 \<Rightarrow> u32" where
  "char_value schar b = (if schar then scast b else ucast b)"

function xx_bytes :: "bool \<Rightarrow> u8 list \<Rightarrow> nat \<Rightarrow> u32 \<Rightarrow> u32" where
  "xx_bytes schar bs p h =
    (if p < length bs then xx_bytes schar bs (p + 1) (XX_ROT32 (h + char_value schar (bs ! p) * xx_k5) 11 * xx_k1) else h)"
  by pat_completeness auto
termination
  by (relation "measure (\<lambda>(schar, bs, p, h). length bs - p)") auto

declare xx_stripes.simps [simp del] xx_words.simps [simp del] xx_bytes.simps [simp del]

definition xx_final :: "u32 \<Rightarrow> u32" where
  "xx_final h =
    (let h = h XOR drop_bit 15 h; h = h * xx_k2; h = h XOR drop_bit 13 h; h = h * xx_k3 in h XOR drop_bit 16 h)"

definition XxHash :: "bool \<Rightarrow> u8 list \<Rightarrow> u32" where
  "XxHash schar bs =
    (let (p, h) =
       (if length bs \<ge> 16 then
          let (p, v1, v2, v3, v4) = xx_stripes bs 0 (xx_k1 + xx_k2, xx_k2, 0, 0 - xx_k1)
          in (p, XX_ROT32 v1 1 + XX_ROT32 v2 7 + XX_ROT32 v3 12 + XX_ROT32 v4 18)
        else (0, xx_k5));
       h = h + of_nat (length bs);
       (p, h) = xx_words bs p h;
       h = xx_bytes schar bs p h
     in xx_final h)"

section \<open>The published algorithm\<close>

text \<open>xxHash32 with seed 0 as its specification describes it: the input is cut into stripes of four lanes, whose
  accumulators are independent of each other, then into words, then into bytes, which are unsigned.\<close>

definition lane :: "u8 list \<Rightarrow> nat \<Rightarrow> nat \<Rightarrow> u32 \<Rightarrow> nat \<Rightarrow> u32" where
  "lane bs p n v j = foldl xx_round v (map (\<lambda>i. word_at bs (p + 16 * i + 4 * j)) [0..<n])"

definition xxh32_start :: "u8 list \<Rightarrow> u32" where
  "xxh32_start bs =
    (let n = length bs div 16 in
     if n = 0 then xx_k5
     else XX_ROT32 (lane bs 0 n (xx_k1 + xx_k2) 0) 1 + XX_ROT32 (lane bs 0 n xx_k2 1) 7
        + XX_ROT32 (lane bs 0 n 0 2) 12 + XX_ROT32 (lane bs 0 n (- xx_k1) 3) 18)"

definition xxh32 :: "u8 list \<Rightarrow> u32" where
  "xxh32 bs =
    (let rest = drop (length bs div 16 * 16) bs;
         words = map (\<lambda>i. word_at rest (4 * i)) [0..<length rest div 4];
         tail = drop (length rest div 4 * 4) rest;
         h = xxh32_start bs + of_nat (length bs);
         h = foldl (\<lambda>h w. XX_ROT32 (h + w * xx_k3) 17 * xx_k4) h words;
         h = foldl (\<lambda>h b. XX_ROT32 (h + ucast b * xx_k5) 11 * xx_k1) h tail
     in xx_final h)"

lemma lane_Suc: "lane bs p (Suc n) v j = lane bs (p + 16) n (xx_round v (word_at bs (p + 4 * j))) j"
proof -
  have "[0..<Suc n] = 0 # map Suc [0..<n]"
    by (simp add: upt_conv_Cons map_Suc_upt del: upt_Suc)
  then show ?thesis
    by (simp add: lane_def comp_def add.assoc del: upt_Suc)
qed

lemma xx_stripes_lanes:
  assumes "p + 16 \<le> length bs"
  shows "xx_stripes bs p (v1, v2, v3, v4) =
    (let n = (length bs - p) div 16 in (p + 16 * n, lane bs p n v1 0, lane bs p n v2 1, lane bs p n v3 2, lane bs p n v4 3))"
  using assms
proof (induction "length bs - p" arbitrary: p v1 v2 v3 v4 rule: less_induct)
  case less
  define m where "m = (length bs - (p + 16)) div 16"
  have m: "(length bs - p) div 16 = Suc m" "(length bs - (p + 16)) div 16 = m"
    using less.prems by (simp_all add: m_def le_div_geq)
  show ?case
  proof (cases "p + 16 + 16 \<le> length bs")
    case True
    then show ?thesis
      using less.hyps [of "p + 16"] m by (subst xx_stripes.simps) (simp add: Let_def lane_Suc)
  next
    case False
    then have "m = 0"
      using m by simp
    then show ?thesis
      using False m by (subst xx_stripes.simps) (simp add: Let_def lane_Suc, simp add: lane_def)
  qed
qed
lemma xx_words_fold:
  assumes "p \<le> length bs"
  shows "xx_words bs p h =
    (let n = (length bs - p) div 4
     in (p + 4 * n, foldl (\<lambda>h w. XX_ROT32 (h + w * xx_k3) 17 * xx_k4) h (map (\<lambda>i. word_at bs (p + 4 * i)) [0..<n])))"
  using assms
proof (induction "length bs - p" arbitrary: p h rule: less_induct)
  case less
  show ?case
  proof (cases "p + 4 \<le> length bs")
    case True
    define m where "m = (length bs - (p + 4)) div 4"
    have m: "(length bs - p) div 4 = Suc m" "(length bs - (p + 4)) div 4 = m"
      using True by (simp_all add: m_def le_div_geq)
    have "[0..<Suc m] = 0 # map Suc [0..<m]"
      by (simp add: upt_conv_Cons map_Suc_upt del: upt_Suc)
    then show ?thesis
      using less.hyps [of "p + 4"] True m by (subst xx_words.simps) (simp add: Let_def comp_def add.assoc del: upt_Suc)
  next
    case False
    then show ?thesis
      by (subst xx_words.simps) simp
  qed
qed

lemma xx_bytes_fold:
  assumes "p \<le> length bs"
  shows "xx_bytes schar bs p h = foldl (\<lambda>h b. XX_ROT32 (h + char_value schar b * xx_k5) 11 * xx_k1) h (drop p bs)"
  using assms
proof (induction "length bs - p" arbitrary: p h rule: less_induct)
  case less
  show ?case
  proof (cases "p < length bs")
    case True
    then show ?thesis
      using less.hyps [of "p + 1"] by (subst xx_bytes.simps) (simp add: Cons_nth_drop_Suc [symmetric])
  next
    case False
    then show ?thesis
      by (subst xx_bytes.simps) simp
  qed
qed

lemma word_at_drop: "word_at (drop p bs) q = word_at bs (p + q)"
  by (simp add: word_at_def add.commute)

lemma char_value_low: "b < 128 \<Longrightarrow> char_value schar b = ucast b"
proof -
  assume "b < 128"
  then have "uint b < 128"
    by (simp add: word_less_def)
  moreover have "- (2 ^ 7) \<le> uint b"
    by (rule order_trans [OF _ uint_ge_0]) simp
  ultimately have "sint b = uint b"
    unfolding sint_uint by (intro signed_take_bit_int_eq_self) simp_all
  then have "(scast b :: u32) = ucast b"
    unfolding scast_eq by simp
  then show ?thesis
    by (simp add: char_value_def)
qed

definition xx_start :: "u8 list \<Rightarrow> nat \<times> u32" where
  "xx_start bs =
    (if length bs \<ge> 16 then
       let (p, v1, v2, v3, v4) = xx_stripes bs 0 (xx_k1 + xx_k2, xx_k2, 0, 0 - xx_k1)
       in (p, XX_ROT32 v1 1 + XX_ROT32 v2 7 + XX_ROT32 v3 12 + XX_ROT32 v4 18)
     else (0, xx_k5))"

lemma xx_start_eq: "xx_start bs = (length bs div 16 * 16, xxh32_start bs)"
proof (cases "length bs \<ge> 16")
  case True
  then have "length bs div 16 \<noteq> 0"
    by (simp add: div_eq_0_iff)
  moreover have "0 + 16 \<le> length bs"
    using True by simp
  ultimately show ?thesis
    unfolding xx_start_def xxh32_start_def xx_stripes_lanes [OF \<open>0 + 16 \<le> length bs\<close>] Let_def prod.case
    using True by (simp only: if_True if_False add_0_left diff_zero diff_0 mult.commute [of 16])
qed (simp add: xx_start_def xxh32_start_def)

lemma XxHash_xxh32:
  assumes "\<not> schar \<or> (\<forall>b \<in> set (drop (length bs div 4 * 4) bs). b < 128)"
  shows "XxHash schar bs = xxh32 bs"
proof -
  let ?q = "length bs div 16 * 16"
  have q: "?q \<le> length bs"
    by simp
  have tail: "?q + (length bs - ?q) div 4 * 4 = length bs div 4 * 4"
  proof -
    define a r where "a = length bs div 16" and "r = length bs mod 16"
    then have n: "length bs = 4 * (4 * a) + r"
      using div_mult_mod_eq [of "length bs" 16] by simp
    have "length bs - ?q = r"
      using n by (simp add: a_def)
    moreover have "length bs div 4 = 4 * a + r div 4"
      unfolding n by (simp add: div_mult_self4)
    ultimately show ?thesis
      by (simp add: a_def [symmetric])
  qed
  have words: "xx_words bs ?q h = (length bs div 4 * 4, foldl (\<lambda>h w. XX_ROT32 (h + w * xx_k3) 17 * xx_k4) h
      (map (\<lambda>i. word_at (drop ?q bs) (4 * i)) [0..<length (drop ?q bs) div 4]))" for h
    unfolding xx_words_fold [OF q] Let_def word_at_drop using tail by (simp add: mult.commute)
  have bytes: "xx_bytes schar bs (length bs div 4 * 4) h = foldl (\<lambda>h b. XX_ROT32 (h + ucast b * xx_k5) 11 * xx_k1) h
      (drop (length bs div 4 * 4) bs)" for h
  proof -
    have "char_value schar b = ucast b" if "b \<in> set (drop (length bs div 4 * 4) bs)" for b
      using assms that by (cases schar) (auto simp: char_value_low, simp add: char_value_def)
    then show ?thesis
      by (subst xx_bytes_fold) (auto intro: foldl_cong)
  qed
  have drop: "drop (length (drop ?q bs) div 4 * 4) (drop ?q bs) = drop (length bs div 4 * 4) bs"
    using tail by (simp add: add.commute)
  have "XxHash schar bs = (let (p, h) = xx_start bs; h = h + of_nat (length bs); (p, h) = xx_words bs p h; h = xx_bytes schar bs p h
      in xx_final h)"
    by (simp add: XxHash_def xx_start_def)
  also have "\<dots> = xxh32 bs"
    unfolding xx_start_eq xxh32_def Let_def prod.case words bytes drop ..
  finally show ?thesis .
qed

lemma XxHash_low: "\<forall>b \<in> set bs. b < 128 \<Longrightarrow> XxHash schar bs = xxh32 bs"
  by (rule XxHash_xxh32) (auto dest: in_set_dropD)

text \<open>C30: The pointer loops compute the published xxHash32 with seed 0 wherever the bytes of the tail, at most
  three after the last whole word, are below 128, and on every input where \<^verbatim>\<open>char\<close> is unsigned.\<close>

theorem XxHash_reference:
  assumes "\<not> schar \<or> (\<forall>b \<in> set (drop (length bs div 4 * 4) bs). b < 128)"
  shows "XxHash schar bs = xxh32 bs"
  using assms by (rule XxHash_xxh32)

lemma xxh32_header: "drop_bit 8 (xxh32 [0x60, 0x40]) AND 0xFF = 0x82"
  by code_simp

theorem XxHash_reference_witness: "drop_bit 8 (XxHash True [0x60, 0x40]) AND 0xFF = 0x82"
  using XxHash_reference [of True "[0x60, 0x40]"] xxh32_header by simp

text \<open>With signed characters, as on x86, a tail byte of 128 or more is sign-extended, and the result is not
  the published hash; the two supported architectures then disagree.\<close>

theorem XxHash_signed_tail: "XxHash True [0x80] \<noteq> xxh32 [0x80] \<and> XxHash False [0x80] = xxh32 [0x80]"
  by code_simp

end
