(* ===== verification/Dc_Format.thy ===== *)
theory Dc_Format
  imports Checksum Xx_Hash Codec_Types Qat_Unit
begin

text \<open>The framing of compressed data, \<^verbatim>\<open>src/src/codec/dc_format.{h,cc}\<close>: headers and footers of LZ4 frames and
  zlib streams, and the translation of compression levels.  Buffers are lists of bytes; a generator returns the
  buffer it wrote into and the number of bytes written.  The enumerations of \<^verbatim>\<open>lz4frame.h\<close> and the levels
  of \<^verbatim>\<open>zlib.h\<close> are arguments; \<open>lz4f_documented\<close> states the values the comments of the source give.  Structures
  are packed and, as on both supported architectures, little endian.  \<open>None\<close> is a failed check or an access outside
  an array.\<close>

unbundle bit_operations_syntax

record lz4f_enums =
  LZ4F_max64KB :: u8
  LZ4F_blockIndependent :: u8
  LZ4F_noBlockChecksum :: u8
  LZ4F_noContentChecksum :: u8
  LZ4F_skippableFrame :: u8

definition lz4f_documented :: "lz4f_enums \<Rightarrow> bool" where
  "lz4f_documented e \<longleftrightarrow>
    LZ4F_max64KB e = 4 \<and> LZ4F_blockIndependent e = 1 \<and> LZ4F_noBlockChecksum e = 0 \<and> LZ4F_noContentChecksum e = 0"

record zlib_levels =
  Z_BEST_SPEED :: int
  Z_DEFAULT_COMPRESSION :: int
  Z_BEST_COMPRESSION :: int

definition kMaxHeaderSize :: nat where "kMaxHeaderSize = 32"
definition kMaxFooterSize :: nat where "kMaxFooterSize = 32"
definition kLz4FrameHeaderMagic :: u32 where "kLz4FrameHeaderMagic = 0x184D2204"
definition kLz4FrameHeaderVersion :: u8 where "kLz4FrameHeaderVersion = 1"
definition kLz4FrameHeaderContentSizeFlag :: u8 where "kLz4FrameHeaderContentSizeFlag = 0"
definition kLz4FrameHeaderDictPresent :: u8 where "kLz4FrameHeaderDictPresent = 0"
definition kLz4FrameFooterEndMark :: u32 where "kLz4FrameFooterEndMark = 0"
definition kZlibHeaderCmf :: u8 where "kZlibHeaderCmf = 0x78"
definition kZlibHeaderFlagLow :: u8 where "kZlibHeaderFlagLow = 0x01"
definition kZlibHeaderFlagFast :: u8 where "kZlibHeaderFlagFast = 0x5E"
definition kZlibHeaderFlagDefault :: u8 where "kZlibHeaderFlagDefault = 0x9C"
definition kZlibHeaderFlagBest :: u8 where "kZlibHeaderFlagBest = 0xDA"

fun GetZlibHeaderFlag :: "CodecCompLevel \<Rightarrow> u8" where
  "GetZlibHeaderFlag kLevel1 = kZlibHeaderFlagLow"
| "GetZlibHeaderFlag kLevel2 = kZlibHeaderFlagLow"
| "GetZlibHeaderFlag kLevel3 = kZlibHeaderFlagFast"
| "GetZlibHeaderFlag kLevel4 = kZlibHeaderFlagFast"
| "GetZlibHeaderFlag kLevel5 = kZlibHeaderFlagFast"
| "GetZlibHeaderFlag kLevel6 = kZlibHeaderFlagDefault"
| "GetZlibHeaderFlag kLevel7 = kZlibHeaderFlagDefault"
| "GetZlibHeaderFlag kLevel8 = kZlibHeaderFlagDefault"
| "GetZlibHeaderFlag _ = kZlibHeaderFlagBest"

fun ChannelLvlToZlibLvl :: "zlib_levels \<Rightarrow> CodecCompLevel \<Rightarrow> int" where
  "ChannelLvlToZlibLvl z kLevel1 = Z_BEST_SPEED z"
| "ChannelLvlToZlibLvl z kLevel2 = Z_BEST_SPEED z"
| "ChannelLvlToZlibLvl z kLevel3 = Z_DEFAULT_COMPRESSION z"
| "ChannelLvlToZlibLvl z kLevel4 = Z_DEFAULT_COMPRESSION z"
| "ChannelLvlToZlibLvl z kLevel5 = Z_DEFAULT_COMPRESSION z"
| "ChannelLvlToZlibLvl z kLevel6 = Z_DEFAULT_COMPRESSION z"
| "ChannelLvlToZlibLvl z kLevel7 = Z_DEFAULT_COMPRESSION z"
| "ChannelLvlToZlibLvl z kLevel8 = Z_DEFAULT_COMPRESSION z"
| "ChannelLvlToZlibLvl z _ = Z_BEST_COMPRESSION z"

section \<open>Headers and footers\<close>

record Lz4FrameHeader =
  magic :: u32
  flag_desc :: u8
  block_desc :: u8
  hdr_cksum :: u8

record Lz4FrameFooter =
  end_mark :: u32

record ZlibHeader =
  cmf :: u8
  flag :: u8

record ZlibFooter =
  adler32 :: u32

definition lz4_header_bytes :: "Lz4FrameHeader \<Rightarrow> u8 list" where
  "lz4_header_bytes h = store_le 4 (ucast (magic h)) @ [flag_desc h, block_desc h, hdr_cksum h]"

definition lz4_footer_bytes :: "Lz4FrameFooter \<Rightarrow> u8 list" where
  "lz4_footer_bytes f = store_le 4 (ucast (end_mark f))"

definition kLz4FrameHeaderSize :: nat where "kLz4FrameHeaderSize = 7"
definition kLz4FrameFooterSize :: nat where "kLz4FrameFooterSize = 4"
definition kZlibHeaderSize :: nat where "kZlibHeaderSize = 2"
definition kZlibFooterSize :: nat where "kZlibFooterSize = 4"

text \<open>The arithmetic on \<^verbatim>\<open>uint8_t\<close> operands is done in \<^verbatim>\<open>int\<close> and narrowed at the end.\<close>

definition Lz4FrameHeaderGen :: "bool \<Rightarrow> lz4f_enums \<Rightarrow> u8 list \<Rightarrow> nat \<times> u8 list" where
  "Lz4FrameHeaderGen schar e buf =
    (let w = (\<lambda>x :: u8. ucast x :: u32);
         fd = push_bit 6 (w kLz4FrameHeaderVersion AND 0x03) + push_bit 5 (w (LZ4F_blockIndependent e) AND 0x01)
            + push_bit 4 (w (LZ4F_noBlockChecksum e) AND 0x01) + push_bit 3 (w kLz4FrameHeaderContentSizeFlag AND 0x01)
            + push_bit 2 (w (LZ4F_noContentChecksum e) AND 0x01) + (w kLz4FrameHeaderDictPresent AND 0x01);
         header = \<lparr> magic = kLz4FrameHeaderMagic, flag_desc = ucast fd,
                    block_desc = ucast (push_bit 4 (w (LZ4F_max64KB e) AND 0x07)), hdr_cksum = 0 \<rparr>;
         hc = XxHash schar [flag_desc header, block_desc header];
         header = header\<lparr> hdr_cksum := (ucast (drop_bit 8 hc) :: u8) AND 0xFF \<rparr>
     in (kLz4FrameHeaderSize, overwrite 0 (lz4_header_bytes header) buf))"

definition Lz4FrameFooterGen :: "lz4f_enums \<Rightarrow> u8 list \<Rightarrow> (nat \<times> u8 list) option" where
  "Lz4FrameFooterGen e buf =
    (if LZ4F_noContentChecksum e = 0
     then Some (kLz4FrameFooterSize, overwrite 0 (lz4_footer_bytes \<lparr> end_mark = kLz4FrameFooterEndMark \<rparr>) buf)
     else None)"

text \<open>The results: the status, the buffer and the size, which only a successful call writes.\<close>

definition FrameHeaderGen :: "bool \<Rightarrow> lz4f_enums \<Rightarrow> CodecAlgorithm \<Rightarrow> u8 list \<Rightarrow> nat \<Rightarrow> (Status \<times> u8 list \<times> nat) option" where
  "FrameHeaderGen schar e alg buf size0 =
    (case alg of
       kLz4 \<Rightarrow>
         let (generated, buf) = Lz4FrameHeaderGen schar e buf
         in if generated = kLz4FrameHeaderSize then Some (OkStatus, buf, generated) else None
     | kZstd \<Rightarrow> Some (OkStatus, overwrite 0 (replicate kMaxHeaderSize 0) buf, 0)
     | kDeflate \<Rightarrow> Some (OkStatus, overwrite 0 (replicate kMaxHeaderSize 0) buf, 0)
     | kZlib \<Rightarrow> Some (StatusCodeToStatus kNotSupported ''Should call ZlibHeaderGen directly,'', buf, size0)
     | kAlgorithmNum \<Rightarrow>
         Some (StatusCodeToStatus kNotSupported (''Unknown algorithm: '' @ to_string (algorithm_value alg)), buf, size0))"

definition FrameFooterGen :: "lz4f_enums \<Rightarrow> CodecAlgorithm \<Rightarrow> u8 list \<Rightarrow> nat \<Rightarrow> (Status \<times> u8 list \<times> nat) option" where
  "FrameFooterGen e alg buf size0 =
    (case alg of
       kLz4 \<Rightarrow>
         (case Lz4FrameFooterGen e buf of
            None \<Rightarrow> None
          | Some (generated, buf) \<Rightarrow> if generated = kLz4FrameFooterSize then Some (OkStatus, buf, generated) else None)
     | kZstd \<Rightarrow> Some (OkStatus, overwrite 0 (replicate kMaxFooterSize 0) buf, 0)
     | kDeflate \<Rightarrow> Some (OkStatus, overwrite 0 (replicate kMaxFooterSize 0) buf, 0)
     | kZlib \<Rightarrow> Some (StatusCodeToStatus kNotSupported ''Should call ZlibFooterGen directly,'', buf, size0)
     | kAlgorithmNum \<Rightarrow> Some (StatusCodeToStatus kNotSupported ''Only support Lz4 and zstd now'', buf, size0))"

definition htonl :: "u32 \<Rightarrow> u32" where
  "htonl x = ucast (load_le (rev (store_le 4 (ucast x))))"

definition ZlibFooterGen :: "u32 \<Rightarrow> u8 list \<Rightarrow> nat \<times> u8 list" where
  "ZlibFooterGen adler buf =
    (let footer = \<lparr> adler32 = htonl adler \<rparr> in (kZlibFooterSize, overwrite 0 (store_le 4 (ucast (adler32 footer))) buf))"

definition ZlibHeaderGen :: "CodecCompLevel \<Rightarrow> u8 list \<Rightarrow> nat \<times> u8 list" where
  "ZlibHeaderGen level buf =
    (let header = \<lparr> cmf = kZlibHeaderCmf, flag = GetZlibHeaderFlag level \<rparr> in (kZlibHeaderSize, overwrite 0 [cmf header, flag header] buf))"

section \<open>Precomputed data and preferences\<close>

record Lz4StaticData =
  sd_header :: "u8 list"
  sd_footer :: "u8 list"
  header_crc :: u32
  footer_crc :: u32

text \<open>The constructor; the arguments \<open>h\<close> and \<open>f\<close> are what the memory of the two arrays holds before.\<close>

definition Lz4StaticData_new :: "bool \<Rightarrow> bool \<Rightarrow> lz4f_enums \<Rightarrow> u8 list \<Rightarrow> u8 list \<Rightarrow> Lz4StaticData option" where
  "Lz4StaticData_new sse4_2 schar e h f =
    (let (_, h) = Lz4FrameHeaderGen schar e h in
     case Lz4FrameFooterGen e f of
       None \<Rightarrow> None
     | Some (_, f) \<Rightarrow>
         (case (ComputeCRC32 sse4_2 0xFFFFFFFF (take kLz4FrameHeaderSize h), ComputeCRC32 sse4_2 0xFFFFFFFF (take kLz4FrameFooterSize f)) of
            (Some hc, Some fc) \<Rightarrow> Some \<lparr> sd_header = h, sd_footer = f, header_crc = hc, footer_crc = fc \<rparr>
          | _ \<Rightarrow> None))"

definition kChannelLvlToLz4fLvl :: "int list" where
  "kChannelLvlToLz4fLvl = [0, -10, -8, -6, -4, -2, 0, 2, 4, 6, 8, 10, 12]"

definition ChannelLevelToLZ4FLevel :: "CodecCompLevel \<Rightarrow> int option" where
  "ChannelLevelToLZ4FLevel lvl =
    (let i = level_value lvl in if i < length kChannelLvlToLz4fLvl then Some (kChannelLvlToLz4fLvl ! i) else None)"

record LZ4F_preferences =
  blockSizeID :: u8
  blockMode :: u8
  contentChecksumFlag :: u8
  frameType :: u8
  contentSize :: u8
  dictID :: u8
  blockChecksumFlag :: u8
  compressionLevel :: int

definition InitSoftwarePreferences :: "lz4f_enums \<Rightarrow> CodecChannelOption \<Rightarrow> LZ4F_preferences option" where
  "InitSoftwarePreferences e channel_opt =
    map_option (\<lambda>lvl.
      \<lparr> blockSizeID = LZ4F_max64KB e, blockMode = LZ4F_blockIndependent e, contentChecksumFlag = LZ4F_noContentChecksum e,
        frameType = LZ4F_skippableFrame e, contentSize = kLz4FrameHeaderContentSizeFlag, dictID = kLz4FrameHeaderDictPresent,
        blockChecksumFlag = LZ4F_noBlockChecksum e, compressionLevel = lvl \<rparr>)
      (ChannelLevelToLZ4FLevel (comp_level channel_opt))"

section \<open>The frames are what the formats prescribe\<close>

definition lz4_header :: "u8 list" where
  "lz4_header = [0x04, 0x22, 0x4D, 0x18, 0x60, 0x40, 0x82]"

lemma lz4_flag_bytes:
  assumes "lz4f_documented e"
  shows "Lz4FrameHeaderGen schar e buf = (7, lz4_header @ drop 7 buf)"
proof -
  have "XxHash schar [0x60, 0x40] = xxh32 [0x60, 0x40]"
    by (rule XxHash_low) simp
  moreover have "(ucast (drop_bit 8 (xxh32 [0x60, 0x40])) :: u8) AND 0xFF = 0x82"
    by code_simp
  moreover have "store_le 4 (0x184D2204 :: u64) = [0x04, 0x22, 0x4D, 0x18]"
    by code_simp
  ultimately show ?thesis
    using assms
    by (simp add: Lz4FrameHeaderGen_def lz4f_documented_def kLz4FrameHeaderVersion_def kLz4FrameHeaderContentSizeFlag_def
        kLz4FrameHeaderDictPresent_def kLz4FrameHeaderMagic_def kLz4FrameHeaderSize_def lz4_header_bytes_def overwrite_def
        lz4_header_def)
qed

lemma lz4_footer_zero:
  assumes "lz4f_documented e"
  shows "Lz4FrameFooterGen e buf = Some (4, [0, 0, 0, 0] @ drop 4 buf)"
proof -
  have "store_le 4 (0 :: u64) = [0, 0, 0, 0]"
    by code_simp
  then show ?thesis
    using assms
    by (simp add: Lz4FrameFooterGen_def lz4f_documented_def lz4_footer_bytes_def kLz4FrameFooterEndMark_def kLz4FrameFooterSize_def
        overwrite_def) (simp add: eval_nat_numeral)
qed

text \<open>C29: With the enumeration values the source documents, the generated LZ4 header is the seven bytes of the
  frame format, with a correct header checksum whether or not \<^verbatim>\<open>char\<close> is signed, and the footer is four zero
  bytes; nothing beyond them is written.  The checksums precomputed from them combine with the checksum of the
  compressed blocks to the checksum of the whole frame, on every processor path.\<close>

theorem lz4_frame:
  assumes "lz4f_documented e" "length blocks < 2 ^ 64"
  shows "FrameHeaderGen schar e kLz4 hbuf n = Some (OkStatus, lz4_header @ drop 7 hbuf, 7)
    \<and> FrameFooterGen e kLz4 fbuf n = Some (OkStatus, [0, 0, 0, 0] @ drop 4 fbuf, 4)
    \<and> (\<exists>sd. Lz4StaticData_new True schar e hbuf fbuf = Some sd
         \<and> CombineThreeCRC32 hw 0xFFFFFFFF (header_crc sd) (crc32c 0xFFFFFFFF blocks) (footer_crc sd) (word_of_nat (length blocks)) 4
           = Some (crc32c 0xFFFFFFFF (lz4_header @ blocks @ [0, 0, 0, 0])))"
proof -
  have crc: "ComputeCRC32 True i d = Some (crc32c i d)" for i d
    by (simp add: ComputeCRC32_def Get_ComputeCRC32_Impl_def ComputeCRC32_Accelerate_eq)
  have len: "length lz4_header = 7"
    by (simp add: lz4_header_def)
  let ?sd = "\<lparr> sd_header = lz4_header @ drop 7 hbuf, sd_footer = [0, 0, 0, 0] @ drop 4 fbuf,
    header_crc = crc32c 0xFFFFFFFF lz4_header, footer_crc = crc32c 0xFFFFFFFF [0, 0, 0, 0] \<rparr>"
  have "Lz4StaticData_new True schar e hbuf fbuf = Some ?sd"
    using lz4_flag_bytes [OF assms(1)] lz4_footer_zero [OF assms(1)] len
    by (simp add: Lz4StaticData_new_def crc kLz4FrameHeaderSize_def kLz4FrameFooterSize_def)
  moreover have "CombineThreeCRC32 hw 0xFFFFFFFF (header_crc ?sd) (crc32c 0xFFFFFFFF blocks) (footer_crc ?sd) (word_of_nat (length blocks)) 4
      = Some (crc32c 0xFFFFFFFF (lz4_header @ blocks @ [0, 0, 0, 0]))"
    using CombineThreeCRC32_crc32c [OF assms(2), of "[0, 0, 0, 0]" hw "0xFFFFFFFF" lz4_header] by simp
  ultimately show ?thesis
    using lz4_flag_bytes [OF assms(1)] lz4_footer_zero [OF assms(1)]
    by (simp add: FrameHeaderGen_def FrameFooterGen_def kLz4FrameHeaderSize_def kLz4FrameFooterSize_def)
qed

definition lz4_enums :: lz4f_enums where
  "lz4_enums = \<lparr> LZ4F_max64KB = 4, LZ4F_blockIndependent = 1, LZ4F_noBlockChecksum = 0, LZ4F_noContentChecksum = 0,
    LZ4F_skippableFrame = 1 \<rparr>"

theorem lz4_frame_witness:
  "FrameHeaderGen True lz4_enums kLz4 (replicate 9 0) 0 =
     Some (OkStatus, [0x04, 0x22, 0x4D, 0x18, 0x60, 0x40, 0x82, 0, 0], 7)"
  using lz4_frame [of lz4_enums "[]" True "replicate 9 0" 0 "[]" True]
  by (simp add: lz4_enums_def lz4f_documented_def lz4_header_def numeral_2_eq_2)

text \<open>The zlib header is valid for every level: it announces the deflate method with a window of at most 32K
  and no dictionary, and its check bits make it a multiple of 31; the footer is the checksum in network byte order.\<close>

theorem zlib_frame:
  "\<exists>c f. ZlibHeaderGen level buf = (2, [c, f] @ drop 2 buf) \<and> c AND 0x0F = 8 \<and> drop_bit 4 c \<le> 7
    \<and> f AND 0x20 = 0 \<and> (unat c * 256 + unat f) mod 31 = 0
    \<and> ZlibFooterGen adler buf = (4, rev (store_le 4 (ucast adler)) @ drop 4 buf)"
proof -
  have "store_le 4 (ucast (htonl adler)) = rev (store_le 4 (ucast adler))"
  proof -
    have small: "ucast (ucast (load_le bs) :: u32) = load_le bs" if "length bs = 4" for bs
    proof -
      have "take_bit 32 (load_le bs) = load_le bs"
        using that load_store_le [of 4 "load_le bs"] store_load_le [of bs] by simp
      moreover have "ucast (ucast x :: u32) = take_bit 32 x" for x :: u64
        by (rule bit_word_eqI) (auto simp: bit_simps)
      ultimately show ?thesis
        by simp
    qed
    show ?thesis
      using small [of "rev (store_le 4 (ucast adler))"] store_load_le [of "rev (store_le 4 (ucast adler))"]
      by (simp add: htonl_def)
  qed
  then show ?thesis
    by (cases level) (simp_all add: ZlibHeaderGen_def ZlibFooterGen_def overwrite_def kZlibHeaderSize_def kZlibFooterSize_def
        kZlibHeaderCmf_def kZlibHeaderFlagLow_def kZlibHeaderFlagFast_def kZlibHeaderFlagDefault_def kZlibHeaderFlagBest_def,
        simp_all add: eval_nat_numeral)
qed

end
