(* ===== verification/Dsa_Dispatcher.thy ===== *)
theory Dsa_Dispatcher
  imports Vesal_Status Qat_Unit
begin

text \<open>The dispatch of data flow requests to DSA work queues, \<^verbatim>\<open>src/src/data_flow/dsa/\<close>: the queues and their quotas
  (\<^verbatim>\<open>work_queue_info.h\<close>, \<^verbatim>\<open>dsa_dispatcher.{h,cc}\<close>) and the strategies that choose a queue
  (\<^verbatim>\<open>schedule_strategy.{h,cc}\<close>).  A queue is named by its position in \<open>wq_list\<close>; the queues the system has are
  an argument of the initialization, in the order in which \<^verbatim>\<open>GetNextWorkQueue\<close> finds them.  The counters of the
  strategies belong to the calling thread.  \<open>None\<close> as a result is a failed check, an access outside an array, a
  division by zero or an exception.\<close>

definition kMaxNumaNum :: nat where "kMaxNumaNum = 32"
definition kWorkQueueCapacity :: u64 where "kWorkQueueCapacity = 128"

record UioWqInfo =
  bdf :: string
  numa_node :: int
  portal :: nat

record WorkQueueInfo =
  uio_info :: UioWqInfo
  dsa_index :: nat
  capacity :: u64
  wq_size :: u64

section \<open>Strategies\<close>

datatype ScheduleStrategy =
    DeviceAwareStrategy "nat option list"
  | RoundRobinStrategy "nat list"
  | NumaAwareStrategy "nat list list"

record tls_counters =
  tls_counter :: u64
  tls_counter_by_numa :: "u64 list"

definition tls_counters_init :: tls_counters where
  "tls_counters_init = \<lparr> tls_counter = 0, tls_counter_by_numa = replicate kMaxNumaNum 0 \<rparr>"

definition usable_queues :: "WorkQueueInfo list \<Rightarrow> nat list" where
  "usable_queues wqs = filter (\<lambda>i. capacity (wqs ! i) > 0) [0..<length wqs]"

text \<open>The loops of the \<^verbatim>\<open>Init\<close> functions run over the queues with a positive capacity.\<close>

fun place_devices :: "WorkQueueInfo list \<Rightarrow> nat list \<Rightarrow> nat option list \<Rightarrow> nat option list option" where
  "place_devices wqs [] slots = Some slots"
| "place_devices wqs (i # is) slots =
    (let d = dsa_index (wqs ! i)
     in if slots ! d = None then place_devices wqs is (slots[d := Some i]) else None)"

definition DeviceAware_Init :: "WorkQueueInfo list \<Rightarrow> ScheduleStrategy option" where
  "DeviceAware_Init wqs =
    (if wqs = [] then None
     else
       let dsa_index_max = foldl (\<lambda>m i. if dsa_index (wqs ! i) > m then dsa_index (wqs ! i) else m) 0 (usable_queues wqs)
       in map_option DeviceAwareStrategy (place_devices wqs (usable_queues wqs) (replicate (dsa_index_max + 1) None)))"

definition RoundRobin_Init :: "WorkQueueInfo list \<Rightarrow> ScheduleStrategy option" where
  "RoundRobin_Init wqs = (if wqs = [] then None else Some (RoundRobinStrategy (usable_queues wqs)))"

fun place_numas :: "WorkQueueInfo list \<Rightarrow> nat list \<Rightarrow> nat list list \<Rightarrow> nat list list option" where
  "place_numas wqs [] by_numa = Some by_numa"
| "place_numas wqs (i # is) by_numa =
    (let n = numa_node (uio_info (wqs ! i))
     in if n < int kMaxNumaNum \<and> n \<ge> 0 then place_numas wqs is (by_numa[nat n := by_numa ! nat n @ [i]]) else None)"

definition NumaAware_Init :: "WorkQueueInfo list \<Rightarrow> ScheduleStrategy option" where
  "NumaAware_Init wqs =
    (if wqs = [] then None else map_option NumaAwareStrategy (place_numas wqs (usable_queues wqs) (replicate kMaxNumaNum [])))"

definition DeviceAware_GetNext :: "nat option list \<Rightarrow> nat \<Rightarrow> nat option" where
  "DeviceAware_GetNext dsa_wqs schedule_hint = (if schedule_hint \<ge> length dsa_wqs then None else dsa_wqs ! schedule_hint)"

definition RoundRobin_GetNext :: "nat list \<Rightarrow> tls_counters \<Rightarrow> (nat option \<times> tls_counters) option" where
  "RoundRobin_GetNext wqs tls =
    (if wqs = [] then None
     else Some (Some (wqs ! (unat (tls_counter tls) mod length wqs)), tls\<lparr> tls_counter := tls_counter tls + 1 \<rparr>))"

definition NumaAware_GetNext :: "nat list list \<Rightarrow> nat \<Rightarrow> tls_counters \<Rightarrow> nat option \<times> tls_counters" where
  "NumaAware_GetNext by_numa numa tls =
    (if numa \<ge> kMaxNumaNum then (None, tls)
     else if by_numa ! numa = [] then (None, tls)
     else
       let c = tls_counter_by_numa tls ! numa in
       (Some (by_numa ! numa ! (unat c mod length (by_numa ! numa))),
        tls\<lparr> tls_counter_by_numa := (tls_counter_by_numa tls)[numa := c + 1] \<rparr>))"

definition GetNext :: "nat \<Rightarrow> ScheduleStrategy \<Rightarrow> tls_counters \<Rightarrow> (nat option \<times> tls_counters) option" where
  "GetNext schedule_hint s tls =
    (case s of
       DeviceAwareStrategy dsa_wqs \<Rightarrow> Some (DeviceAware_GetNext dsa_wqs schedule_hint, tls)
     | RoundRobinStrategy wqs \<Rightarrow> RoundRobin_GetNext wqs tls
     | NumaAwareStrategy by_numa \<Rightarrow> Some (NumaAware_GetNext by_numa schedule_hint tls))"

lemmas GetNext_defs = GetNext_def DeviceAware_GetNext_def RoundRobin_GetNext_def NumaAware_GetNext_def

section \<open>Quotas\<close>

fun split_comma :: "string \<Rightarrow> string list" where
  "split_comma [] = [[]]"
| "split_comma (c # cs) =
    (if c = CHR '','' then [] # split_comma cs
     else case split_comma cs of [] \<Rightarrow> [[c]] | t # ts \<Rightarrow> (c # t) # ts)"

text \<open>\<^verbatim>\<open>std::stoull\<close>: white space, a sign, digits; \<open>None\<close> is an exception.\<close>

definition is_space :: "char \<Rightarrow> bool" where
  "is_space c \<longleftrightarrow> c \<in> set [CHR '' '', CHR 0x09, CHR 0x0A, CHR 0x0B, CHR 0x0C, CHR 0x0D]"

fun digits_value :: "string \<Rightarrow> nat \<Rightarrow> nat" where
  "digits_value [] n = n"
| "digits_value (c # cs) n = digits_value cs (n * 10 + nat (digit_value c))"

definition stoull :: "string \<Rightarrow> u64 option" where
  "stoull s =
    (let s = dropWhile is_space s;
         neg = (s \<noteq> [] \<and> hd s = CHR ''-'');
         s = (if s \<noteq> [] \<and> (hd s = CHR ''-'' \<or> hd s = CHR ''+'') then tl s else s);
         ds = takeWhile is_digit s;
         v = digits_value ds 0
     in if ds = [] \<or> v \<ge> 2 ^ 64 then None else Some (if neg then - of_nat v else of_nat v))"

fun stoull_all :: "string list \<Rightarrow> u64 list option" where
  "stoull_all [] = Some []"
| "stoull_all (t # ts) =
    (case stoull t of None \<Rightarrow> None | Some v \<Rightarrow> map_option ((#) v) (stoull_all ts))"

definition Parse :: "string \<Rightarrow> u64 list option" where
  "Parse s = stoull_all (filter (\<lambda>t. t \<noteq> []) (split_comma s))"

fun number_list_loop :: "string \<Rightarrow> bool \<Rightarrow> bool" where
  "number_list_loop [] last_was_comma \<longleftrightarrow> True"
| "number_list_loop (c # cs) last_was_comma \<longleftrightarrow>
    (if is_digit c then number_list_loop cs False
     else if c = CHR '','' then \<not> last_was_comma \<and> number_list_loop cs True
     else False)"

definition IsValidNumberList :: "string \<Rightarrow> bool" where
  "IsValidNumberList s \<longleftrightarrow> s \<noteq> [] \<and> is_digit (hd s) \<and> is_digit (last s) \<and> number_list_loop s False"

section \<open>The dispatcher\<close>

datatype DataFlowScheduleHintType = kNumaAware | kDeviceAware | kRoundRobin | kHintNum

record DsaDispatcher =
  wq_list :: "WorkQueueInfo list"
  strategy :: "ScheduleStrategy option"
  dsa_init :: bool

definition DsaDispatcher_new :: DsaDispatcher where
  "DsaDispatcher_new = \<lparr> wq_list = [], strategy = None, dsa_init = False \<rparr>"

text \<open>\<^verbatim>\<open>CleanUp\<close> gives the queues back; they are the first component.\<close>

definition CleanUp :: "DsaDispatcher \<Rightarrow> UioWqInfo list \<times> DsaDispatcher" where
  "CleanUp d = (map uio_info (wq_list d), d\<lparr> wq_list := [], strategy := None, dsa_init := False \<rparr>)"

definition found_queues :: "UioWqInfo list \<Rightarrow> (nat \<Rightarrow> u64) \<Rightarrow> WorkQueueInfo list" where
  "found_queues found mem =
    map (\<lambda>i. \<lparr> uio_info = found ! i, dsa_index = i, capacity = mem i, wq_size = 0 \<rparr>) [0..<length found]"

definition set_quota :: "u64 list \<Rightarrow> WorkQueueInfo list \<Rightarrow> WorkQueueInfo list" where
  "set_quota quota wqs = map (\<lambda>i. (wqs ! i)\<lparr> capacity := quota ! i \<rparr>) [0..<length wqs]"

text \<open>\<open>mem i\<close> is what the memory of the \<open>i\<close>th queue's capacity holds before it is set.\<close>

definition DsaDispatcher_Init ::
  "UioWqInfo list \<Rightarrow> (nat \<Rightarrow> u64) \<Rightarrow> string \<Rightarrow> DataFlowScheduleHintType \<Rightarrow> DsaDispatcher \<Rightarrow> (StatusCode \<times> DsaDispatcher) option" where
  "DsaDispatcher_Init found mem flag hint_type d =
    (if dsa_init d then Some (kOk, d)
     else if \<exists>u \<in> set found. portal u = 0 then None
     else
       let d = d\<lparr> dsa_init := True, wq_list := found_queues found mem \<rparr>;
           finish = (\<lambda>quota.
             let d = d\<lparr> wq_list := set_quota quota (wq_list d) \<rparr>;
                 s = (case hint_type of
                        kNumaAware \<Rightarrow> NumaAware_Init (wq_list d)
                      | kDeviceAware \<Rightarrow> DeviceAware_Init (wq_list d)
                      | _ \<Rightarrow> RoundRobin_Init (wq_list d))
             in map_option (\<lambda>s. (kOk, d\<lparr> strategy := Some s \<rparr>)) s)
       in if wq_list d = [] then Some (kHardwareError, snd (CleanUp d))
          else if flag = [] then finish (kWorkQueueCapacity # replicate (length (wq_list d) - 1) 0)
          else if \<not> IsValidNumberList flag then Some (kInvalidArgument, snd (CleanUp d))
          else
            case Parse flag of
              None \<Rightarrow> None
            | Some quota \<Rightarrow>
                if length quota \<noteq> length (wq_list d) then Some (kInvalidArgument, snd (CleanUp d)) else finish quota)"

text \<open>The atomic operations on a queue, and \<^verbatim>\<open>Submit\<close> as their composition.  On success the chosen queue is stored
  with the request, whose descriptor goes to the portal of the queue.\<close>

definition fetch_add_size :: "WorkQueueInfo \<Rightarrow> u64 \<times> WorkQueueInfo" where
  "fetch_add_size wq = (wq_size wq, wq\<lparr> wq_size := wq_size wq + 1 \<rparr>)"

definition fetch_sub_size :: "WorkQueueInfo \<Rightarrow> u64 \<times> WorkQueueInfo" where
  "fetch_sub_size wq = (wq_size wq, wq\<lparr> wq_size := wq_size wq - 1 \<rparr>)"

definition admitted :: "u64 \<Rightarrow> WorkQueueInfo \<Rightarrow> bool" where
  "admitted result wq \<longleftrightarrow> result < capacity wq"

definition DsaDispatcher_Submit ::
  "nat \<Rightarrow> tls_counters \<Rightarrow> DsaDispatcher \<Rightarrow> (StatusCode \<times> nat option \<times> tls_counters \<times> DsaDispatcher) option" where
  "DsaDispatcher_Submit schedule_hint tls d =
    (case strategy d of
       None \<Rightarrow> None
     | Some s \<Rightarrow>
         (case GetNext schedule_hint s tls of
            None \<Rightarrow> None
          | Some (None, tls') \<Rightarrow> Some (kInvalidArgument, None, tls', d)
          | Some (Some i, tls') \<Rightarrow>
              if i \<ge> length (wq_list d) then None
              else
                let (result, wq) = fetch_add_size (wq_list d ! i)
                in if admitted result wq then Some (kOk, Some i, tls', d\<lparr> wq_list := (wq_list d)[i := wq] \<rparr>)
                   else Some (kResourceBusy, None, tls', d\<lparr> wq_list := (wq_list d)[i := snd (fetch_sub_size wq)] \<rparr>)))"

definition NotifyCompletion :: "nat \<Rightarrow> DsaDispatcher \<Rightarrow> DsaDispatcher option" where
  "NotifyCompletion i d =
    (if i < length (wq_list d) then Some (d\<lparr> wq_list := (wq_list d)[i := snd (fetch_sub_size (wq_list d ! i))] \<rparr>) else None)"
section \<open>Concurrent submissions\<close>

text \<open>Threads submit to one queue and complete requests at the same time: each atomic operation of \<^verbatim>\<open>Submit\<close> and
  \<^verbatim>\<open>NotifyCompletion\<close> is a step of its own.  \<open>pending\<close> holds the value a thread got from its \<^verbatim>\<open>fetch_add\<close> until
  it acts on it; \<open>in_flight\<close> counts the requests handed to the hardware and not completed.\<close>

record queue_state =
  queue :: WorkQueueInfo
  pending :: "nat \<rightharpoonup> u64"
  in_flight :: nat

inductive queue_reach :: "nat set \<Rightarrow> u64 \<Rightarrow> queue_state \<Rightarrow> bool" for T cap where
  start: "capacity wq = cap \<Longrightarrow> wq_size wq = 0 \<Longrightarrow> queue_reach T cap \<lparr> queue = wq, pending = Map.empty, in_flight = 0 \<rparr>"
| add: "queue_reach T cap s \<Longrightarrow> t \<in> T \<Longrightarrow> pending s t = None \<Longrightarrow> fetch_add_size (queue s) = (r, wq) \<Longrightarrow>
    queue_reach T cap (s\<lparr> queue := wq, pending := (pending s)(t \<mapsto> r) \<rparr>)"
| admit: "queue_reach T cap s \<Longrightarrow> pending s t = Some r \<Longrightarrow> admitted r (queue s) \<Longrightarrow>
    queue_reach T cap (s\<lparr> pending := (pending s)(t := None), in_flight := in_flight s + 1 \<rparr>)"
| reject: "queue_reach T cap s \<Longrightarrow> pending s t = Some r \<Longrightarrow> \<not> admitted r (queue s) \<Longrightarrow>
    queue_reach T cap (s\<lparr> queue := snd (fetch_sub_size (queue s)), pending := (pending s)(t := None) \<rparr>)"
| complete: "queue_reach T cap s \<Longrightarrow> in_flight s > 0 \<Longrightarrow>
    queue_reach T cap (s\<lparr> queue := snd (fetch_sub_size (queue s)), in_flight := in_flight s - 1 \<rparr>)"

definition winners :: "u64 \<Rightarrow> (nat \<rightharpoonup> u64) \<Rightarrow> nat set" where
  "winners cap p = {t. \<exists>r. p t = Some r \<and> r < cap}"

definition queue_inv :: "nat set \<Rightarrow> u64 \<Rightarrow> queue_state \<Rightarrow> bool" where
  "queue_inv T cap s \<longleftrightarrow>
    dom (pending s) \<subseteq> T \<and> capacity (queue s) = cap \<and> unat (wq_size (queue s)) = in_flight s + card (dom (pending s))
    \<and> in_flight s + card (winners cap (pending s)) \<le> unat cap"

lemma winners_drop: "p t = Some r \<Longrightarrow> winners cap (p(t := None)) = winners cap p - {t}"
  by (auto simp: winners_def)

lemma winners_add: "winners cap (p(t \<mapsto> r)) = (if r < cap then insert t (winners cap p) else winners cap p - {t})"
  by (auto simp: winners_def)

lemma winners_dom: "winners cap p \<subseteq> dom p"
  by (auto simp: winners_def)

lemma unat_pred: "0 < unat (x :: u64) \<Longrightarrow> unat (x - 1) = unat x - 1"
  by (metis unat_eq_zero unat_minus_one less_numeral_extra(3))

lemma queue_inv_step:
  assumes T: "finite T" "card T + unat cap < 2 ^ 64" and inv: "queue_inv T cap s"
  shows "t \<in> T \<Longrightarrow> pending s t = None \<Longrightarrow> fetch_add_size (queue s) = (r, wq) \<Longrightarrow>
      queue_inv T cap (s\<lparr> queue := wq, pending := (pending s)(t \<mapsto> r) \<rparr>)"
    and "pending s t = Some r \<Longrightarrow> admitted r (queue s) \<Longrightarrow>
      queue_inv T cap (s\<lparr> pending := (pending s)(t := None), in_flight := in_flight s + 1 \<rparr>)"
    and "pending s t = Some r \<Longrightarrow> \<not> admitted r (queue s) \<Longrightarrow>
      queue_inv T cap (s\<lparr> queue := snd (fetch_sub_size (queue s)), pending := (pending s)(t := None) \<rparr>)"
    and "in_flight s > 0 \<Longrightarrow> queue_inv T cap (s\<lparr> queue := snd (fetch_sub_size (queue s)), in_flight := in_flight s - 1 \<rparr>)"
proof -
  let ?p = "pending s" and ?n = "in_flight s" and ?w = "winners cap (pending s)"
  have dom: "dom ?p \<subseteq> T" and cap: "capacity (queue s) = cap" and sz: "unat (wq_size (queue s)) = ?n + card (dom ?p)"
    and win: "?n + card ?w \<le> unat cap"
    using inv by (auto simp: queue_inv_def)
  have fin: "finite (dom ?p)" "finite ?w"
    using dom T(1) winners_dom [of cap ?p] by (meson finite_subset)+
  have "card (dom ?p) \<le> card T" "card ?w \<le> card (dom ?p)"
    by (rule card_mono [OF T(1) dom], rule card_mono [OF fin(1) winners_dom])
  then have "Suc (unat (wq_size (queue s))) < 2 ^ 64" if "card (dom ?p) < card T"
    using that sz win T(2) by linarith
  then have inc: "unat (wq_size (queue s) + 1) = Suc (unat (wq_size (queue s)))" if "card (dom ?p) < card T"
    using that by (simp add: unat_word_ariths)
  show "queue_inv T cap (s\<lparr> queue := wq, pending := ?p(t \<mapsto> r) \<rparr>)"
    if t: "t \<in> T" "?p t = None" and fa: "fetch_add_size (queue s) = (r, wq)"
  proof -
    have notin: "t \<notin> dom ?p" "t \<notin> ?w"
      using t(2) by (auto simp: winners_def)
    have "card (insert t (dom ?p)) \<le> card T"
      using t(1) dom T(1) by (intro card_mono) auto
    then have less: "card (dom ?p) < card T"
      using notin(1) fin(1) by simp
    have wq: "wq_size wq = wq_size (queue s) + 1" "capacity wq = cap" "r = wq_size (queue s)"
      using fa cap by (auto simp: fetch_add_size_def)
    have bound: "?n + card (winners cap (?p(t \<mapsto> r))) \<le> unat cap"
    proof (cases "r < cap")
      case True
      then have "?n + card (dom ?p) < unat cap"
        using sz wq(3) by (simp add: word_less_nat_alt)
      then show ?thesis
        using True notin(2) fin(2) \<open>card ?w \<le> card (dom ?p)\<close> by (simp add: winners_add)
    next
      case False
      then show ?thesis
        using win notin(2) by (simp add: winners_add)
    qed
    show ?thesis
      using bound wq dom t(1) sz inc [OF less] notin(1) fin(1) by (simp add: queue_inv_def)
  qed
  show "queue_inv T cap (s\<lparr> pending := ?p(t := None), in_flight := ?n + 1 \<rparr>)" if t: "?p t = Some r" and ok: "admitted r (queue s)"
  proof -
    have "t \<in> ?w" "t \<in> dom ?p"
      using t ok cap by (auto simp: winners_def admitted_def)
    then have "Suc (card (?w - {t})) = card ?w" "Suc (card (dom ?p - {t})) = card (dom ?p)"
      using fin by (simp_all only: card_Suc_Diff1)
    then show ?thesis
      using dom cap sz win t by (auto simp: queue_inv_def winners_drop)
  qed
  show "queue_inv T cap (s\<lparr> queue := snd (fetch_sub_size (queue s)), pending := ?p(t := None) \<rparr>)"
    if t: "?p t = Some r" and ok: "\<not> admitted r (queue s)"
  proof -
    have "t \<notin> ?w" "t \<in> dom ?p"
      using t ok cap by (auto simp: winners_def admitted_def)
    moreover then have "Suc (card (dom ?p - {t})) = card (dom ?p)"
      using fin by (simp only: card_Suc_Diff1)
    ultimately show ?thesis
      using dom cap sz win t by (auto simp: queue_inv_def winners_drop fetch_sub_size_def unat_pred)
  qed
  show "queue_inv T cap (s\<lparr> queue := snd (fetch_sub_size (queue s)), in_flight := ?n - 1 \<rparr>)" if "?n > 0"
    using that dom cap sz win by (auto simp: queue_inv_def fetch_sub_size_def unat_pred)
qed

lemma queue_reach_inv:
  assumes "finite T" "card T + unat cap < 2 ^ 64" "queue_reach T cap s"
  shows "queue_inv T cap s"
  using assms(3)
proof (induction rule: queue_reach.induct)
  case (start wq)
  then show ?case
    by (simp add: queue_inv_def winners_def)
qed (use queue_inv_step [OF assms(1,2)] in blast)+

text \<open>C17: However submissions and completions of any number of threads interleave on a work queue, the requests in
  the hardware never exceed its quota, and the counter is the number of these requests plus the submissions under way.\<close>

theorem dsa_in_flight_bounded:
  assumes "finite T" "card T + unat cap < 2 ^ 64" "queue_reach T cap s"
  shows "in_flight s \<le> unat cap \<and> unat (wq_size (queue s)) = in_flight s + card (dom (pending s))"
  using queue_reach_inv [OF assms] by (auto simp: queue_inv_def)

theorem dsa_in_flight_bounded_witness:
  "\<exists>s. queue_reach {0, 1} 1 s \<and> in_flight s = 1 \<and> dom (pending s) = {1} \<and> wq_size (queue s) = 2"
proof -
  let ?u = "\<lparr> bdf = '''', numa_node = 0, portal = 1 \<rparr>"
  let ?wq = "\<lambda>n. \<lparr> uio_info = ?u, dsa_index = 0, capacity = 1, wq_size = n \<rparr>"
  have add: "fetch_add_size (?wq n) = (n, ?wq (n + 1))" for n
    by (simp add: fetch_add_size_def)
  have "queue_reach {0, 1} 1 \<lparr> queue = ?wq 0, pending = Map.empty, in_flight = 0 \<rparr>"
    by (rule queue_reach.start) simp_all
  from queue_reach.add [OF this, of 0, unfolded queue_state.simps, OF _ _ add]
  have "queue_reach {0, 1} 1 \<lparr> queue = ?wq 1, pending = [0 \<mapsto> 0], in_flight = 0 \<rparr>"
    by simp
  from queue_reach.admit [OF this, of 0 0]
  have "queue_reach {0, 1} 1 \<lparr> queue = ?wq 1, pending = Map.empty, in_flight = 1 \<rparr>"
    by (simp add: admitted_def)
  from queue_reach.add [OF this, of 1, unfolded queue_state.simps, OF _ _ add]
  have r: "queue_reach {0, 1} 1 \<lparr> queue = ?wq 2, pending = [1 \<mapsto> 1], in_flight = 1 \<rparr>"
    by simp
  have "finite {0 :: nat, 1}" "card {0 :: nat, 1} + unat (1 :: u64) < 2 ^ 64"
    by simp_all
  from dsa_in_flight_bounded [OF this r] r show ?thesis
    by (intro exI [of _ "\<lparr> queue = ?wq 2, pending = [1 \<mapsto> 1], in_flight = 1 \<rparr>"]) simp
qed

section \<open>The strategies choose what they promise\<close>

lemma place_devices_sound:
  assumes "place_devices wqs is slots = Some slots'" "\<forall>i \<in> set is. dsa_index (wqs ! i) < length slots"
    and "\<forall>d < length slots. \<forall>i. slots ! d = Some i \<longrightarrow> i \<in> S \<and> dsa_index (wqs ! i) = d" "set is \<subseteq> S"
  shows "length slots' = length slots \<and> (\<forall>d < length slots. \<forall>i. slots' ! d = Some i \<longrightarrow> i \<in> S \<and> dsa_index (wqs ! i) = d)"
  using assms
proof (induction "is" arbitrary: slots)
  case (Cons i "is")
  let ?d = "dsa_index (wqs ! i)"
  let ?slots = "slots[?d := Some i]"
  have step: "place_devices wqs is ?slots = Some slots'"
    using Cons.prems(1) by (auto simp: Let_def split: if_splits)
  have new: "\<forall>d < length ?slots. \<forall>j. ?slots ! d = Some j \<longrightarrow> j \<in> S \<and> dsa_index (wqs ! j) = d"
  proof (intro allI impI)
    fix d j
    assume d: "d < length ?slots" "?slots ! d = Some j"
    show "j \<in> S \<and> dsa_index (wqs ! j) = d"
    proof (cases "d = ?d")
      case True
      then have "j = i"
        using d by simp
      then show ?thesis
        using True Cons.prems(4) by simp
    next
      case False
      then have "slots ! d = Some j" "d < length slots"
        using d by simp_all
      then show ?thesis
        using Cons.prems(3) by blast
    qed
  qed
  have "\<forall>i \<in> set is. dsa_index (wqs ! i) < length ?slots" "set is \<subseteq> S"
    using Cons.prems(2,4) by simp_all
  then have "length slots' = length ?slots \<and> (\<forall>d < length ?slots. \<forall>i. slots' ! d = Some i \<longrightarrow> i \<in> S \<and> dsa_index (wqs ! i) = d)"
    by (rule Cons.IH [OF step _ new])
  then show ?case
    by simp
qed simp

lemma place_numas_sound:
  assumes "place_numas wqs is by_numa = Some by_numa'" "length by_numa = kMaxNumaNum"
    and "\<forall>n < kMaxNumaNum. \<forall>i \<in> set (by_numa ! n). i \<in> S \<and> numa_node (uio_info (wqs ! i)) = int n" "set is \<subseteq> S"
  shows "\<forall>n < kMaxNumaNum. \<forall>i \<in> set (by_numa' ! n). i \<in> S \<and> numa_node (uio_info (wqs ! i)) = int n"
  using assms
proof (induction "is" arbitrary: by_numa)
  case (Cons i "is")
  let ?n = "numa_node (uio_info (wqs ! i))"
  let ?b = "by_numa[nat ?n := by_numa ! nat ?n @ [i]]"
  have n: "?n < int kMaxNumaNum" "?n \<ge> 0" "place_numas wqs is ?b = Some by_numa'"
    using Cons.prems(1) by (auto simp: Let_def split: if_splits)
  have new: "\<forall>m < kMaxNumaNum. \<forall>j \<in> set (?b ! m). j \<in> S \<and> numa_node (uio_info (wqs ! j)) = int m"
  proof (intro allI impI ballI)
    fix m j
    assume m: "m < kMaxNumaNum" "j \<in> set (?b ! m)"
    show "j \<in> S \<and> numa_node (uio_info (wqs ! j)) = int m"
    proof (cases "m = nat ?n \<and> j \<notin> set (by_numa ! m)")
      case True
      then have "j = i"
        using m Cons.prems(2) by auto
      then show ?thesis
        using True n(2) Cons.prems(4) by simp
    next
      case False
      then have "j \<in> set (by_numa ! m)"
        using m by (cases "m = nat ?n") simp_all
      then show ?thesis
        using m(1) Cons.prems(3) by blast
    qed
  qed
  have "length ?b = kMaxNumaNum" "set is \<subseteq> S"
    using Cons.prems(2,4) by simp_all
  then show ?case
    by (rule Cons.IH [OF n(3) _ new])
qed simp

lemma foldl_max: "foldl (\<lambda>m i. if f i > m then f i else m) m is = foldl (\<lambda>m i. max m (f i)) m is"
  for f :: "'b \<Rightarrow> nat"
  by (rule foldl_cong) (simp_all add: max_def)

lemma foldl_max_bound: "m \<le> foldl (\<lambda>m i. max m (f i)) m is" "i \<in> set is \<Longrightarrow> f i \<le> foldl (\<lambda>m i. max m (f i)) m is"
  for f :: "'b \<Rightarrow> nat"
proof (induction "is" arbitrary: m)
  case (Cons j "is")
  {
    case 1
    show ?case
      using Cons.IH(1) [of "max m (f j)"] by simp
  next
    case 2
    then show ?case
      using Cons.IH(1) [of "max m (f j)"] Cons.IH(2) [of "max m (f j)"] by auto
  }
qed simp_all

lemma usable_queues_iff: "i \<in> set (usable_queues wqs) \<longleftrightarrow> i < length wqs \<and> capacity (wqs ! i) > 0"
  by (auto simp: usable_queues_def)

text \<open>What a queue a strategy chooses has in common with the hint.\<close>

definition fits_hint :: "DataFlowScheduleHintType \<Rightarrow> nat \<Rightarrow> WorkQueueInfo \<Rightarrow> bool" where
  "fits_hint t hint wq \<longleftrightarrow>
    (case t of kNumaAware \<Rightarrow> numa_node (uio_info wq) = int hint | kDeviceAware \<Rightarrow> dsa_index wq = hint | _ \<Rightarrow> True)"

definition strategy_for :: "DataFlowScheduleHintType \<Rightarrow> WorkQueueInfo list \<Rightarrow> ScheduleStrategy option" where
  "strategy_for t wqs =
    (case t of kNumaAware \<Rightarrow> NumaAware_Init wqs | kDeviceAware \<Rightarrow> DeviceAware_Init wqs | _ \<Rightarrow> RoundRobin_Init wqs)"

lemma device_choice:
  assumes "DeviceAware_Init wqs = Some s" "GetNext hint s tls = Some (Some i, tls')"
  shows "i < length wqs \<and> capacity (wqs ! i) > 0 \<and> dsa_index (wqs ! i) = hint"
proof -
  let ?U = "usable_queues wqs"
  let ?m = "foldl (\<lambda>m i. if dsa_index (wqs ! i) > m then dsa_index (wqs ! i) else m) 0 ?U"
  obtain slots where slots: "place_devices wqs ?U (replicate (?m + 1) None) = Some slots" "s = DeviceAwareStrategy slots"
    using assms(1) by (auto simp: DeviceAware_Init_def split: if_splits)
  have "\<forall>i \<in> set ?U. dsa_index (wqs ! i) < length (replicate (?m + 1) None)"
    unfolding foldl_max using foldl_max_bound(2) [of _ ?U "\<lambda>i. dsa_index (wqs ! i)" 0] by (simp add: less_Suc_eq_le)
  moreover have "\<forall>d < length (replicate (?m + 1) (None :: nat option)). \<forall>i. replicate (?m + 1) None ! d = Some i \<longrightarrow>
      i \<in> set ?U \<and> dsa_index (wqs ! i) = d"
    by (auto simp only: length_replicate nth_replicate option.distinct)
  ultimately have sound: "length slots = ?m + 1 \<and> (\<forall>d < ?m + 1. \<forall>i. slots ! d = Some i \<longrightarrow> i \<in> set ?U \<and> dsa_index (wqs ! i) = d)"
    using place_devices_sound [OF slots(1) _ _ subset_refl] unfolding length_replicate by blast
  have "slots ! hint = Some i" "hint < length slots"
    using assms(2) slots(2) by (auto simp: GetNext_defs split: if_splits)
  then have "i \<in> set ?U \<and> dsa_index (wqs ! i) = hint"
    using sound by auto
  then show ?thesis
    by (simp add: usable_queues_iff)
qed

lemma numa_choice:
  assumes "NumaAware_Init wqs = Some s" "GetNext hint s tls = Some (Some i, tls')"
  shows "i < length wqs \<and> capacity (wqs ! i) > 0 \<and> numa_node (uio_info (wqs ! i)) = int hint"
proof -
  obtain b where b: "place_numas wqs (usable_queues wqs) (replicate kMaxNumaNum []) = Some b" "s = NumaAwareStrategy b"
    using assms(1) by (auto simp: NumaAware_Init_def split: if_splits)
  have "\<forall>n < kMaxNumaNum. \<forall>i \<in> set (replicate kMaxNumaNum [] ! n). i \<in> set (usable_queues wqs) \<and> numa_node (uio_info (wqs ! i)) = int n"
    by simp
  then have sound: "\<forall>n < kMaxNumaNum. \<forall>i \<in> set (b ! n). i \<in> set (usable_queues wqs) \<and> numa_node (uio_info (wqs ! i)) = int n"
    by (rule place_numas_sound [OF b(1) length_replicate _ subset_refl])
  have "hint < kMaxNumaNum" "i \<in> set (b ! hint)"
    using assms(2) b(2) by (auto simp: GetNext_defs Let_def split: if_splits)
  then show ?thesis
    using sound by (auto simp: usable_queues_iff)
qed

lemma round_robin_choice:
  assumes "RoundRobin_Init wqs = Some s" "GetNext hint s tls = Some (Some i, tls')"
  shows "i < length wqs \<and> capacity (wqs ! i) > 0"
proof -
  have "i \<in> set (usable_queues wqs)"
    using assms by (auto simp: RoundRobin_Init_def GetNext_defs split: if_splits)
  then show ?thesis
    by (simp add: usable_queues_iff)
qed

text \<open>C31: A submission is always made to a queue of the dispatcher that has a quota and that fits the hint: one on the
  hinted NUMA node, or of the hinted device, according to the strategy.\<close>

theorem GetNext_fits_hint:
  assumes "strategy_for t wqs = Some s" "GetNext hint s tls = Some (Some i, tls')"
  shows "i < length wqs \<and> capacity (wqs ! i) > 0 \<and> fits_hint t hint (wqs ! i)"
  using assms device_choice numa_choice round_robin_choice by (cases t) (auto simp: strategy_for_def fits_hint_def)

text \<open>Consecutive choices of one thread.\<close>

fun get_nexts :: "nat \<Rightarrow> nat \<Rightarrow> ScheduleStrategy \<Rightarrow> tls_counters \<Rightarrow> nat option list option" where
  "get_nexts hint 0 s tls = Some []"
| "get_nexts hint (Suc n) s tls =
    (case GetNext hint s tls of
       None \<Rightarrow> None
     | Some (r, tls') \<Rightarrow> map_option ((#) r) (get_nexts hint n s tls'))"

lemma get_nexts_round_robin:
  assumes "wqs \<noteq> []" "unat (tls_counter tls) + n \<le> 2 ^ 64"
  shows "get_nexts hint n (RoundRobinStrategy wqs) tls =
    Some (map (\<lambda>k. Some (wqs ! ((unat (tls_counter tls) + k) mod length wqs))) [0..<n])"
  using assms(2)
proof (induction n arbitrary: tls)
  case (Suc n)
  have rest: "get_nexts hint n (RoundRobinStrategy wqs) (tls\<lparr> tls_counter := tls_counter tls + 1 \<rparr>) =
      Some (map (\<lambda>k. Some (wqs ! ((unat (tls_counter tls) + Suc k) mod length wqs))) [0..<n])"
  proof (cases "n = 0")
    case False
    then have "unat (tls_counter tls + 1) = Suc (unat (tls_counter tls))"
      using Suc.prems by (simp add: unat_word_ariths)
    then show ?thesis
      using Suc.IH [of "tls\<lparr> tls_counter := tls_counter tls + 1 \<rparr>"] Suc.prems by simp
  qed simp
  have "[0..<Suc n] = 0 # map Suc [0..<n]"
    by (simp add: upt_conv_Cons map_Suc_upt del: upt_Suc)
  then show ?case
    using rest assms(1) by (simp add: GetNext_defs comp_def del: upt_Suc)
qed simp

text \<open>C32: Between two wrap-arounds of its counter, any run of as many submissions of a thread as there are queues
  with a quota goes once to each of them, in their cyclic order.\<close>

theorem round_robin_fair:
  assumes "RoundRobin_Init wqs = Some s" "U = usable_queues wqs" "U \<noteq> []" "unat (tls_counter tls) + length U \<le> 2 ^ 64"
  shows "get_nexts hint (length U) s tls = Some (map Some (rotate (unat (tls_counter tls)) U))"
proof -
  have "s = RoundRobinStrategy U"
    using assms(1,2) by (auto simp: RoundRobin_Init_def split: if_splits)
  moreover have "map (\<lambda>k. Some (U ! ((unat (tls_counter tls) + k) mod length U))) [0..<length U]
      = map Some (rotate (unat (tls_counter tls)) U)"
    by (rule nth_equalityI) (simp_all add: nth_rotate)
  ultimately show ?thesis
    using get_nexts_round_robin [OF assms(3,4)] by simp
qed

text \<open>C37: A quota flag that grants nothing on any device is accepted, and the first round-robin submission then
  divides by the number of usable queues, which is zero.\<close>

theorem zero_quota_crashes:
  assumes "\<forall>u \<in> set found. portal u \<noteq> 0" "found \<noteq> []" "IsValidNumberList flag" "Parse flag = Some (replicate (length found) 0)"
  shows "\<exists>d. DsaDispatcher_Init found mem flag kRoundRobin DsaDispatcher_new = Some (kOk, d) \<and> DsaDispatcher_Submit hint tls d = None"
proof -
  let ?wqs = "set_quota (replicate (length found) 0) (found_queues found mem)"
  have ne: "flag \<noteq> []" "found_queues found mem \<noteq> []" "?wqs \<noteq> []"
    using assms(2,3) by (auto simp: IsValidNumberList_def found_queues_def set_quota_def)
  have "usable_queues ?wqs = []"
    by (auto simp: usable_queues_def set_quota_def found_queues_def filter_empty_conv)
  then show ?thesis
    using assms ne by (auto simp: DsaDispatcher_Init_def DsaDispatcher_new_def Let_def RoundRobin_Init_def DsaDispatcher_Submit_def
        GetNext_defs found_queues_def)
qed

section \<open>A dispatcher with two devices\<close>

definition two_devices :: "UioWqInfo list" where
  "two_devices = [\<lparr> bdf = ''6a:01.0'', numa_node = 0, portal = 1 \<rparr>, \<lparr> bdf = ''e7:01.0'', numa_node = 1, portal = 2 \<rparr>]"

definition two_queues :: "WorkQueueInfo list" where
  "two_queues = set_quota [16, 32] (found_queues two_devices (\<lambda>i. 0))"

lemma two_queues_eq:
  "two_queues = [\<lparr> uio_info = two_devices ! 0, dsa_index = 0, capacity = 16, wq_size = 0 \<rparr>,
    \<lparr> uio_info = two_devices ! 1, dsa_index = 1, capacity = 32, wq_size = 0 \<rparr>]"
  by (simp add: two_queues_def set_quota_def found_queues_def two_devices_def upt_rec)

lemma two_queues_usable: "usable_queues two_queues = [0, 1]"
  by (simp add: usable_queues_def two_queues_eq upt_rec)

theorem GetNext_fits_hint_witness:
  "\<exists>s i tls. strategy_for kNumaAware two_queues = Some s \<and> GetNext 1 s tls_counters_init = Some (Some i, tls)
    \<and> numa_node (uio_info (two_queues ! i)) = 1"
proof -
  let ?b = "(replicate kMaxNumaNum [])[0 := [0], 1 := [1]]"
  have s: "strategy_for kNumaAware two_queues = Some (NumaAwareStrategy ?b)"
    unfolding strategy_for_def NumaAware_Init_def two_queues_usable
    by (simp add: two_queues_eq two_devices_def kMaxNumaNum_def)
  obtain i tls where n: "GetNext 1 (NumaAwareStrategy ?b) tls_counters_init = Some (Some i, tls)"
    by (simp add: GetNext_defs kMaxNumaNum_def)
  show ?thesis
    using GetNext_fits_hint [OF s n] s n by (auto simp: fits_hint_def)
qed

theorem round_robin_fair_witness:
  "\<exists>s. RoundRobin_Init two_queues = Some s \<and> get_nexts 0 2 s (tls_counters_init\<lparr> tls_counter := 5 \<rparr>) = Some [Some 1, Some 0]"
proof -
  have s: "RoundRobin_Init two_queues = Some (RoundRobinStrategy [0, 1])"
    by (simp add: RoundRobin_Init_def two_queues_usable) (simp add: two_queues_eq)
  let ?tls = "tls_counters_init\<lparr> tls_counter := 5 \<rparr>"
  have "get_nexts 0 (length [0, 1 :: nat]) (RoundRobinStrategy [0, 1]) ?tls = Some (map Some (rotate (unat (tls_counter ?tls)) [0, 1]))"
    by (rule round_robin_fair [OF s two_queues_usable [symmetric]]) simp_all
  moreover have "rotate 5 [0, 1 :: nat] = [1, 0]"
    by code_simp
  moreover have "length [0, 1 :: nat] = 2" "unat (tls_counter ?tls) = 5"
    by simp_all
  ultimately have "get_nexts 0 2 (RoundRobinStrategy [0, 1]) ?tls = Some [Some 1, Some 0]"
    by (simp only: list.map)
  then show ?thesis
    using s by blast
qed

theorem zero_quota_crashes_witness:
  "\<exists>d. DsaDispatcher_Init two_devices (\<lambda>i. 7) ''0,0'' kRoundRobin DsaDispatcher_new = Some (kOk, d)
    \<and> DsaDispatcher_Submit 0 tls_counters_init d = None"
proof -
  have "IsValidNumberList ''0,0''" "Parse ''0,0'' = Some [0, 0]"
    by (simp_all add: IsValidNumberList_def Parse_def stoull_def is_space_def is_digit_def digit_value_def)
  moreover have "replicate (length two_devices) 0 = [0, 0 :: u64]"
    by (simp add: two_devices_def)
  moreover have "\<forall>u \<in> set two_devices. portal u \<noteq> 0" "two_devices \<noteq> []"
    by (simp_all add: two_devices_def)
  ultimately show ?thesis
    using zero_quota_crashes [of two_devices "''0,0''" "\<lambda>i. 7" 0 tls_counters_init] by simp
qed

end
