(* ===== verification/Periodic_Scheduler.thy ===== *)
theory Periodic_Scheduler
  imports Vesal_Prelude
begin

text \<open>The scheduler of periodic tasks, \<^verbatim>\<open>src/src/common/scheduler.{h,cc}\<close>: a queue ordered by the next run time, the
  thread that serves it, and the operations other threads call.  Times are milliseconds of the steady clock.  Each
  critical section of the mutex is one step, as are the test of \<^verbatim>\<open>running_\<close>, the run of a task and the two halves of
  \<^verbatim>\<open>Stop\<close>.  Which of several tasks with the same least time is on top of the queue is left open.\<close>

record PeriodicTask =
  task :: nat
  next_run_time :: nat
  interval :: nat
  task_id :: u32

record Scheduler =
  tasks :: "PeriodicTask list"
  running :: bool
  id_cnt :: u32
  task_status :: "u32 \<rightharpoonup> bool"

definition Scheduler_new :: Scheduler where
  "Scheduler_new = \<lparr> tasks = [], running = False, id_cnt = 0, task_status = Map.empty \<rparr>"

text \<open>\<open>is_top t ts\<close>: \<open>t\<close> may be on top of the queue \<open>ts\<close>.\<close>

definition is_top :: "PeriodicTask \<Rightarrow> PeriodicTask list \<Rightarrow> bool" where
  "is_top t ts \<longleftrightarrow> t \<in> set ts \<and> list_all (\<lambda>u. next_run_time t \<le> next_run_time u) ts"

text \<open>The identifier, whether the scheduler thread is notified, and the new state.\<close>

definition AddPeriodicTask :: "nat \<Rightarrow> nat \<Rightarrow> nat \<Rightarrow> Scheduler \<Rightarrow> u32 \<times> bool \<times> Scheduler" where
  "AddPeriodicTask now f itv s =
    (let t = now + itv;
         notify = (tasks s = [] \<or> list_all (\<lambda>u. t < next_run_time u) (tasks s));
         i = id_cnt s + 1
     in (i, notify,
         s\<lparr> id_cnt := i, tasks := \<lparr> task = f, next_run_time = t, interval = itv, task_id = i \<rparr> # tasks s,
            task_status := (task_status s)(i \<mapsto> True) \<rparr>))"

definition CompleteTask :: "u32 \<Rightarrow> Scheduler \<Rightarrow> Scheduler" where
  "CompleteTask i s = (if task_status s i \<noteq> None then s\<lparr> task_status := (task_status s)(i \<mapsto> False) \<rparr> else s)"

text \<open>Clearing a running scheduler fails the check.\<close>

definition Clear_tasks :: "Scheduler \<Rightarrow> Scheduler option" where
  "Clear_tasks s = (if running s then None else Some (s\<lparr> tasks := [], task_status := Map.empty, id_cnt := 0 \<rparr>))"

section \<open>The scheduler thread\<close>

text \<open>Where the thread is: before the test of \<^verbatim>\<open>running_\<close>, before taking the lock, waiting for a notification, waiting
  for a notification or a time, running a task that was popped at a time, or gone.\<close>

datatype thread_pc = Check | Lock | Waiting | WaitingUntil nat | Running PeriodicTask nat | Exited

text \<open>What the loop does in its critical section when \<open>t\<close> is on top of the queue.\<close>

definition serve :: "nat \<Rightarrow> PeriodicTask \<Rightarrow> Scheduler \<Rightarrow> thread_pc \<times> Scheduler" where
  "serve now t s =
    (if now \<ge> next_run_time t then
       let s = s\<lparr> tasks := remove1 t (tasks s) \<rparr> in
       if task_status s (task_id t) = Some True then (Running t now, s)
       else (Check, s\<lparr> task_status := (task_status s)(task_id t := None) \<rparr>)
     else (WaitingUntil (next_run_time t), s))"

definition reschedule :: "PeriodicTask \<Rightarrow> nat \<Rightarrow> Scheduler \<Rightarrow> Scheduler" where
  "reschedule t started s = s\<lparr> tasks := t\<lparr> next_run_time := started + interval t \<rparr> # tasks s \<rparr>"

definition woken :: "thread_pc \<Rightarrow> thread_pc" where
  "woken pc = (case pc of Waiting \<Rightarrow> Check | WaitingUntil t \<Rightarrow> Check | _ \<Rightarrow> pc)"

text \<open>Where a call of \<^verbatim>\<open>Stop\<close> is.\<close>

datatype stop_pc = NotStopping | FlagCleared | Joining | Joined

record system =
  sched :: Scheduler
  thread :: thread_pc
  stopper :: stop_pc
  clock :: nat

datatype event = Tick | ThreadStep | AddCall | CompleteCall u32 | StopStep

inductive sys_step :: "event \<Rightarrow> system \<Rightarrow> system \<Rightarrow> bool" where
  tick: "sys_step Tick y (y\<lparr> clock := clock y + n \<rparr>)"
| test_true: "thread y = Check \<Longrightarrow> running (sched y) \<Longrightarrow> sys_step ThreadStep y (y\<lparr> thread := Lock \<rparr>)"
| test_false: "thread y = Check \<Longrightarrow> \<not> running (sched y) \<Longrightarrow> sys_step ThreadStep y (y\<lparr> thread := Exited \<rparr>)"
| empty: "thread y = Lock \<Longrightarrow> tasks (sched y) = [] \<Longrightarrow> sys_step ThreadStep y (y\<lparr> thread := Waiting \<rparr>)"
| top: "thread y = Lock \<Longrightarrow> is_top t (tasks (sched y)) \<Longrightarrow> serve (clock y) t (sched y) = (pc, s) \<Longrightarrow>
    sys_step ThreadStep y (y\<lparr> thread := pc, sched := s \<rparr>)"
| ran: "thread y = Running t started \<Longrightarrow>
    sys_step ThreadStep y (y\<lparr> thread := Check, sched := reschedule t started (sched y) \<rparr>)"
| timeout: "thread y = WaitingUntil t \<Longrightarrow> clock y \<ge> t \<Longrightarrow> sys_step ThreadStep y (y\<lparr> thread := Check \<rparr>)"
| add: "AddPeriodicTask (clock y) f itv (sched y) = (i, notify, s) \<Longrightarrow>
    sys_step AddCall y (y\<lparr> sched := s, thread := (if notify then woken (thread y) else thread y) \<rparr>)"
| complete: "sys_step (CompleteCall i) y (y\<lparr> sched := CompleteTask i (sched y) \<rparr>)"
| stop_flag: "stopper y = NotStopping \<Longrightarrow> running (sched y) \<Longrightarrow>
    sys_step StopStep y (y\<lparr> stopper := FlagCleared, sched := (sched y)\<lparr> running := False \<rparr> \<rparr>)"
| stop_notify: "stopper y = FlagCleared \<Longrightarrow> sys_step StopStep y (y\<lparr> stopper := Joining, thread := woken (thread y) \<rparr>)"
| stop_join: "stopper y = Joining \<Longrightarrow> thread y = Exited \<Longrightarrow> sys_step StopStep y (y\<lparr> stopper := Joined \<rparr>)"

text \<open>\<^verbatim>\<open>Start\<close> sets the flag and creates the thread.\<close>

definition Start_scheduler :: "nat \<Rightarrow> Scheduler \<Rightarrow> system option" where
  "Start_scheduler now s =
    (if running s then None
     else Some \<lparr> sched = s\<lparr> running := True \<rparr>, thread = Check, stopper = NotStopping, clock = now \<rparr>)"

inductive sys_reach :: "nat \<Rightarrow> system \<Rightarrow> bool" where
  start: "Start_scheduler now Scheduler_new = Some y \<Longrightarrow> sys_reach 0 y"
| step: "sys_reach n y \<Longrightarrow> sys_step e y y' \<Longrightarrow> sys_reach (if e = AddCall then Suc n else n) y'"

inductive_cases sys_stepE: "sys_step e y y'"

section \<open>No task is lost or duplicated\<close>

definition live_ids :: "system \<Rightarrow> u32 list" where
  "live_ids y = (case thread y of Running t st \<Rightarrow> [task_id t] | _ \<Rightarrow> []) @ map task_id (tasks (sched y))"

definition sys_inv :: "nat \<Rightarrow> system \<Rightarrow> bool" where
  "sys_inv n y \<longleftrightarrow> distinct (live_ids y) \<and> set (live_ids y) = dom (task_status (sched y))
     \<and> unat (id_cnt (sched y)) = n \<and> (\<forall>i \<in> dom (task_status (sched y)). unat i \<le> n)"
lemma remove1_ids:
  assumes "t \<in> set ts" "distinct (map task_id ts)"
  shows "distinct (task_id t # map task_id (remove1 t ts)) \<and> insert (task_id t) (set (map task_id (remove1 t ts))) = set (map task_id ts)"
  using assms
proof (induction ts)
  case (Cons u ts)
  show ?case
  proof (cases "u = t")
    case False
    then have t: "t \<in> set ts"
      using Cons.prems(1) by simp
    define R where "R = map task_id (remove1 t ts)"
    have ih: "distinct (task_id t # R)" "insert (task_id t) (set R) = set (map task_id ts)"
      using Cons.IH [OF t] Cons.prems(2) unfolding R_def by simp_all
    have "task_id u \<notin> insert (task_id t) (set R)"
      unfolding ih(2) using Cons.prems(2) by simp
    moreover have "map task_id (remove1 t (u # ts)) = task_id u # R" "set (map task_id (u # ts)) = insert (task_id u) (insert (task_id t) (set R))"
      using False ih(2) unfolding R_def by simp_all
    ultimately show ?thesis
      using ih(1) by (simp only:) auto
  qed (use Cons.prems in simp)
qed simp

lemma live_ids_woken: "thread y \<noteq> Running t st \<Longrightarrow> live_ids (y\<lparr> thread := woken (thread y) \<rparr>) = live_ids y"
  by (cases "thread y") (simp_all add: live_ids_def woken_def)

lemma woken_running [simp]: "woken (Running t st) = Running t st"
  by (simp add: woken_def)

lemma live_ids_quiet:
  assumes "\<forall>t st. thread y \<noteq> Running t st" "\<forall>t st. pc \<noteq> Running t st"
  shows "live_ids (y\<lparr> thread := pc \<rparr>) = live_ids y"
  using assms by (cases "thread y"; cases pc) (simp_all add: live_ids_def)

lemma sys_inv_serve:
  assumes inv: "sys_inv n y" and "thread y = Lock" "is_top t (tasks (sched y))" "serve (clock y) t (sched y) = (pc, s)"
  shows "sys_inv n (y\<lparr> thread := pc, sched := s \<rparr>)"
proof -
  let ?s = "sched y"
  have t: "t \<in> set (tasks ?s)"
    using assms(3) by (simp add: is_top_def)
  have d: "distinct (map task_id (tasks ?s))" "set (map task_id (tasks ?s)) = dom (task_status ?s)"
      "unat (id_cnt ?s) = n" "\<forall>i \<in> dom (task_status ?s). unat i \<le> n"
    using inv assms(2) by (auto simp: sys_inv_def live_ids_def)
  note r = remove1_ids [OF t d(1)]
  consider (wait) "pc = WaitingUntil (next_run_time t)" "s = ?s"
    | (run) "pc = Running t (clock y)" "s = ?s\<lparr> tasks := remove1 t (tasks ?s) \<rparr>"
    | (drop) "pc = Check" "s = ?s\<lparr> tasks := remove1 t (tasks ?s), task_status := (task_status ?s)(task_id t := None) \<rparr>"
    using assms(4) by (auto simp: serve_def Let_def split: if_splits)
  then show ?thesis
  proof cases
    case wait
    then show ?thesis
      using d by (simp add: sys_inv_def live_ids_def)
  next
    case run
    then show ?thesis
      using d r by (simp add: sys_inv_def live_ids_def del: set_map)
  next
    case drop
    then have "set (map task_id (remove1 t (tasks ?s))) = dom (task_status ?s) - {task_id t}"
      using r d(2) by (auto simp del: set_map)
    then show ?thesis
      using drop d r by (simp add: sys_inv_def live_ids_def del: set_map)
  qed
qed

lemma sys_inv_add:
  assumes inv: "sys_inv n y" and n: "Suc n < 2 ^ 32" and a: "AddPeriodicTask (clock y) f itv (sched y) = (i, notify, s)"
  shows "sys_inv (Suc n) (y\<lparr> sched := s, thread := (if notify then woken (thread y) else thread y) \<rparr>)"
proof -
  let ?y = "y\<lparr> sched := s, thread := (if notify then woken (thread y) else thread y) \<rparr>"
  have i: "i = id_cnt (sched y) + 1" "id_cnt s = i" "task_status s = (task_status (sched y))(i \<mapsto> True)"
      "map task_id (tasks s) = i # map task_id (tasks (sched y))"
    using a by (auto simp: AddPeriodicTask_def Let_def)
  have "unat (id_cnt (sched y)) = n"
    using inv by (simp add: sys_inv_def)
  then have ui: "unat i = Suc n"
    using n i(1) by (simp add: unat_word_ariths)
  have old: "distinct (live_ids y)" "set (live_ids y) = dom (task_status (sched y))" "\<And>j. j \<in> dom (task_status (sched y)) \<Longrightarrow> unat j \<le> n"
    using inv by (simp_all add: sys_inv_def)
  have new: "i \<notin> dom (task_status (sched y))"
    using old(3) [of i] ui by auto
  have ids: "set (live_ids ?y) = insert i (set (live_ids y))" "distinct (live_ids ?y) \<longleftrightarrow> i \<notin> set (live_ids y) \<and> distinct (live_ids y)"
    unfolding live_ids_def by (cases "thread y"; cases notify; simp add: woken_def i(4) insert_commute; blast)+
  have "unat j \<le> Suc n" if "j \<in> dom (task_status s)" for j
    using that old(3) [of j] ui i(3) by (cases "j = i") auto
  then show ?thesis
    unfolding sys_inv_def using ids old new i ui by simp
qed

lemma sys_inv_step:
  assumes inv: "sys_inv n y" and st: "sys_step e y y'" and n: "e = AddCall \<longrightarrow> Suc n < 2 ^ 32"
  shows "sys_inv (if e = AddCall then Suc n else n) y'"
  using st
proof cases
  case (top t pc s)
  then show ?thesis
    using sys_inv_serve [OF inv] by simp
next
  case (ran t started)
  then show ?thesis
    using inv by (auto simp: sys_inv_def live_ids_def reschedule_def)
next
  case (add f itv i notify s)
  then show ?thesis
    using sys_inv_add [OF inv] n by simp
next
  case (complete i)
  then show ?thesis
    using inv by (auto simp: sys_inv_def live_ids_def CompleteTask_def split: thread_pc.splits)
next
  case stop_notify
  then show ?thesis
    using inv by (cases "thread y") (simp_all add: sys_inv_def live_ids_def woken_def)
qed (use inv in \<open>simp_all add: sys_inv_def live_ids_def\<close>)

lemma sys_reach_inv: "sys_reach n y \<Longrightarrow> n < 2 ^ 32 \<Longrightarrow> sys_inv n y"
proof (induction rule: sys_reach.induct)
  case (start now y)
  then show ?case
    by (auto simp: Start_scheduler_def Scheduler_new_def sys_inv_def live_ids_def)
next
  case (step n y e y')
  then have "n < 2 ^ 32"
    by (simp split: if_splits)
  then show ?case
    using sys_inv_step [OF step.IH step.hyps(2)] step.prems by (simp split: if_splits)
qed

text \<open>C33: However calls from other threads interleave with the scheduler thread, every task that was added and not
  yet dropped is in exactly one place, the queue or the thread, as long as identifiers have not wrapped around; so no
  task is lost, queued twice or run twice at the same time, and a task served after it was completed is dropped
  instead of run.\<close>

theorem scheduler_keeps_tasks:
  assumes "sys_reach n y" "n < 2 ^ 32"
  shows "distinct (live_ids y) \<and> set (live_ids y) = dom (task_status (sched y))
    \<and> (\<forall>t s pc. is_top t (tasks (sched y)) \<longrightarrow> serve (clock y) t (sched y) = (pc, s) \<longrightarrow> clock y \<ge> next_run_time t \<longrightarrow>
         (if task_status (sched y) (task_id t) = Some True then pc = Running t (clock y)
          else pc = Check \<and> task_id t \<notin> dom (task_status s)))"
  using sys_reach_inv [OF assms] by (auto simp: sys_inv_def serve_def Let_def)

section \<open>Stopping can hang\<close>

definition hung :: "system \<Rightarrow> bool" where
  "hung y \<longleftrightarrow> thread y = Waiting \<and> stopper y = Joining"

lemma hung_step: "hung y \<Longrightarrow> sys_step e y y' \<Longrightarrow> e \<noteq> AddCall \<Longrightarrow> hung y'"
  by (auto simp: hung_def elim: sys_stepE)

abbreviation no_add_step :: "system \<Rightarrow> system \<Rightarrow> bool" where
  "no_add_step y y' \<equiv> \<exists>e. e \<noteq> AddCall \<and> sys_step e y y'"

lemma hung_forever: "no_add_step\<^sup>*\<^sup>* y y' \<Longrightarrow> hung y \<Longrightarrow> hung y'"
  by (induction rule: rtranclp_induct) (auto dest: hung_step)



theorem scheduler_keeps_tasks_witness:
  "\<exists>y. sys_reach 1 y \<and> live_ids y = [1] \<and> dom (task_status (sched y)) = {1}"
proof -
  let ?s = "Scheduler_new\<lparr> running := True \<rparr>"
  let ?y = "\<lparr> sched = ?s, thread = Check, stopper = NotStopping, clock = 0 \<rparr>"
  have y: "sys_reach 0 ?y"
    by (rule sys_reach.start [of 0]) (simp add: Start_scheduler_def Scheduler_new_def)
  obtain i b s where a: "AddPeriodicTask 0 7 100 ?s = (i, b, s)"
    by (metis prod_cases3)
  then have "sys_step AddCall ?y (?y\<lparr> sched := s \<rparr>)"
    using add [of ?y 7 100 i b s] by (cases b) (simp_all add: woken_def)
  from sys_reach.step [OF y this] have r: "sys_reach 1 (?y\<lparr> sched := s \<rparr>)"
    by simp
  then have "set (live_ids (?y\<lparr> sched := s \<rparr>)) = dom (task_status s)"
    using scheduler_keeps_tasks [OF r] by simp
  moreover have "live_ids (?y\<lparr> sched := s \<rparr>) = [1]"
    using a by (auto simp: AddPeriodicTask_def Scheduler_new_def live_ids_def)
  ultimately show ?thesis
    using r by (intro exI [of _ "?y\<lparr> sched := s \<rparr>"]) simp
qed

end
