(* ===== verification/Data_Flow.thy ===== *)
theory Data_Flow
  imports Vesal_Status
begin

text \<open>The data of the data flow service: \<^verbatim>\<open>src/include/vesal/data_flow.h\<close>, \<^verbatim>\<open>src/src/data_flow/data_flow_request.h\<close>
  and the engine interface of \<^verbatim>\<open>data_flow_engines.h\<close>.  The engines are virtual: a channel calls them through the
  table \<open>DataFlowEngine\<close>, and what it relies on is the locale \<open>flow_engine\<close>.  User contexts and request objects are
  numbers, standing for their addresses; addresses of user data are \<open>u64\<close>.\<close>

section \<open>Operations, requests and results\<close>

definition kMaxSubmittedBatchSize :: nat where "kMaxSubmittedBatchSize = 128"
definition kMaxTotalLength :: u64 where "kMaxTotalLength = 128 * 1024 * 1024"
definition kMaxSrcSegmentNum :: nat where "kMaxSrcSegmentNum = 128"
definition kMaxInternalBatchSize :: nat where "kMaxInternalBatchSize = 1024"

record DataFlowResult =
  result_status :: StatusCode
  crc_output :: "u64 list"
  result_ctx :: nat

datatype DataFlowEngineType = kSoftware | kDsa | kEngineNum
datatype DataFlowPollOrderType = kOrdered | kUnordered | kOrderNum

record DataFlowChannelOptions =
  order_type :: DataFlowPollOrderType
  engine_type :: DataFlowEngineType
  opt_schedule_hint :: nat
  timeout_ms :: u64

record DataFlowMoveOperation =
  src :: "u64 list"
  src_len :: "u64 list"
  dst :: u64
  seed :: u64
  enable_crc :: bool

record DataFlowCrcOperation =
  crc_src :: u64
  crc_len :: u64
  crc_seed :: u64

text \<open>An array of operations with the type its first element carries.\<close>

datatype operations =
    kMove "DataFlowMoveOperation list"
  | kCrc "DataFlowCrcOperation list"
  | kOtherType nat

fun op_count :: "operations \<Rightarrow> nat" where
  "op_count (kMove ops) = length ops"
| "op_count (kCrc ops) = length ops"
| "op_count (kOtherType n) = n"

record DataFlowRequest =
  req_op :: "operations option"
  req_num :: nat
  schedule_hint :: nat
  completed :: bool
  expired :: bool
  timer_ctx :: "nat option"
  engine_ctx :: nat
  user_ctx :: nat
  move_data_size :: u64
  crc_data_size :: u64

definition Build :: "operations \<Rightarrow> nat \<Rightarrow> nat \<Rightarrow> nat \<Rightarrow> u64 \<Rightarrow> u64 \<Rightarrow> DataFlowRequest \<Rightarrow> DataFlowRequest" where
  "Build ops num uctx hint move_size crc_size r =
    r\<lparr> req_op := Some ops, req_num := num, schedule_hint := hint, completed := False, expired := False,
       timer_ctx := None, user_ctx := uctx, move_data_size := move_size, crc_data_size := crc_size \<rparr>"

text \<open>The batches a channel hands to its engine.  The total length of an operation is checked modulo \<open>2 ^ 64\<close>.\<close>

definition total_len :: "u64 list \<Rightarrow> nat" where
  "total_len ls = sum_list (map unat ls)"

definition valid_move :: "DataFlowMoveOperation \<Rightarrow> bool" where
  "valid_move op \<longleftrightarrow> src op \<noteq> [] \<and> length (src op) = length (src_len op) \<and> length (src op) \<le> kMaxSrcSegmentNum \<and> 0 \<notin> set (src_len op)
     \<and> total_len (src_len op) mod 2 ^ 64 \<le> unat kMaxTotalLength"

definition valid_batch :: "DataFlowMoveOperation list \<Rightarrow> bool" where
  "valid_batch ops \<longleftrightarrow> length ops \<le> kMaxSubmittedBatchSize \<and> (\<forall>op \<in> set ops. valid_move op)
     \<and> 1 + sum_list (map (length \<circ> src) ops) + 1 + length ops \<le> kMaxInternalBatchSize"

definition valid_crcs :: "DataFlowCrcOperation list \<Rightarrow> bool" where
  "valid_crcs ops \<longleftrightarrow> length ops \<le> kMaxSubmittedBatchSize \<and> (\<forall>op \<in> set ops. 0 < crc_len op \<and> crc_len op \<le> kMaxTotalLength)"

fun valid_ops :: "operations \<Rightarrow> bool" where
  "valid_ops (kMove ops) \<longleftrightarrow> valid_batch ops"
| "valid_ops (kCrc ops) \<longleftrightarrow> valid_crcs ops"
| "valid_ops (kOtherType n) \<longleftrightarrow> False"

lemma valid_ops_count: "valid_ops ops \<Longrightarrow> op_count ops \<le> kMaxSubmittedBatchSize"
  by (cases ops) (simp_all add: valid_batch_def valid_crcs_def)

section \<open>The engine interface\<close>

text \<open>\<open>'a\<close> is what the allocators answer when a context is preallocated.\<close>

record ('a, 'e) DataFlowEngine =
  vSubmit :: "DataFlowRequest \<Rightarrow> 'e \<Rightarrow> (StatusCode \<times> 'e) option"
  vCheckCompletion :: "DataFlowRequest \<Rightarrow> DataFlowResult \<Rightarrow> 'e \<Rightarrow> (DataFlowRequest \<times> DataFlowResult \<times> 'e) option"
  vPreallocateCtx :: "'a \<Rightarrow> DataFlowRequest \<Rightarrow> 'e \<Rightarrow> (StatusCode \<times> DataFlowRequest \<times> 'e) option"
  vClearCtx :: "DataFlowRequest \<Rightarrow> 'e \<Rightarrow> 'e option"

text \<open>The contract of an engine.  \<open>busy\<close> maps the contexts of the submitted requests to their number of operations,
  \<open>idle\<close> are the other contexts, \<open>fresh\<close> says what is known of the allocators' answers, and \<open>env\<close> is what may happen to
  the engine's state between two calls.\<close>

locale flow_engine =
  fixes eng :: "('a, 'e) DataFlowEngine"
    and einv :: "'e \<Rightarrow> (nat \<rightharpoonup> nat) \<Rightarrow> nat set \<Rightarrow> bool"
    and fresh :: "'a \<Rightarrow> 'e \<Rightarrow> bool"
    and env :: "'e \<Rightarrow> 'e \<Rightarrow> bool"
  assumes env_einv: "einv e busy idle \<Longrightarrow> env e e' \<Longrightarrow> einv e' busy idle"
    and submit_einv: "einv e busy idle \<Longrightarrow> engine_ctx r \<in> idle \<Longrightarrow> req_op r = Some ops \<Longrightarrow> req_num r = op_count ops \<Longrightarrow>
      valid_ops ops \<Longrightarrow> vSubmit eng r e = Some (st, e') \<Longrightarrow>
      (if st = kOk then einv e' (busy(engine_ctx r \<mapsto> req_num r)) (idle - {engine_ctx r}) else einv e' busy idle)"
    and check_einv: "einv e busy idle \<Longrightarrow> busy (engine_ctx r) = Some (req_num r) \<Longrightarrow> \<not> completed r \<Longrightarrow>
      \<exists>r' res' e'. vCheckCompletion eng r res e = Some (r', res', e') \<and> r' = r\<lparr> completed := completed r' \<rparr>
        \<and> (if completed r' then result_ctx res' = user_ctx r \<and> einv e' (busy(engine_ctx r := None)) (insert (engine_ctx r) idle)
           else res' = res \<and> einv e' busy idle)"
    and prealloc_einv: "einv e busy idle \<Longrightarrow> fresh a e \<Longrightarrow>
      \<exists>st r' e'. vPreallocateCtx eng a r e = Some (st, r', e')
        \<and> (if st = kOk then r' = r\<lparr> engine_ctx := engine_ctx r' \<rparr> \<and> engine_ctx r' \<notin> dom busy \<union> idle \<and> einv e' busy (insert (engine_ctx r') idle)
           else einv e' busy idle)"
    and clear_einv: "einv e busy idle \<Longrightarrow> engine_ctx r \<in> idle \<Longrightarrow>
      \<exists>e'. vClearCtx eng r e = Some e' \<and> einv e' busy (idle - {engine_ctx r})"
    and busy_idle: "einv e busy idle \<Longrightarrow> dom busy \<inter> idle = {}"

end
