(* ===== verification/Sw_Engine.thy ===== *)
theory Sw_Engine
  imports Data_Flow Checksum
begin

text \<open>The software engine, \<^verbatim>\<open>src/src/data_flow/sw/data_flow_sw_engine.cc\<close>: it moves the data and computes the checksums
  inside \<^verbatim>\<open>Submit\<close>.  The memory of the user is a partial map from addresses to bytes; an access to an address that is
  not mapped, or to an element outside the array of a context, is \<open>None\<close>.  \<open>sse\<close> says whether the processor has the
  checksum instruction.\<close>

section \<open>Memory\<close>

type_synonym memory = "u64 \<rightharpoonup> u8"

fun read_bytes :: "memory \<Rightarrow> u64 \<Rightarrow> nat \<Rightarrow> u8 list option" where
  "read_bytes m a 0 = Some []"
| "read_bytes m a (Suc n) = (case m a of None \<Rightarrow> None | Some b \<Rightarrow> map_option ((#) b) (read_bytes m (a + 1) n))"

fun write_bytes :: "memory \<Rightarrow> u64 \<Rightarrow> u8 list \<Rightarrow> memory option" where
  "write_bytes m a [] = Some m"
| "write_bytes m a (b # bs) = (if m a = None then None else write_bytes (m(a \<mapsto> b)) (a + 1) bs)"

definition memmove :: "memory \<Rightarrow> u64 \<Rightarrow> u64 \<Rightarrow> u64 \<Rightarrow> memory option" where
  "memmove m d s len = Option.bind (read_bytes m s (unat len)) (write_bytes m d)"

section \<open>The engine\<close>

record SwEngine =
  user_mem :: memory
  sw_ctxs :: "nat \<rightharpoonup> u64 list"

fun move_segments :: "memory \<Rightarrow> u64 \<Rightarrow> u64 \<Rightarrow> u64 list \<Rightarrow> u64 list \<Rightarrow> (u64 \<times> memory) option" where
  "move_segments m d offset [] lens = Some (offset, m)"
| "move_segments m d offset (s # ss) [] = None"
| "move_segments m d offset (s # ss) (l # ls) =
    Option.bind (memmove m (d + offset) s l) (\<lambda>m'. move_segments m' d (offset + l) ss ls)"

definition buffer_crc :: "bool \<Rightarrow> u64 \<Rightarrow> memory \<Rightarrow> u64 \<Rightarrow> u64 \<Rightarrow> u64 option" where
  "buffer_crc sse sd m a len =
    Option.bind (read_bytes m a (unat len)) (\<lambda>buf. map_option ucast (ComputeCRC32 sse (ucast sd) buf))"

fun sw_moves :: "bool \<Rightarrow> nat \<Rightarrow> DataFlowMoveOperation list \<Rightarrow> memory \<Rightarrow> u64 list \<Rightarrow> (memory \<times> u64 list) option" where
  "sw_moves sse i [] m sw_ctx = Some (m, sw_ctx)"
| "sw_moves sse i (op # ops) m sw_ctx =
    Option.bind (move_segments m (dst op) 0 (src op) (src_len op))
      (\<lambda>(offset, m').
         Option.bind (if enable_crc op then buffer_crc sse (seed op) m' (dst op) offset else Some 0)
           (\<lambda>v. if i < length sw_ctx then sw_moves sse (Suc i) ops m' (sw_ctx[i := v]) else None))"

fun sw_crcs :: "bool \<Rightarrow> nat \<Rightarrow> DataFlowCrcOperation list \<Rightarrow> memory \<Rightarrow> u64 list \<Rightarrow> u64 list option" where
  "sw_crcs sse i [] m sw_ctx = Some sw_ctx"
| "sw_crcs sse i (op # ops) m sw_ctx =
    Option.bind (buffer_crc sse (crc_seed op) m (crc_src op) (crc_len op))
      (\<lambda>v. if i < length sw_ctx then sw_crcs sse (Suc i) ops m (sw_ctx[i := v]) else None)"

definition SwEngine_Submit :: "bool \<Rightarrow> DataFlowRequest \<Rightarrow> SwEngine \<Rightarrow> (StatusCode \<times> SwEngine) option" where
  "SwEngine_Submit sse req e =
    (case (req_op req, sw_ctxs e (engine_ctx req)) of
       (Some ops, Some sw_ctx) \<Rightarrow>
         if op_count ops = 0 then None
         else (case ops of
             kMove ops \<Rightarrow>
               map_option (\<lambda>(m, c). (kOk, e\<lparr> user_mem := m, sw_ctxs := (sw_ctxs e)(engine_ctx req \<mapsto> c) \<rparr>))
                 (sw_moves sse 0 ops (user_mem e) sw_ctx)
           | kCrc ops \<Rightarrow>
               map_option (\<lambda>c. (kOk, e\<lparr> sw_ctxs := (sw_ctxs e)(engine_ctx req \<mapsto> c) \<rparr>)) (sw_crcs sse 0 ops (user_mem e) sw_ctx)
           | kOtherType n \<Rightarrow> Some (kNotSupported, e))
     | _ \<Rightarrow> None)"

definition SwEngine_CheckCompletion ::
    "DataFlowRequest \<Rightarrow> DataFlowResult \<Rightarrow> SwEngine \<Rightarrow> (DataFlowRequest \<times> DataFlowResult \<times> SwEngine) option" where
  "SwEngine_CheckCompletion req res e =
    (case sw_ctxs e (engine_ctx req) of
       None \<Rightarrow> None
     | Some sw_ctx \<Rightarrow>
         if req_num req \<le> length sw_ctx
         then Some (req\<lparr> completed := True \<rparr>,
                    res\<lparr> result_status := kOk, result_ctx := user_ctx req, crc_output := crc_output res @ take (req_num req) sw_ctx \<rparr>, e)
         else None)"

text \<open>\<open>a\<close> is the address of the new array and \<open>junk\<close> its contents.\<close>

definition SwEngine_PreallocateCtx :: "nat \<times> u64 list \<Rightarrow> DataFlowRequest \<Rightarrow> SwEngine \<Rightarrow> (StatusCode \<times> DataFlowRequest \<times> SwEngine) option" where
  "SwEngine_PreallocateCtx = (\<lambda>(a, junk) item e.
     Some (kOk, item\<lparr> engine_ctx := a \<rparr>, e\<lparr> sw_ctxs := (sw_ctxs e)(a \<mapsto> junk) \<rparr>))"

definition SwEngine_ClearCtx :: "DataFlowRequest \<Rightarrow> SwEngine \<Rightarrow> SwEngine option" where
  "SwEngine_ClearCtx item e =
    (if engine_ctx item \<in> dom (sw_ctxs e) then Some (e\<lparr> sw_ctxs := (sw_ctxs e)(engine_ctx item := None) \<rparr>) else None)"

definition sw_engine :: "bool \<Rightarrow> (nat \<times> u64 list, SwEngine) DataFlowEngine" where
  "sw_engine sse = \<lparr> vSubmit = SwEngine_Submit sse, vCheckCompletion = SwEngine_CheckCompletion,
     vPreallocateCtx = SwEngine_PreallocateCtx, vClearCtx = SwEngine_ClearCtx \<rparr>"

section \<open>The engine keeps its contract\<close>

definition sw_einv :: "SwEngine \<Rightarrow> (nat \<rightharpoonup> nat) \<Rightarrow> nat set \<Rightarrow> bool" where
  "sw_einv e busy idle \<longleftrightarrow> dom (sw_ctxs e) = dom busy \<union> idle \<and> dom busy \<inter> idle = {}
     \<and> (\<forall>a c. sw_ctxs e a = Some c \<longrightarrow> length c = kMaxSubmittedBatchSize)
     \<and> (\<forall>a n. busy a = Some n \<longrightarrow> n \<le> kMaxSubmittedBatchSize)"

definition sw_fresh :: "nat \<times> u64 list \<Rightarrow> SwEngine \<Rightarrow> bool" where
  "sw_fresh x e \<longleftrightarrow> fst x \<notin> dom (sw_ctxs e) \<and> length (snd x) = kMaxSubmittedBatchSize"

definition sw_env :: "SwEngine \<Rightarrow> SwEngine \<Rightarrow> bool" where
  "sw_env e e' \<longleftrightarrow> sw_ctxs e' = sw_ctxs e"

lemma sw_moves_length: "sw_moves sse i ops m c = Some (m', c') \<Longrightarrow> length c' = length c"
  by (induction sse i ops m c rule: sw_moves.induct) (auto split: bind_splits if_splits)

lemma sw_crcs_length: "sw_crcs sse i ops m c = Some c' \<Longrightarrow> length c' = length c"
  by (induction sse i ops m c rule: sw_crcs.induct) (auto split: bind_splits if_splits)

lemma SwEngine_Submit_ctxs:
  assumes "SwEngine_Submit sse r e = Some (st, e')"
  shows "\<exists>c c'. sw_ctxs e (engine_ctx r) = Some c \<and> length c' = length c \<and> sw_ctxs e' = (sw_ctxs e)(engine_ctx r \<mapsto> c')"
proof -
  obtain ops c where c: "req_op r = Some ops" "sw_ctxs e (engine_ctx r) = Some c"
    using assms by (auto simp: SwEngine_Submit_def split: option.splits)
  have "\<exists>c'. length c' = length c \<and> sw_ctxs e' = (sw_ctxs e)(engine_ctx r \<mapsto> c')"
    using assms c by (cases ops) (auto simp: SwEngine_Submit_def map_upd_triv dest: sw_moves_length sw_crcs_length split: if_splits intro: exI [of _ c])
  then show ?thesis
    using c(2) by blast
qed

interpretation sw: flow_engine "sw_engine sse" sw_einv sw_fresh sw_env
  for sse
proof
  show "sw_einv e' busy idle" if "sw_einv e busy idle" "sw_env e e'" for e e' busy idle
    using that by (simp add: sw_einv_def sw_env_def)
  show "if st = kOk then sw_einv e' (busy(engine_ctx r \<mapsto> req_num r)) (idle - {engine_ctx r}) else sw_einv e' busy idle"
    if a: "sw_einv e busy idle" "engine_ctx r \<in> idle" "req_num r = op_count ops" "vSubmit (sw_engine sse) r e = Some (st, e')" "valid_ops ops"
    for e busy idle and r :: DataFlowRequest and st e' ops
  proof -
    obtain c c' where "sw_ctxs e (engine_ctx r) = Some c" "length c' = length c" "sw_ctxs e' = (sw_ctxs e)(engine_ctx r \<mapsto> c')"
      using SwEngine_Submit_ctxs [of sse r e st e'] a(4) by (auto simp: sw_engine_def)
    then show ?thesis
      using a(1-3) valid_ops_count [OF a(5)] by (auto simp: sw_einv_def)
  qed
  show "\<exists>r' res' e'. vCheckCompletion (sw_engine sse) r res e = Some (r', res', e') \<and> r' = r\<lparr> completed := completed r' \<rparr>
      \<and> (if completed r' then result_ctx res' = user_ctx r \<and> sw_einv e' (busy(engine_ctx r := None)) (insert (engine_ctx r) idle)
         else res' = res \<and> sw_einv e' busy idle)"
    if a: "sw_einv e busy idle" "busy (engine_ctx r) = Some (req_num r)"
    for e busy idle and r :: DataFlowRequest and res
  proof -
    have "engine_ctx r \<in> dom (sw_ctxs e)"
      using a by (auto simp: sw_einv_def)
    then obtain c where "sw_ctxs e (engine_ctx r) = Some c"
      by blast
    moreover have "length c = kMaxSubmittedBatchSize" "req_num r \<le> kMaxSubmittedBatchSize" if "sw_ctxs e (engine_ctx r) = Some c" for c
      using that a by (auto simp: sw_einv_def)
    ultimately show ?thesis
      using a by (auto simp: sw_einv_def sw_engine_def SwEngine_CheckCompletion_def)
  qed
  show "\<exists>st r' e'. vPreallocateCtx (sw_engine sse) a r e = Some (st, r', e')
      \<and> (if st = kOk then r' = r\<lparr> engine_ctx := engine_ctx r' \<rparr> \<and> engine_ctx r' \<notin> dom busy \<union> idle \<and> sw_einv e' busy (insert (engine_ctx r') idle)
         else sw_einv e' busy idle)"
    if "sw_einv e busy idle" "sw_fresh a e" for e busy idle a and r :: DataFlowRequest
    using that by (cases a) (auto simp: sw_einv_def sw_fresh_def sw_engine_def SwEngine_PreallocateCtx_def)
  show "\<exists>e'. vClearCtx (sw_engine sse) r e = Some e' \<and> sw_einv e' busy (idle - {engine_ctx r})"
    if "sw_einv e busy idle" "engine_ctx r \<in> idle" for e busy idle and r :: DataFlowRequest
    using that by (auto simp: sw_einv_def sw_engine_def SwEngine_ClearCtx_def)
  show "dom busy \<inter> idle = {}" if "sw_einv e busy idle" for e busy idle
    using that by (simp add: sw_einv_def)
qed

section \<open>What a batch of moves computes\<close>

definition region :: "u64 \<Rightarrow> nat \<Rightarrow> u64 set" where
  "region a n = (\<lambda>k. a + of_nat k) ` {..<n}"

definition contents :: "memory \<Rightarrow> u64 \<Rightarrow> nat \<Rightarrow> u8 list" where
  "contents m a n = map (\<lambda>k. the (m (a + of_nat k))) [0..<n]"

lemma region_0 [simp]: "region a 0 = {}"
  by (simp add: region_def)

lemma region_Suc: "region a (Suc n) = insert a (region (a + 1) n)"
  unfolding region_def lessThan_Suc_eq_insert_0 image_insert image_image by (simp add: add.assoc)

lemma region_add: "region a (n + k) = region a n \<union> region (a + of_nat n) k"
  by (induction n arbitrary: a) (simp_all add: region_Suc add.assoc)

lemma contents_0 [simp]: "contents m a 0 = []"
  by (simp add: contents_def)

lemma contents_Suc: "contents m a (Suc n) = the (m a) # contents m (a + 1) n"
  unfolding contents_def upt_conv_Cons [OF zero_less_Suc] list.map map_Suc_upt [symmetric] map_map comp_def by (simp add: add.assoc)

lemma contents_add: "contents m a (n + k) = contents m a n @ contents m (a + of_nat n) k"
  by (induction n arbitrary: a) (simp_all add: contents_Suc add.assoc)

lemma length_contents [simp]: "length (contents m a n) = n"
  by (simp add: contents_def)

lemma contents_cong: "(\<And>x. x \<in> region a n \<Longrightarrow> m x = m' x) \<Longrightarrow> contents m a n = contents m' a n"
  by (auto simp: contents_def region_def)

lemma read_bytes_contents: "region a n \<subseteq> dom m \<Longrightarrow> read_bytes m a n = Some (contents m a n)"
  by (induction n arbitrary: a) (auto simp: region_Suc contents_Suc)

lemma region_no_wrap: "n < 2 ^ 64 \<Longrightarrow> a \<notin> region (a + 1) n"
proof
  assume n: "n < 2 ^ 64" and "a \<in> region (a + 1) n"
  then obtain k where k: "k < n" "a = a + 1 + of_nat k"
    by (auto simp: region_def)
  then have "a + of_nat (Suc k) = a + (0 :: u64)"
    by simp
  then have z: "(of_nat (Suc k) :: u64) = 0"
    by (simp only: add_left_cancel)
  have "Suc k < 2 ^ 64"
    using k n by simp
  from unat_of_nat_u64 [OF this] show False
    unfolding z by simp
qed

lemma region_next_disjoint:
  assumes "n + k \<le> 2 ^ 64"
  shows "region a n \<inter> region (a + of_nat n) k = {}"
proof -
  have False if ij: "i < n" "j < k" "a + of_nat i = a + of_nat n + of_nat j" for i j
  proof -
    have e: "(of_nat i :: u64) = of_nat (n + j)"
      using ij(3) by (simp add: add.assoc)
    have "i < 2 ^ 64" "n + j < 2 ^ 64"
      using ij assms by simp_all
    then have "i = n + j"
      using arg_cong [OF e, of unat] unat_of_nat_u64 by metis
    then show False
      using ij(1) by simp
  qed
  then show ?thesis
    by (auto simp: region_def)
qed

lemma write_bytes_ok:
  assumes "region a (length bs) \<subseteq> dom m" "length bs \<le> 2 ^ 64"
  shows "\<exists>m'. write_bytes m a bs = Some m' \<and> dom m' = dom m \<and> contents m' a (length bs) = bs \<and> (\<forall>x. x \<notin> region a (length bs) \<longrightarrow> m' x = m x)"
  using assms
proof (induction bs arbitrary: a m)
  case (Cons b bs)
  have sub: "region (a + 1) (length bs) \<subseteq> dom (m(a \<mapsto> b))" and le: "length bs \<le> 2 ^ 64"
    using Cons.prems by (auto simp: region_Suc)
  obtain m' where m': "write_bytes (m(a \<mapsto> b)) (a + 1) bs = Some m'" "dom m' = dom (m(a \<mapsto> b))"
    "contents m' (a + 1) (length bs) = bs" "\<forall>x. x \<notin> region (a + 1) (length bs) \<longrightarrow> m' x = (m(a \<mapsto> b)) x"
    using Cons.IH [OF sub le] by blast
  have "a \<notin> region (a + 1) (length bs)"
    using Cons.prems(2) by (intro region_no_wrap) simp
  then have "m' a = Some b"
    using m'(4) by simp
  moreover have "a \<in> dom m"
    using Cons.prems(1) by (simp add: region_Suc)
  ultimately show ?case
    using m' by (auto simp: region_Suc contents_Suc domIff)
qed simp

lemma memmove_ok:
  assumes "region s (unat l) \<subseteq> dom m" "region d (unat l) \<subseteq> dom m"
  shows "\<exists>m'. memmove m d s l = Some m' \<and> dom m' = dom m \<and> contents m' d (unat l) = contents m s (unat l)
    \<and> (\<forall>x. x \<notin> region d (unat l) \<longrightarrow> m' x = m x)"
  using write_bytes_ok [of d "contents m s (unat l)" m] assms unat_u64_less [of l]
  by (auto simp: memmove_def read_bytes_contents)

text \<open>The bytes an operation merges, and the conditions under which a batch of moves is well placed: every buffer is
  mapped, and no destination overlaps a source or another destination.\<close>

definition sources :: "u64 list \<Rightarrow> u64 list \<Rightarrow> u64 set" where
  "sources ss ls = (\<Union>(s, l) \<in> set (zip ss ls). region s (unat l))"

definition merged :: "memory \<Rightarrow> u64 list \<Rightarrow> u64 list \<Rightarrow> u8 list" where
  "merged m ss ls = concat (map (\<lambda>(s, l). contents m s (unat l)) (zip ss ls))"

definition target :: "DataFlowMoveOperation \<Rightarrow> u64 set" where
  "target op = region (dst op) (total_len (src_len op))"

definition well_placed :: "u64 set \<Rightarrow> DataFlowMoveOperation list \<Rightarrow> bool" where
  "well_placed D ops \<longleftrightarrow>
    (\<forall>op \<in> set ops. length (src op) = length (src_len op) \<and> total_len (src_len op) < 2 ^ 64
       \<and> target op \<subseteq> D \<and> sources (src op) (src_len op) \<subseteq> D
       \<and> (\<forall>op' \<in> set ops. target op \<inter> sources (src op') (src_len op') = {}))
    \<and> sorted_wrt (\<lambda>op op'. target op \<inter> target op' = {}) ops"

lemma sources_simps [simp]: "sources [] ls = {}" "sources (s # ss) (l # ls) = region s (unat l) \<union> sources ss ls"
  by (auto simp: sources_def)

lemma merged_simps [simp]: "merged m [] ls = []" "merged m (s # ss) (l # ls) = contents m s (unat l) @ merged m ss ls"
  by (simp_all add: merged_def)

lemma total_len_simps [simp]: "total_len [] = 0" "total_len (l # ls) = unat l + total_len ls"
  by (simp_all add: total_len_def)

lemma merged_cong: "(\<And>x. x \<in> sources ss ls \<Longrightarrow> m x = m' x) \<Longrightarrow> merged m ss ls = merged m' ss ls"
proof (induction ss arbitrary: ls)
  case (Cons s ss)
  show ?case
  proof (cases ls)
    case (Cons l ls')
    then have "contents m s (unat l) = contents m' s (unat l)"
      using Cons.prems by (intro contents_cong) auto
    then show ?thesis
      using Cons.IH [of ls'] Cons.prems Cons by auto
  qed (simp add: merged_def)
qed simp

lemma move_segments_ok:
  assumes "length ss = length ls" "unat off + total_len ls < 2 ^ 64" "sources ss ls \<subseteq> dom m" "region (d + off) (total_len ls) \<subseteq> dom m"
    "region (d + off) (total_len ls) \<inter> sources ss ls = {}"
  shows "\<exists>m'. move_segments m d off ss ls = Some (off + of_nat (total_len ls), m') \<and> dom m' = dom m
    \<and> contents m' (d + off) (total_len ls) = merged m ss ls \<and> (\<forall>x. x \<notin> region (d + off) (total_len ls) \<longrightarrow> m' x = m x)"
  using assms
proof (induction ss ls arbitrary: m off rule: list_induct2)
  case (Cons s ss l ls)
  have r: "region (d + off) (total_len (l # ls)) = region (d + off) (unat l) \<union> region (d + (off + l)) (total_len ls)"
    by (simp add: region_add add.assoc)
  obtain m1 where m1: "memmove m (d + off) s l = Some m1" "dom m1 = dom m" "contents m1 (d + off) (unat l) = contents m s (unat l)"
    "\<forall>x. x \<notin> region (d + off) (unat l) \<longrightarrow> m1 x = m x"
    using memmove_ok [of s l m "d + off"] Cons.prems r by auto
  have off: "unat (off + l) + total_len ls < 2 ^ 64" "off + l + of_nat (total_len ls) = off + of_nat (total_len (l # ls))"
    using Cons.prems unat_add_u64 [of off l] by (simp_all add: add.assoc)
  have pre: "sources ss ls \<subseteq> dom m1" "region (d + (off + l)) (total_len ls) \<subseteq> dom m1" "region (d + (off + l)) (total_len ls) \<inter> sources ss ls = {}"
    using Cons.prems m1(2) unfolding r by auto
  obtain m' where m': "move_segments m1 d (off + l) ss ls = Some (off + l + of_nat (total_len ls), m')" "dom m' = dom m1"
    "contents m' (d + (off + l)) (total_len ls) = merged m1 ss ls" "\<forall>x. x \<notin> region (d + (off + l)) (total_len ls) \<longrightarrow> m' x = m1 x"
    using Cons.IH [OF off(1) pre] by blast
  have "merged m1 ss ls = merged m ss ls"
    using m1(4) Cons.prems unfolding r by (intro merged_cong) auto
  moreover have "contents m' (d + off) (unat l) = contents m1 (d + off) (unat l)"
  proof -
    have "unat l + total_len ls \<le> 2 ^ 64"
      using Cons.prems(1) by simp
    then have "region (d + off) (unat l) \<inter> region (d + (off + l)) (total_len ls) = {}"
      using region_next_disjoint [of "unat l" "total_len ls" "d + off"] by (simp add: add.assoc)
    then show ?thesis
      using m'(4) by (intro contents_cong) blast
  qed
  ultimately show ?case
    using m1 m' off(2) unfolding r by (auto simp: contents_add add.assoc)
qed simp

definition crc_of :: "memory \<Rightarrow> DataFlowMoveOperation \<Rightarrow> u64" where
  "crc_of m op = (if enable_crc op then ucast (crc32c (ucast (seed op)) (merged m (src op) (src_len op))) else 0)"

lemma buffer_crc_ok:
  assumes "region a (unat len) \<subseteq> dom m"
  shows "buffer_crc True sd m a len = Some (ucast (crc32c (ucast sd) (contents m a (unat len))))"
  using assms by (simp add: buffer_crc_def read_bytes_contents ComputeCRC32_def Get_ComputeCRC32_Impl_def ComputeCRC32_Accelerate_eq)

lemma well_placed_Cons:
  assumes "well_placed D (op # ops)"
  shows "well_placed D ops" "length (src op) = length (src_len op)" "total_len (src_len op) < 2 ^ 64" "target op \<subseteq> D"
    "sources (src op) (src_len op) \<subseteq> D" "target op \<inter> sources (src op) (src_len op) = {}"
    "op' \<in> set ops \<Longrightarrow> target op \<inter> sources (src op') (src_len op') = {} \<and> target op \<inter> target op' = {}"
  using assms by (auto simp: well_placed_def)

lemma move_then_crc:
  assumes wp: "well_placed (dom m) (op # ops)"
  shows "\<exists>off m'. move_segments m (dst op) 0 (src op) (src_len op) = Some (off, m') \<and> dom m' = dom m
    \<and> (if enable_crc op then buffer_crc True (seed op) m' (dst op) off else Some 0) = Some (crc_of m op)
    \<and> contents m' (dst op) (total_len (src_len op)) = merged m (src op) (src_len op) \<and> (\<forall>x. x \<notin> target op \<longrightarrow> m' x = m x)"
proof -
  note w = well_placed_Cons [OF wp]
  obtain m' where m': "move_segments m (dst op) 0 (src op) (src_len op) = Some (of_nat (total_len (src_len op)), m')" "dom m' = dom m"
    "contents m' (dst op) (total_len (src_len op)) = merged m (src op) (src_len op)" "\<forall>x. x \<notin> target op \<longrightarrow> m' x = m x"
    using move_segments_ok [of "src op" "src_len op" 0 m "dst op"] w(2-6) by (auto simp: target_def)
  have u: "unat (of_nat (total_len (src_len op)) :: u64) = total_len (src_len op)"
    by (rule unat_of_nat_u64 [OF w(3)])
  have "buffer_crc True (seed op) m' (dst op) (of_nat (total_len (src_len op)))
      = Some (ucast (crc32c (ucast (seed op)) (merged m (src op) (src_len op))))"
    using buffer_crc_ok [of "dst op" "of_nat (total_len (src_len op))" m' "seed op"] w(4) m'(2,3) unfolding u target_def by simp
  then show ?thesis
    using m' by (auto simp: crc_of_def)
qed

lemma sw_moves_ok:
  assumes "well_placed (dom m) ops" "i + length ops \<le> length c"
  shows "\<exists>m'. sw_moves True i ops m c = Some (m', take i c @ map (crc_of m) ops @ drop (i + length ops) c) \<and> dom m' = dom m
    \<and> (\<forall>op \<in> set ops. contents m' (dst op) (total_len (src_len op)) = merged m (src op) (src_len op))
    \<and> (\<forall>x. x \<notin> \<Union> (target ` set ops) \<longrightarrow> m' x = m x)"
  using assms
proof (induction ops arbitrary: m i c)
  case (Cons op ops)
  note w = well_placed_Cons [OF Cons.prems(1)]
  obtain off m1 where m1: "move_segments m (dst op) 0 (src op) (src_len op) = Some (off, m1)" "dom m1 = dom m"
    "(if enable_crc op then buffer_crc True (seed op) m1 (dst op) off else Some 0) = Some (crc_of m op)"
    "contents m1 (dst op) (total_len (src_len op)) = merged m (src op) (src_len op)" "\<forall>x. x \<notin> target op \<longrightarrow> m1 x = m x"
    using move_then_crc [OF Cons.prems(1)] by blast
  let ?c = "c[i := crc_of m op]"
  have same: "merged m1 (src op') (src_len op') = merged m (src op') (src_len op')" if "op' \<in> set ops" for op'
    using w(7) [OF that] m1(5) by (intro merged_cong) auto
  then have crcs: "map (crc_of m1) ops = map (crc_of m) ops"
    by (simp add: crc_of_def)
  have wp: "well_placed (dom m1) ops" and le: "Suc i + length ops \<le> length ?c"
    using w(1) m1(2) Cons.prems(2) by simp_all
  obtain m' where m': "sw_moves True (Suc i) ops m1 ?c = Some (m', take (Suc i) ?c @ map (crc_of m1) ops @ drop (Suc i + length ops) ?c)"
    "dom m' = dom m1" "\<forall>op \<in> set ops. contents m' (dst op) (total_len (src_len op)) = merged m1 (src op) (src_len op)"
    "\<forall>x. x \<notin> \<Union> (target ` set ops) \<longrightarrow> m' x = m1 x"
    using Cons.IH [OF wp le] by blast
  have "contents m' (dst op) (total_len (src_len op)) = contents m1 (dst op) (total_len (src_len op))"
    using m'(4) w(7) by (intro contents_cong) (fastforce simp: target_def)
  moreover have "take (Suc i) ?c @ map (crc_of m1) ops @ drop (Suc i + length ops) ?c = take i c @ map (crc_of m) (op # ops) @ drop (i + length (op # ops)) c"
    using Cons.prems(2) by (simp add: crcs take_Suc_conv_app_nth)
  moreover have "sw_moves True i (op # ops) m c = sw_moves True (Suc i) ops m1 ?c"
    using m1(1,3) Cons.prems(2) by simp
  ultimately show ?case
    using m1 m' same by auto
qed simp

text \<open>C9: Submitting a batch of well placed moves succeeds; afterwards every destination holds the concatenation of its
  source segments, nothing else has changed, and checking completion completes the request and appends to the result, for
  every operation in order, the CRC-32C of the merged data, or 0 when no checksum was asked for.\<close>

theorem sw_batch_correct:
  assumes "well_placed (dom (user_mem e)) ops" "ops \<noteq> []" "length ops \<le> kMaxSubmittedBatchSize"
    and "req_op r = Some (kMove ops)" "req_num r = length ops"
    and "sw_ctxs e (engine_ctx r) = Some c" "length c = kMaxSubmittedBatchSize"
  shows "\<exists>e'. SwEngine_Submit True r e = Some (kOk, e')
    \<and> (\<forall>op \<in> set ops. contents (user_mem e') (dst op) (total_len (src_len op)) = merged (user_mem e) (src op) (src_len op))
    \<and> (\<forall>x. x \<notin> \<Union> (target ` set ops) \<longrightarrow> user_mem e' x = user_mem e x)
    \<and> SwEngine_CheckCompletion r res e' =
        Some (r\<lparr> completed := True \<rparr>,
              res\<lparr> result_status := kOk, result_ctx := user_ctx r, crc_output := crc_output res @ map (crc_of (user_mem e)) ops \<rparr>, e')"
proof -
  have "0 + length ops \<le> length c"
    using assms(3,7) by simp
  from sw_moves_ok [OF assms(1) this] obtain m' where m': "sw_moves True 0 ops (user_mem e) c = Some (m', map (crc_of (user_mem e)) ops @ drop (length ops) c)"
    "\<forall>op \<in> set ops. contents m' (dst op) (total_len (src_len op)) = merged (user_mem e) (src op) (src_len op)"
    "\<forall>x. x \<notin> \<Union> (target ` set ops) \<longrightarrow> m' x = user_mem e x"
    by auto
  then show ?thesis
    using assms(2-7) by (auto simp: SwEngine_Submit_def SwEngine_CheckCompletion_def)
qed

theorem sw_batch_correct_witness:
  "\<exists>e e'. SwEngine_Submit True
      \<lparr> req_op = Some (kMove [\<lparr> src = [10, 20], src_len = [2, 1], dst = 30, seed = 0, enable_crc = True \<rparr>]), req_num = 1,
        schedule_hint = 0, completed = False, expired = False, timer_ctx = None, engine_ctx = 4, user_ctx = 9,
        move_data_size = 3, crc_data_size = 3 \<rparr> e = Some (kOk, e')
    \<and> contents (user_mem e') 30 3 = [10, 11, 20]"
proof -
  let ?op = "\<lparr> src = [10, 20], src_len = [2, 1], dst = 30, seed = 0, enable_crc = True \<rparr>"
  let ?r = "\<lparr> req_op = Some (kMove [?op]), req_num = 1,
        schedule_hint = 0, completed = False, expired = False, timer_ctx = None, engine_ctx = 4, user_ctx = 9,
        move_data_size = 3, crc_data_size = 3 \<rparr>"
  let ?e = "\<lparr> user_mem = \<lambda>a. Some (ucast a), sw_ctxs = [4 \<mapsto> replicate kMaxSubmittedBatchSize 0] \<rparr>"
  have r: "region a (Suc 0) = {a}" "region a 2 = {a, a + 1}" "region a 3 = {a, a + 1, a + 1 + 1}"
      "contents f a (Suc 0) = [the (f a)]" "contents f a 2 = [the (f a), the (f (a + 1))]" for a f
    unfolding numeral_2_eq_2 numeral_3_eq_3 by (simp_all add: region_Suc contents_Suc)
  have m: "merged (user_mem ?e) [10, 20] [2, 1] = [10, 11, 20]"
    by (simp add: r)
  have "well_placed (dom (user_mem ?e)) [?op]"
    by (simp add: well_placed_def target_def r)
  moreover have "length (replicate kMaxSubmittedBatchSize (0 :: u64)) = kMaxSubmittedBatchSize" "sw_ctxs ?e 4 = Some (replicate kMaxSubmittedBatchSize 0)"
    "length [?op] \<le> kMaxSubmittedBatchSize"
    by (simp_all only: length_replicate SwEngine.simps fun_upd_same, simp add: kMaxSubmittedBatchSize_def)
  ultimately obtain e' where "SwEngine_Submit True ?r ?e = Some (kOk, e')" "contents (user_mem e') 30 (total_len [2, 1]) = merged (user_mem ?e) [10, 20] [2, 1]"
    using sw_batch_correct [of ?e "[?op]" ?r "replicate kMaxSubmittedBatchSize 0" "\<lparr> result_status = kOk, crc_output = [], result_ctx = 0 \<rparr>"]
    by auto
  moreover have "total_len [2, 1] = 3"
    by simp
  ultimately show ?thesis
    unfolding m by metis
qed

end
