(* ===== verification/Dsa_Ctx.thy ===== *)
theory Dsa_Ctx
  imports Data_Flow Address_Manager
begin

text \<open>The descriptors the DSA engine writes for a batch: \<^verbatim>\<open>src/src/data_flow/dsa/dsa_ctx_factory.{h,cc}\<close> and the functions
  that fill descriptors, \<^verbatim>\<open>src/dsa-uio-config/dsa_uio_config.c\<close>.  Descriptors and completion records live in memory
  chunks of the memory pool: \<open>desc_mem\<close> and \<open>rec_mem\<close> map the address of each slot to its contents, and an access
  outside a chunk is \<open>None\<close>.  The chunks the pool allocates are arguments.  The translation of addresses during one call
  is the record \<open>translation\<close>, which \<open>am_translation\<close> takes from the address manager.\<close>

unbundle bit_operations_syntax

section \<open>Descriptors\<close>

record translation =
  look_up :: "u64 \<Rightarrow> u64"
  look_up_len :: "u64 \<Rightarrow> u64 \<Rightarrow> u64"

definition am_translation :: "AddressManager \<Rightarrow> translation" where
  "am_translation am = \<lparr> look_up = \<lambda>v. fst (GetPhysAddr v am), look_up_len = \<lambda>v n. fst (LookUpAddrIfNotAcrossBound v n am) \<rparr>"

definition kDsaHwDescSize :: u64 where "kDsaHwDescSize = 64"
definition kDsaCompletionRecordSize :: u64 where "kDsaCompletionRecordSize = 32"

datatype dsa_opcode = DSA_OPCODE_NOOP | DSA_OPCODE_BATCH | DSA_OPCODE_MEMMOVE | DSA_OPCODE_CRCGEN | DSA_OPCODE_COPY_CRC

definition IDXD_OP_FLAG_FENCE :: u32 where "IDXD_OP_FLAG_FENCE = 0x0001"
definition IDXD_OP_FLAG_CRAV :: u32 where "IDXD_OP_FLAG_CRAV = 0x0004"
definition IDXD_OP_FLAG_RCR :: u32 where "IDXD_OP_FLAG_RCR = 0x0008"
definition IDXD_OP_FLAG_CC :: u32 where "IDXD_OP_FLAG_CC = 0x0100"

text \<open>The fields the code uses; \<open>src_addr\<close> shares its place with \<^verbatim>\<open>desc_list_addr\<close> and \<open>xfer_size\<close> with \<^verbatim>\<open>desc_count\<close>.\<close>

record dsa_hw_desc =
  desc_flags :: u32
  opcode :: dsa_opcode
  completion_addr :: u64
  src_addr :: u64
  dst_addr :: u64
  xfer_size :: u32
  desc_crc_seed :: u32

definition zero_desc :: dsa_hw_desc where
  "zero_desc = \<lparr> desc_flags = 0, opcode = DSA_OPCODE_NOOP, completion_addr = 0, src_addr = 0, dst_addr = 0, xfer_size = 0, desc_crc_seed = 0 \<rparr>"

record dsa_completion_record =
  rec_status :: u8
  crc_val :: u64

definition DSA_COMP_NONE :: u8 where "DSA_COMP_NONE = 0"
definition DSA_COMP_SUCCESS :: u8 where "DSA_COMP_SUCCESS = 1"

type_synonym desc_memory = "u64 \<rightharpoonup> dsa_hw_desc"
type_synonym rec_memory = "u64 \<rightharpoonup> dsa_completion_record"

definition put_desc :: "u64 \<Rightarrow> (dsa_hw_desc \<Rightarrow> dsa_hw_desc) \<Rightarrow> desc_memory \<Rightarrow> desc_memory option" where
  "put_desc a f m = (case m a of None \<Rightarrow> None | Some d \<Rightarrow> Some (m(a \<mapsto> f d)))"

definition FillBatch :: "u64 \<Rightarrow> nat \<Rightarrow> u64 \<Rightarrow> u64 \<Rightarrow> desc_memory \<Rightarrow> desc_memory option" where
  "FillBatch desc desc_list_size desc_list_addr cr =
    put_desc desc (\<lambda>d. d\<lparr> opcode := DSA_OPCODE_BATCH, desc_flags := IDXD_OP_FLAG_RCR OR IDXD_OP_FLAG_CRAV,
      xfer_size := of_nat desc_list_size, src_addr := desc_list_addr, completion_addr := cr \<rparr>)"

definition FillCrc :: "u64 \<Rightarrow> u64 \<Rightarrow> u64 \<Rightarrow> u32 \<Rightarrow> u64 \<Rightarrow> desc_memory \<Rightarrow> desc_memory option" where
  "FillCrc desc s len sd cr =
    put_desc desc (\<lambda>d. d\<lparr> opcode := DSA_OPCODE_CRCGEN, desc_flags := IDXD_OP_FLAG_RCR OR IDXD_OP_FLAG_CRAV,
      xfer_size := ucast len, src_addr := s, desc_crc_seed := sd, completion_addr := cr \<rparr>)"

definition FillCopy :: "u64 \<Rightarrow> u64 \<Rightarrow> u64 \<Rightarrow> u64 \<Rightarrow> u64 \<Rightarrow> desc_memory \<Rightarrow> desc_memory option" where
  "FillCopy desc s len d cr =
    put_desc desc (\<lambda>x. x\<lparr> opcode := DSA_OPCODE_MEMMOVE, desc_flags := IDXD_OP_FLAG_RCR OR IDXD_OP_FLAG_CRAV OR IDXD_OP_FLAG_CC,
      xfer_size := ucast len, src_addr := s, dst_addr := d, completion_addr := cr \<rparr>)"

definition FillCopyWithCrc :: "u64 \<Rightarrow> u64 \<Rightarrow> u64 \<Rightarrow> u64 \<Rightarrow> u32 \<Rightarrow> u64 \<Rightarrow> desc_memory \<Rightarrow> desc_memory option" where
  "FillCopyWithCrc desc s len d sd cr =
    put_desc desc (\<lambda>x. x\<lparr> opcode := DSA_OPCODE_COPY_CRC, desc_flags := IDXD_OP_FLAG_RCR OR IDXD_OP_FLAG_CRAV OR IDXD_OP_FLAG_CC,
      xfer_size := ucast len, src_addr := s, dst_addr := d, desc_crc_seed := sd, completion_addr := cr \<rparr>)"

definition FillFence :: "u64 \<Rightarrow> u64 \<Rightarrow> desc_memory \<Rightarrow> desc_memory option" where
  "FillFence desc cr =
    put_desc desc (\<lambda>d. d\<lparr> opcode := DSA_OPCODE_NOOP, desc_flags := IDXD_OP_FLAG_RCR OR IDXD_OP_FLAG_CRAV OR IDXD_OP_FLAG_FENCE,
      completion_addr := cr \<rparr>)"

section \<open>Contexts\<close>

record DsaCtx =
  desc_memory_chunk :: u64
  dsa_hw_descs :: u64
  dsa_hw_descs_phys :: u64
  completion_record_memory_chunk :: u64
  dsa_completion_records :: u64
  dsa_completion_records_phys :: u64
  desc_num :: nat
  crc_results :: "u64 list"
  work_queue :: "nat option"

text \<open>The addresses of descriptor or record \<open>k\<close>.\<close>

definition desc_at :: "DsaCtx \<Rightarrow> nat \<Rightarrow> u64" where
  "desc_at c k = dsa_hw_descs c + of_nat k * kDsaHwDescSize"

definition rec_at :: "DsaCtx \<Rightarrow> nat \<Rightarrow> u64" where
  "rec_at c k = dsa_completion_records c + of_nat k * kDsaCompletionRecordSize"

definition rec_phys_at :: "DsaCtx \<Rightarrow> nat \<Rightarrow> u64" where
  "rec_phys_at c k = dsa_completion_records_phys c + of_nat k * kDsaCompletionRecordSize"

definition VESAL_CRC_REVISE :: "u64 \<Rightarrow> u64" where
  "VESAL_CRC_REVISE x = NOT x"

definition GetNextAlignedAddress :: "u64 \<Rightarrow> u64 \<Rightarrow> u64 option" where
  "GetNextAlignedAddress addr alignment =
    (if unat alignment mod 2 = 0 then Some ((addr + alignment - 1) AND NOT (alignment - 1)) else None)"

definition ResetCtx :: "DsaCtx \<Rightarrow> desc_memory \<times> rec_memory \<Rightarrow> (desc_memory \<times> rec_memory) option" where
  "ResetCtx c = (\<lambda>(dm, rm).
     if (\<forall>k < desc_num c. dm (desc_at c k) \<noteq> None) \<and> rm (dsa_completion_records c) \<noteq> None
     then Some (foldl (\<lambda>m k. m(desc_at c k \<mapsto> zero_desc)) dm [0..<desc_num c],
                rm(dsa_completion_records c \<mapsto> \<lparr> rec_status = 0, crc_val = 0 \<rparr>))
     else None)"

definition FillCopyMaybeWithCrc :: "u64 \<Rightarrow> u64 \<Rightarrow> u64 \<Rightarrow> u64 \<Rightarrow> u64 \<Rightarrow> bool \<Rightarrow> u64 \<Rightarrow> u64 \<Rightarrow> desc_memory \<Rightarrow> (u64 \<times> desc_memory) option" where
  "FillCopyMaybeWithCrc desc s len d sd crc cr_phys cr m =
    (if crc then map_option (Pair cr) (FillCopyWithCrc desc s len d (ucast sd) cr_phys m)
     else map_option (Pair 0) (FillCopy desc s len d cr_phys m))"

definition IsNoOverlap :: "u64 \<Rightarrow> u64 \<Rightarrow> u64 \<Rightarrow> bool" where
  "IsNoOverlap s d sz \<longleftrightarrow> s + sz \<le> d \<or> d + sz \<le> s"

definition IsCopyWithCrcOk :: "DataFlowMoveOperation \<Rightarrow> bool" where
  "IsCopyWithCrcOk op \<longleftrightarrow> length (src op) = 1 \<and> IsNoOverlap (hd (src op)) (dst op) (hd (src_len op))"

section \<open>Building the descriptors of a batch\<close>

text \<open>The loops of \<^verbatim>\<open>BuildMoveCtx\<close>: over the segments of an operation, over the operations, and over the checksums that
  need a descriptor of their own.  \<open>crs\<close> is \<^verbatim>\<open>crc_results\<close>; the sums of the lengths are returned as a list.\<close>

fun copy_segments :: "translation \<Rightarrow> DsaCtx \<Rightarrow> DataFlowMoveOperation \<Rightarrow> u64 \<Rightarrow> u64 list \<Rightarrow> u64 list \<Rightarrow> nat \<Rightarrow> u64 \<Rightarrow> u64 \<Rightarrow> desc_memory \<Rightarrow>
    (StatusCode \<times> nat \<times> u64 \<times> u64 \<times> desc_memory) option" where
  "copy_segments tr c op dst_phys [] lens desc_offset len_sum cr m = Some (kOk, desc_offset, len_sum, cr, m)"
| "copy_segments tr c op dst_phys (s # ss) [] desc_offset len_sum cr m = None"
| "copy_segments tr c op dst_phys (s # ss) (l # ls) desc_offset len_sum cr m =
    (let src_phys = look_up_len tr s l in
     if src_phys = 0 then Some (kBadData, desc_offset, len_sum, cr, m)
     else
       (case FillCopyMaybeWithCrc (desc_at c desc_offset) src_phys l (dst_phys + len_sum) (VESAL_CRC_REVISE (seed op))
               (enable_crc op \<and> IsCopyWithCrcOk op) (rec_phys_at c desc_offset) (rec_at c desc_offset) m of
          None \<Rightarrow> None
        | Some (cr', m') \<Rightarrow> copy_segments tr c op dst_phys ss ls (Suc desc_offset) (len_sum + l) cr' m'))"

fun copy_ops :: "translation \<Rightarrow> DsaCtx \<Rightarrow> nat \<Rightarrow> DataFlowMoveOperation list \<Rightarrow> nat \<Rightarrow> u64 list \<Rightarrow> desc_memory \<Rightarrow>
    (StatusCode \<times> nat \<times> u64 list \<times> u64 list \<times> desc_memory) option" where
  "copy_ops tr c i [] desc_offset crs m = Some (kOk, desc_offset, [], crs, m)"
| "copy_ops tr c i (op # ops) desc_offset crs m =
    (let dst_phys = look_up tr (dst op) in
     if dst_phys = 0 then Some (kBadData, desc_offset, [], crs, m)
     else if i \<ge> length crs then None
     else
       (case copy_segments tr c op dst_phys (src op) (src_len op) desc_offset 0 (crs ! i) m of
          None \<Rightarrow> None
        | Some (st, desc_offset', len_sum, cr, m') \<Rightarrow>
            if st \<noteq> kOk then Some (st, desc_offset', [], crs[i := cr], m')
            else if look_up_len tr (dst op) len_sum = 0 then Some (kBadData, desc_offset', [], crs[i := cr], m')
            else map_option (\<lambda>(st, off, sums, crs', m''). (st, off, len_sum # sums, crs', m''))
                   (copy_ops tr c (Suc i) ops desc_offset' (crs[i := cr]) m')))"

definition needs_crc :: "DataFlowMoveOperation \<Rightarrow> bool" where
  "needs_crc op \<longleftrightarrow> enable_crc op \<and> \<not> IsCopyWithCrcOk op"

fun crc_ops :: "translation \<Rightarrow> DsaCtx \<Rightarrow> nat \<Rightarrow> DataFlowMoveOperation list \<Rightarrow> u64 list \<Rightarrow> nat \<Rightarrow> u64 list \<Rightarrow> desc_memory \<Rightarrow>
    (u64 list \<times> desc_memory) option" where
  "crc_ops tr c i (op # ops) (len_sum # sums) desc_offset crs m =
    (if needs_crc op
     then (case FillCrc (desc_at c desc_offset) (look_up tr (dst op)) len_sum (ucast (VESAL_CRC_REVISE (seed op))) (rec_phys_at c desc_offset) m of
             None \<Rightarrow> None
           | Some m' \<Rightarrow> crc_ops tr c (Suc i) ops sums (Suc desc_offset) (crs[i := rec_at c desc_offset]) m')
     else crc_ops tr c (Suc i) ops sums desc_offset crs m)"
| "crc_ops tr c i ops sums desc_offset crs m = Some (crs, m)"

definition one_desc :: "DataFlowMoveOperation list \<Rightarrow> bool" where
  "one_desc ops \<longleftrightarrow> length ops = 1 \<and> length (src (hd ops)) = 1
     \<and> (\<not> enable_crc (hd ops) \<or> IsNoOverlap (hd (src (hd ops))) (dst (hd ops)) (hd (src_len (hd ops))))"

definition move_desc_num :: "DataFlowMoveOperation list \<Rightarrow> nat" where
  "move_desc_num ops =
    (let copy_num = sum_list (map (length \<circ> src) ops); crc_num = length (filter needs_crc ops)
     in 1 + copy_num + crc_num + (if crc_num > 0 then 1 else 0))"

definition BuildMoveCtx :: "translation \<Rightarrow> DataFlowMoveOperation list \<Rightarrow> DsaCtx \<Rightarrow> desc_memory \<times> rec_memory \<Rightarrow>
    (StatusCode \<times> DsaCtx \<times> desc_memory \<times> rec_memory) option" where
  "BuildMoveCtx tr ops ctx mem =
    (if one_desc ops
     then
       let op = hd ops; c = ctx\<lparr> desc_num := 1 \<rparr> in
       (case ResetCtx c mem of
          None \<Rightarrow> None
        | Some (dm, rm) \<Rightarrow>
            let src_phys = look_up_len tr (hd (src op)) (hd (src_len op)); dst_phys = look_up_len tr (dst op) (hd (src_len op)) in
            if src_phys = 0 \<or> dst_phys = 0 then Some (kBadData, c, dm, rm)
            else
              (case FillCopyMaybeWithCrc (dsa_hw_descs c) src_phys (hd (src_len op)) dst_phys (VESAL_CRC_REVISE (seed op)) (enable_crc op)
                      (dsa_completion_records_phys c) (dsa_completion_records c) dm of
                 None \<Rightarrow> None
               | Some (cr, dm') \<Rightarrow> if crc_results c = [] then None else Some (kOk, c\<lparr> crc_results := (crc_results c)[0 := cr] \<rparr>, dm', rm)))
     else
       let c = ctx\<lparr> desc_num := move_desc_num ops \<rparr> in
       (case ResetCtx c mem of
          None \<Rightarrow> None
        | Some (dm, rm) \<Rightarrow>
            (case FillBatch (dsa_hw_descs c) (desc_num c - 1) (dsa_hw_descs_phys c + kDsaHwDescSize) (dsa_completion_records_phys c) dm of
               None \<Rightarrow> None
             | Some dm1 \<Rightarrow>
                 (case copy_ops tr c 0 ops 1 (crc_results c) dm1 of
                    None \<Rightarrow> None
                  | Some (st, desc_offset, sums, crs, dm2) \<Rightarrow>
                      if st \<noteq> kOk then Some (st, c\<lparr> crc_results := crs \<rparr>, dm2, rm)
                      else if filter needs_crc ops = [] then Some (kOk, c\<lparr> crc_results := crs \<rparr>, dm2, rm)
                      else
                        (case FillFence (desc_at c desc_offset) (rec_phys_at c desc_offset) dm2 of
                           None \<Rightarrow> None
                         | Some dm3 \<Rightarrow>
                             map_option (\<lambda>(crs', dm4). (kOk, c\<lparr> crc_results := crs' \<rparr>, dm4, rm))
                               (crc_ops tr c 0 ops sums (Suc desc_offset) crs dm3))))))"

fun crc_loop :: "translation \<Rightarrow> DsaCtx \<Rightarrow> nat \<Rightarrow> DataFlowCrcOperation list \<Rightarrow> u64 list \<Rightarrow> desc_memory \<Rightarrow> (StatusCode \<times> u64 list \<times> desc_memory) option" where
  "crc_loop tr c i [] crs m = Some (kOk, crs, m)"
| "crc_loop tr c i (op # ops) crs m =
    (let src_phys = look_up_len tr (crc_src op) (crc_len op) in
     if src_phys = 0 then Some (kBadData, crs, m)
     else
       (case FillCrc (desc_at c (i + 1)) src_phys (crc_len op) (ucast (VESAL_CRC_REVISE (crc_seed op))) (rec_phys_at c (i + 1)) m of
          None \<Rightarrow> None
        | Some m' \<Rightarrow> if i \<ge> length crs then None else crc_loop tr c (Suc i) ops (crs[i := rec_at c (i + 1)]) m'))"

definition BuildCrcCtx :: "translation \<Rightarrow> DataFlowCrcOperation list \<Rightarrow> DsaCtx \<Rightarrow> desc_memory \<times> rec_memory \<Rightarrow>
    (StatusCode \<times> DsaCtx \<times> desc_memory \<times> rec_memory) option" where
  "BuildCrcCtx tr ops ctx mem =
    (if length ops = 1
     then
       let op = hd ops; c = ctx\<lparr> desc_num := 1 \<rparr> in
       (case ResetCtx c mem of
          None \<Rightarrow> None
        | Some (dm, rm) \<Rightarrow>
            let src_phys = look_up_len tr (crc_src op) (crc_len op) in
            if src_phys = 0 then Some (kBadData, c, dm, rm)
            else
              (case FillCrc (dsa_hw_descs c) src_phys (crc_len op) (ucast (VESAL_CRC_REVISE (crc_seed op))) (dsa_completion_records_phys c) dm of
                 None \<Rightarrow> None
               | Some dm' \<Rightarrow>
                   if crc_results c = [] then None
                   else Some (kOk, c\<lparr> crc_results := (crc_results c)[0 := dsa_completion_records c] \<rparr>, dm', rm)))
     else
       let c = ctx\<lparr> desc_num := length ops + 1 \<rparr> in
       (case ResetCtx c mem of
          None \<Rightarrow> None
        | Some (dm, rm) \<Rightarrow>
            (case FillBatch (dsa_hw_descs c) (desc_num c - 1) (dsa_hw_descs_phys c + kDsaHwDescSize) (dsa_completion_records_phys c) dm of
               None \<Rightarrow> None
             | Some dm1 \<Rightarrow>
                 map_option (\<lambda>(st, crs, dm2). (st, c\<lparr> crc_results := crs \<rparr>, dm2, rm)) (crc_loop tr c 0 ops (crc_results c) dm1))))"

definition BuildCtx :: "translation \<Rightarrow> operations option \<Rightarrow> DsaCtx \<Rightarrow> desc_memory \<times> rec_memory \<Rightarrow>
    (StatusCode \<times> DsaCtx \<times> desc_memory \<times> rec_memory) option" where
  "BuildCtx tr req_ops c mem =
    (case req_ops of
       None \<Rightarrow> None
     | Some ops \<Rightarrow>
         if op_count ops = 0 then None
         else (case ops of
             kMove ops \<Rightarrow> BuildMoveCtx tr ops c mem
           | kCrc ops \<Rightarrow> BuildCrcCtx tr ops c mem
           | kOtherType n \<Rightarrow> Some (kNotSupported, c, mem)))"

section \<open>What is written\<close>

text \<open>\<open>written c xs dm0 dm n\<close>: of the first \<open>n\<close> slots of the context, the first ones hold the descriptors \<open>xs\<close>, each with the
  address of its own completion record, the others are zero, and nothing else has changed.\<close>

definition written :: "DsaCtx \<Rightarrow> dsa_hw_desc list \<Rightarrow> desc_memory \<Rightarrow> desc_memory \<Rightarrow> nat \<Rightarrow> bool" where
  "written c xs dm0 dm n \<longleftrightarrow>
    (\<forall>k < n. dm (desc_at c k) = Some (if k < length xs then (xs ! k)\<lparr> completion_addr := rec_phys_at c k \<rparr> else zero_desc))
    \<and> (\<forall>a. a \<notin> desc_at c ` {..<n} \<longrightarrow> dm a = dm0 a)"

lemma mult_slot_inj:
  fixes z :: u64
  assumes "unat z * i < 2 ^ 64" "unat z * j < 2 ^ 64" "z \<noteq> 0" "a + of_nat i * z = a + of_nat j * z"
  shows "i = j"
proof -
  have z: "z = of_nat (unat z)"
    by simp
  have u: "unat (of_nat k * z) = k * unat z" if "unat z * k < 2 ^ 64" for k
  proof -
    have "of_nat k * z = of_nat (k * unat z)"
      by (subst z) (simp only: of_nat_mult)
    then show ?thesis
      using that by (simp only: unat_of_nat_u64 mult.commute)
  qed
  have "(of_nat i * z :: u64) = of_nat j * z"
    using assms(4) by simp
  then have "i * unat z = j * unat z"
    using u [OF assms(1)] u [OF assms(2)] by metis
  then show ?thesis
    using assms(3) by (simp add: unat_eq_0)
qed

lemma desc_at_inj: "desc_at c i = desc_at c j \<Longrightarrow> i \<le> kMaxInternalBatchSize \<Longrightarrow> j \<le> kMaxInternalBatchSize \<Longrightarrow> i = j"
  unfolding desc_at_def
  by (rule mult_slot_inj [of kDsaHwDescSize]) (simp_all add: kDsaHwDescSize_def kMaxInternalBatchSize_def)

lemma desc_at_inj_on: "n \<le> kMaxInternalBatchSize \<Longrightarrow> inj_on (desc_at c) {..<n}"
  by (intro inj_onI desc_at_inj) simp_all

lemma written_step:
  assumes w: "written c xs dm0 dm n" and n: "length xs < n" "n \<le> kMaxInternalBatchSize"
    and f: "f zero_desc = x\<lparr> completion_addr := rec_phys_at c (length xs) \<rparr>"
  shows "\<exists>dm'. put_desc (desc_at c (length xs)) f dm = Some dm' \<and> written c (xs @ [x]) dm0 dm' n"
proof -
  have z: "dm (desc_at c (length xs)) = Some zero_desc"
    using w n(1) by (simp add: written_def)
  let ?dm = "dm(desc_at c (length xs) \<mapsto> f zero_desc)"
  have "?dm (desc_at c k) = Some (if k < length (xs @ [x]) then ((xs @ [x]) ! k)\<lparr> completion_addr := rec_phys_at c k \<rparr> else zero_desc)" if "k < n" for k
  proof (cases "k = length xs")
    case False
    then have "desc_at c k \<noteq> desc_at c (length xs)"
      using desc_at_inj [of c k "length xs"] that n by auto
    then show ?thesis
      using w that False by (auto simp: written_def nth_append)
  qed (simp add: f)
  moreover have "?dm a = dm0 a" if "a \<notin> desc_at c ` {..<n}" for a
    using w that n(1) by (auto simp: written_def)
  ultimately show ?thesis
    using z by (simp add: put_desc_def written_def)
qed

lemma ResetCtx_written:
  assumes "\<forall>k < desc_num c. dm (desc_at c k) \<noteq> None" "rm (dsa_completion_records c) \<noteq> None"
  shows "\<exists>dm'. ResetCtx c (dm, rm) = Some (dm', rm(dsa_completion_records c \<mapsto> \<lparr> rec_status = 0, crc_val = 0 \<rparr>)) \<and> written c [] dm dm' (desc_num c)"
proof -
  have "foldl (\<lambda>m k. m(desc_at c k \<mapsto> zero_desc)) dm ks a = (if a \<in> desc_at c ` set ks then Some zero_desc else dm a)" for ks a
    by (induction ks rule: rev_induct) auto
  then show ?thesis
    using assms by (auto simp: ResetCtx_def written_def)
qed

section \<open>The layout of a batch\<close>

definition copy_desc :: "translation \<Rightarrow> DataFlowMoveOperation \<Rightarrow> bool \<Rightarrow> u64 \<Rightarrow> u64 \<Rightarrow> u64 \<Rightarrow> dsa_hw_desc" where
  "copy_desc tr op crc d s l = zero_desc\<lparr> opcode := if crc then DSA_OPCODE_COPY_CRC else DSA_OPCODE_MEMMOVE,
     desc_flags := IDXD_OP_FLAG_RCR OR IDXD_OP_FLAG_CRAV OR IDXD_OP_FLAG_CC, xfer_size := ucast l, src_addr := look_up_len tr s l,
     dst_addr := d, desc_crc_seed := if crc then ucast (VESAL_CRC_REVISE (seed op)) else 0 \<rparr>"

fun seg_descs :: "translation \<Rightarrow> DataFlowMoveOperation \<Rightarrow> u64 \<Rightarrow> u64 list \<Rightarrow> u64 list \<Rightarrow> dsa_hw_desc list" where
  "seg_descs tr op d (s # ss) (l # ls) = copy_desc tr op (enable_crc op \<and> IsCopyWithCrcOk op) d s l # seg_descs tr op (d + l) ss ls"
| "seg_descs tr op d ss ls = []"

definition op_descs :: "translation \<Rightarrow> DataFlowMoveOperation \<Rightarrow> dsa_hw_desc list" where
  "op_descs tr op = seg_descs tr op (look_up tr (dst op)) (src op) (src_len op)"

definition crc_desc :: "u64 \<Rightarrow> u64 \<Rightarrow> u64 \<Rightarrow> dsa_hw_desc" where
  "crc_desc s l sd = zero_desc\<lparr> opcode := DSA_OPCODE_CRCGEN, desc_flags := IDXD_OP_FLAG_RCR OR IDXD_OP_FLAG_CRAV, xfer_size := ucast l,
     src_addr := s, desc_crc_seed := ucast (VESAL_CRC_REVISE sd) \<rparr>"

definition fence_desc :: dsa_hw_desc where
  "fence_desc = zero_desc\<lparr> desc_flags := IDXD_OP_FLAG_RCR OR IDXD_OP_FLAG_CRAV OR IDXD_OP_FLAG_FENCE \<rparr>"

definition batch_desc :: "DsaCtx \<Rightarrow> nat \<Rightarrow> dsa_hw_desc" where
  "batch_desc c n = zero_desc\<lparr> opcode := DSA_OPCODE_BATCH, desc_flags := IDXD_OP_FLAG_RCR OR IDXD_OP_FLAG_CRAV, xfer_size := of_nat n,
     src_addr := dsa_hw_descs_phys c + kDsaHwDescSize \<rparr>"

definition sum_len :: "u64 list \<Rightarrow> u64" where
  "sum_len ls = sum_list ls"

definition move_crc_desc :: "translation \<Rightarrow> DataFlowMoveOperation \<Rightarrow> dsa_hw_desc" where
  "move_crc_desc tr op = crc_desc (look_up tr (dst op)) (sum_len (src_len op)) (seed op)"

text \<open>First the copies of all operations in order; then, if an operation needs a checksum of its own, a fence and the
  checksums of the destinations.\<close>

definition move_layout :: "translation \<Rightarrow> DsaCtx \<Rightarrow> DataFlowMoveOperation list \<Rightarrow> dsa_hw_desc list" where
  "move_layout tr c ops =
    (if one_desc ops then [copy_desc tr (hd ops) (enable_crc (hd ops)) (look_up_len tr (dst (hd ops)) (hd (src_len (hd ops)))) (hd (src (hd ops))) (hd (src_len (hd ops)))]
     else batch_desc c (move_desc_num ops - 1) # concat (map (op_descs tr) ops)
       @ (if filter needs_crc ops = [] then [] else fence_desc # map (move_crc_desc tr) (filter needs_crc ops)))"

text \<open>All translations a batch needs succeed.\<close>

definition translatable :: "translation \<Rightarrow> DataFlowMoveOperation \<Rightarrow> bool" where
  "translatable tr op \<longleftrightarrow> look_up tr (dst op) \<noteq> 0 \<and> look_up_len tr (dst op) (sum_len (src_len op)) \<noteq> 0
     \<and> list_all2 (\<lambda>s l. look_up_len tr s l \<noteq> 0) (src op) (src_len op)"

lemma length_seg_descs: "length ss = length ls \<Longrightarrow> length (seg_descs tr op d ss ls) = length ss"
  by (induction ss ls arbitrary: d rule: list_induct2) simp_all

section \<open>The loops write the layout\<close>

lemma fill_copy_step:
  assumes "written c xs dm0 dm n" "length xs < n" "n \<le> kMaxInternalBatchSize"
  shows "\<exists>dm'. FillCopyMaybeWithCrc (desc_at c (length xs)) (look_up_len tr s l) l d (VESAL_CRC_REVISE (seed op)) crc (rec_phys_at c (length xs)) cr dm
      = Some (if crc then cr else 0, dm') \<and> written c (xs @ [copy_desc tr op crc d s l]) dm0 dm' n"
proof (cases crc)
  case True
  have "\<exists>dm'. FillCopyWithCrc (desc_at c (length xs)) (look_up_len tr s l) l d (ucast (VESAL_CRC_REVISE (seed op))) (rec_phys_at c (length xs)) dm = Some dm'
      \<and> written c (xs @ [copy_desc tr op True d s l]) dm0 dm' n"
    unfolding FillCopyWithCrc_def by (rule written_step [OF assms]) (simp add: copy_desc_def zero_desc_def)
  then show ?thesis
    using True by (auto simp: FillCopyMaybeWithCrc_def)
next
  case False
  have "\<exists>dm'. FillCopy (desc_at c (length xs)) (look_up_len tr s l) l d (rec_phys_at c (length xs)) dm = Some dm'
      \<and> written c (xs @ [copy_desc tr op False d s l]) dm0 dm' n"
    unfolding FillCopy_def by (rule written_step [OF assms]) (simp add: copy_desc_def zero_desc_def)
  then show ?thesis
    using False by (auto simp: FillCopyMaybeWithCrc_def)
qed

lemma fill_crc_step:
  assumes "written c xs dm0 dm n" "length xs < n" "n \<le> kMaxInternalBatchSize"
  shows "\<exists>dm'. FillCrc (desc_at c (length xs)) s l (ucast (VESAL_CRC_REVISE sd)) (rec_phys_at c (length xs)) dm = Some dm'
    \<and> written c (xs @ [crc_desc s l sd]) dm0 dm' n"
  unfolding FillCrc_def by (rule written_step [OF assms]) (simp add: crc_desc_def zero_desc_def)

lemma fill_fence_step:
  assumes "written c xs dm0 dm n" "length xs < n" "n \<le> kMaxInternalBatchSize"
  shows "\<exists>dm'. FillFence (desc_at c (length xs)) (rec_phys_at c (length xs)) dm = Some dm' \<and> written c (xs @ [fence_desc]) dm0 dm' n"
  unfolding FillFence_def by (rule written_step [OF assms]) (simp add: fence_desc_def zero_desc_def)

lemma slot_0: "desc_at c 0 = dsa_hw_descs c" "rec_at c 0 = dsa_completion_records c" "rec_phys_at c 0 = dsa_completion_records_phys c"
  by (simp_all add: desc_at_def rec_at_def rec_phys_at_def)

lemma fill_batch_step:
  assumes "written c [] dm0 dm n" "0 < n" "n \<le> kMaxInternalBatchSize"
  shows "\<exists>dm'. FillBatch (dsa_hw_descs c) k (dsa_hw_descs_phys c + kDsaHwDescSize) (dsa_completion_records_phys c) dm = Some dm'
    \<and> written c [batch_desc c k] dm0 dm' n"
proof -
  have "length ([] :: dsa_hw_desc list) < n"
    using assms(2) by simp
  from written_step [OF assms(1) this assms(3), of "\<lambda>d. d\<lparr> opcode := DSA_OPCODE_BATCH, desc_flags := IDXD_OP_FLAG_RCR OR IDXD_OP_FLAG_CRAV,
      xfer_size := of_nat k, src_addr := dsa_hw_descs_phys c + kDsaHwDescSize, completion_addr := dsa_completion_records_phys c \<rparr>" "batch_desc c k"]
  show ?thesis
    unfolding FillBatch_def by (simp add: slot_0 batch_desc_def zero_desc_def)
qed

text \<open>The completion record the engine reads the checksum of an operation from, after \<open>m\<close> segments from slot \<open>k\<close>.\<close>

definition last_rec :: "DsaCtx \<Rightarrow> DataFlowMoveOperation \<Rightarrow> u64 \<Rightarrow> nat \<Rightarrow> nat \<Rightarrow> u64" where
  "last_rec c op cr k m = (if m = 0 then cr else if enable_crc op \<and> IsCopyWithCrcOk op then rec_at c (k + m - 1) else 0)"

lemma last_rec_step: "last_rec c op cr k (Suc m) = last_rec c op (if enable_crc op \<and> IsCopyWithCrcOk op then rec_at c k else 0) (Suc k) m"
  by (simp add: last_rec_def)

lemma copy_segments_ok:
  assumes "length ss = length ls" "written c xs dm0 dm n" "n \<le> kMaxInternalBatchSize" "length xs + length ss \<le> n"
  shows "\<exists>st off sm cr' dm'. copy_segments tr c op dp ss ls (length xs) sum0 cr dm = Some (st, off, sm, cr', dm')
    \<and> (if list_all2 (\<lambda>s l. look_up_len tr s l \<noteq> 0) ss ls
       then st = kOk \<and> off = length xs + length ss \<and> sm = sum0 + sum_len ls \<and> written c (xs @ seg_descs tr op (dp + sum0) ss ls) dm0 dm' n
         \<and> cr' = last_rec c op cr (length xs) (length ss)
       else st = kBadData)"
  using assms
proof (induction ss ls arbitrary: xs sum0 cr dm rule: list_induct2)
  case Nil
  then show ?case
    by (simp add: sum_len_def last_rec_def)
next
  case (Cons s ss l ls)
  show ?case
  proof (cases "look_up_len tr s l = 0")
    case True
    then show ?thesis
      by simp
  next
    case False
    let ?crc = "enable_crc op \<and> IsCopyWithCrcOk op"
    let ?x = "copy_desc tr op ?crc (dp + sum0) s l"
    let ?cr = "if ?crc then rec_at c (length xs) else 0"
    have n: "length xs < n" "length (xs @ [?x]) + length ss \<le> n"
      using Cons.prems(3) by simp_all
    obtain dm1 where d: "FillCopyMaybeWithCrc (desc_at c (length xs)) (look_up_len tr s l) l (dp + sum0) (VESAL_CRC_REVISE (seed op)) ?crc (rec_phys_at c (length xs)) (rec_at c (length xs)) dm
      = Some (?cr, dm1)" "written c (xs @ [?x]) dm0 dm1 n"
      using fill_copy_step [OF Cons.prems(1) n(1) Cons.prems(2)] by blast
    have e: "copy_segments tr c op dp (s # ss) (l # ls) (length xs) sum0 cr dm = copy_segments tr c op dp ss ls (length (xs @ [?x])) (sum0 + l) ?cr dm1"
      using False d(1) by simp
    have a: "xs @ seg_descs tr op (dp + sum0) (s # ss) (l # ls) = (xs @ [?x]) @ seg_descs tr op (dp + (sum0 + l)) ss ls"
      "sum0 + sum_len (l # ls) = sum0 + l + sum_len ls"
      "list_all2 (\<lambda>s l. look_up_len tr s l \<noteq> 0) (s # ss) (l # ls) = list_all2 (\<lambda>s l. look_up_len tr s l \<noteq> 0) ss ls"
      using False by (simp_all add: sum_len_def add.assoc)
    have k: "length (xs @ [?x]) = Suc (length xs)" "length xs + length (s # ss) = length (xs @ [?x]) + length ss"
      "last_rec c op cr (length xs) (length (s # ss)) = last_rec c op ?cr (length (xs @ [?x])) (length ss)"
      by (simp_all add: last_rec_step)
    show ?thesis
      unfolding e a k(2,3) by (rule Cons.IH [OF d(2) Cons.prems(2) n(2)])
  qed
qed


text \<open>The records of the checksums: a copy with checksum reports in its own record, the others in the record of the
  checksum descriptor that follows the fence.\<close>

fun op_recs :: "DsaCtx \<Rightarrow> nat \<Rightarrow> DataFlowMoveOperation list \<Rightarrow> u64 list" where
  "op_recs c k [] = []"
| "op_recs c k (op # ops) = (if enable_crc op \<and> IsCopyWithCrcOk op then rec_at c k else 0) # op_recs c (k + length (src op)) ops"

fun crc_recs :: "DsaCtx \<Rightarrow> nat \<Rightarrow> DataFlowMoveOperation list \<Rightarrow> u64 list \<Rightarrow> u64 list" where
  "crc_recs c k (op # ops) (r # rs) = (if needs_crc op then rec_at c k # crc_recs c (Suc k) ops rs else r # crc_recs c k ops rs)"
| "crc_recs c k ops rs = rs"

definition well_formed_op :: "DataFlowMoveOperation \<Rightarrow> bool" where
  "well_formed_op op \<longleftrightarrow> src op \<noteq> [] \<and> length (src op) = length (src_len op)"

lemma last_rec_op: "src op \<noteq> [] \<Longrightarrow> last_rec c op cr k (length (src op)) = (if enable_crc op \<and> IsCopyWithCrcOk op then rec_at c k else 0)"
  by (auto simp: last_rec_def IsCopyWithCrcOk_def)

lemma length_op_recs [simp]: "length (op_recs c k ops) = length ops"
  by (induction ops arbitrary: k) simp_all

lemma length_op_descs [simp]: "well_formed_op op \<Longrightarrow> length (op_descs tr op) = length (src op)"
  by (simp add: op_descs_def length_seg_descs well_formed_op_def)

text \<open>One operation.\<close>

lemma copy_segments_op:
  assumes "well_formed_op op" "written c xs dm0 dm n" "n \<le> kMaxInternalBatchSize" "length xs + length (src op) \<le> n"
  shows "\<exists>st off sm cr' dm'. copy_segments tr c op (look_up tr (dst op)) (src op) (src_len op) (length xs) 0 cr dm = Some (st, off, sm, cr', dm')
    \<and> (if list_all2 (\<lambda>s l. look_up_len tr s l \<noteq> 0) (src op) (src_len op)
       then st = kOk \<and> off = length (xs @ op_descs tr op) \<and> sm = sum_len (src_len op) \<and> written c (xs @ op_descs tr op) dm0 dm' n
         \<and> cr' = (if enable_crc op \<and> IsCopyWithCrcOk op then rec_at c (length xs) else 0)
       else st = kBadData)"
proof -
  have o: "src op \<noteq> []" "length (src op) = length (src_len op)"
    using assms(1) by (simp_all add: well_formed_op_def)
  have z: "look_up tr (dst op) + 0 = look_up tr (dst op)" "0 + sum_len (src_len op) = sum_len (src_len op)"
    "length xs + length (src op) = length (xs @ op_descs tr op)"
    using assms(1) by simp_all
  show ?thesis
    using copy_segments_ok [OF o(2) assms(2-4), of tr op "look_up tr (dst op)" 0 cr]
    unfolding z last_rec_op [OF o(1)] op_descs_def [symmetric] .
qed

lemma copy_ops_ok:
  assumes "list_all well_formed_op ops" "written c xs dm0 dm n" "n \<le> kMaxInternalBatchSize" "length xs + sum_list (map (length \<circ> src) ops) \<le> n"
    "length olds = length ops"
  shows "\<exists>st off sums crs dm'. copy_ops tr c (length pre) ops (length xs) (pre @ olds @ post) dm = Some (st, off, sums, crs, dm')
    \<and> (if list_all (translatable tr) ops
       then st = kOk \<and> off = length (xs @ concat (map (op_descs tr) ops)) \<and> sums = map (sum_len \<circ> src_len) ops
         \<and> written c (xs @ concat (map (op_descs tr) ops)) dm0 dm' n \<and> crs = pre @ op_recs c (length xs) ops @ post
       else st = kBadData)"
  using assms
proof (induction ops arbitrary: xs dm pre olds)
  case Nil
  then show ?case
    by simp
next
  case (Cons op ops)
  obtain r rs where olds: "olds = r # rs" "length rs = length ops"
    using Cons.prems(5) by (cases olds) simp_all
  have wf: "well_formed_op op" "list_all well_formed_op ops" and n: "length xs + length (src op) \<le> n"
      "length (xs @ op_descs tr op) + sum_list (map (length \<circ> src) ops) \<le> n"
    using Cons.prems(1,4) by (simp_all add: comp_def)
  define cr where "cr = (if enable_crc op \<and> IsCopyWithCrcOk op then rec_at c (length xs) else 0)"
  obtain st off sm cr' dm1 where s: "copy_segments tr c op (look_up tr (dst op)) (src op) (src_len op) (length xs) 0 r dm = Some (st, off, sm, cr', dm1)"
    and r: "if list_all2 (\<lambda>s l. look_up_len tr s l \<noteq> 0) (src op) (src_len op)
       then st = kOk \<and> off = length (xs @ op_descs tr op) \<and> sm = sum_len (src_len op) \<and> written c (xs @ op_descs tr op) dm0 dm1 n \<and> cr' = cr
       else st = kBadData"
    using copy_segments_op [OF wf(1) Cons.prems(2,3) n(1), of tr r] unfolding cr_def by blast
  show ?case
  proof (cases "translatable tr op")
    case True
    then have t: "look_up tr (dst op) \<noteq> 0" "look_up_len tr (dst op) (sum_len (src_len op)) \<noteq> 0"
        "list_all2 (\<lambda>s l. look_up_len tr s l \<noteq> 0) (src op) (src_len op)"
      by (simp_all add: translatable_def)
    have v: "st = kOk" "off = length (xs @ op_descs tr op)" "sm = sum_len (src_len op)" "written c (xs @ op_descs tr op) dm0 dm1 n" "cr' = cr"
      using r unfolding if_P [OF t(3)] by simp_all
    have e: "copy_ops tr c (length pre) (op # ops) (length xs) (pre @ olds @ post) dm
      = map_option (\<lambda>(st, off, sums, crs', m''). (st, off, sum_len (src_len op) # sums, crs', m''))
          (copy_ops tr c (length (pre @ [cr])) ops (length (xs @ op_descs tr op)) ((pre @ [cr]) @ rs @ post) dm1)"
      using t s v olds by (simp add: Let_def nth_append list_update_append)
    show ?thesis
      using Cons.IH [OF wf(2) v(4) Cons.prems(3) n(2) olds(2), of "pre @ [cr]"] True wf(1) unfolding e
      by (auto simp: cr_def split: if_splits)
  next
    case False
    then have "copy_ops tr c (length pre) (op # ops) (length xs) (pre @ olds @ post) dm \<noteq> None
      \<and> fst (the (copy_ops tr c (length pre) (op # ops) (length xs) (pre @ olds @ post) dm)) = kBadData"
      using s r olds by (auto simp: Let_def nth_append translatable_def split: if_splits)
    then show ?thesis
      using False by (auto simp del: copy_ops.simps)
  qed
qed


lemma crc_ops_ok:
  assumes "written c xs dm0 dm n" "n \<le> kMaxInternalBatchSize" "length xs + length (filter needs_crc ops) \<le> n" "length olds = length ops"
  shows "\<exists>dm'. crc_ops tr c (length pre) ops (map (sum_len \<circ> src_len) ops) (length xs) (pre @ olds @ post) dm
      = Some (pre @ crc_recs c (length xs) ops olds @ post, dm')
    \<and> written c (xs @ map (move_crc_desc tr) (filter needs_crc ops)) dm0 dm' n"
  using assms
proof (induction ops arbitrary: xs dm pre olds)
  case Nil
  then show ?case
    by simp
next
  case (Cons op ops)
  obtain r rs where olds: "olds = r # rs" "length rs = length ops"
    using Cons.prems(4) by (cases olds) simp_all
  show ?case
  proof (cases "needs_crc op")
    case True
    let ?x = "move_crc_desc tr op"
    have n: "length xs < n" "length (xs @ [?x]) + length (filter needs_crc ops) \<le> n"
      using Cons.prems(3) True by simp_all
    obtain dm1 where f: "FillCrc (desc_at c (length xs)) (look_up tr (dst op)) (sum_len (src_len op)) (ucast (VESAL_CRC_REVISE (seed op))) (rec_phys_at c (length xs)) dm = Some dm1"
      "written c (xs @ [?x]) dm0 dm1 n"
      using fill_crc_step [OF Cons.prems(1) n(1) Cons.prems(2)] unfolding move_crc_desc_def by blast
    show ?thesis
      using Cons.IH [OF f(2) Cons.prems(2) n(2) olds(2), of "pre @ [rec_at c (length xs)]"] True f(1)
      by (auto simp: olds list_update_append)
  next
    case False
    then have n: "length xs + length (filter needs_crc ops) \<le> n"
      using Cons.prems(3) by simp
    show ?thesis
      using Cons.IH [OF Cons.prems(1,2) n olds(2), of "pre @ [r]"] False by (auto simp: olds)
  qed
qed

section \<open>A move batch\<close>

lemma well_formed_concat: "list_all well_formed_op ops \<Longrightarrow> length (concat (map (op_descs tr) ops)) = sum_list (map (length \<circ> src) ops)"
  by (induction ops) simp_all

lemma one_desc_eq: "one_desc ops \<Longrightarrow> list_all well_formed_op ops \<Longrightarrow>
  \<exists>op s l. ops = [op] \<and> src op = [s] \<and> src_len op = [l] \<and> (enable_crc op \<longrightarrow> IsCopyWithCrcOk op)"
  by (auto simp: one_desc_def well_formed_op_def length_Suc_conv Suc_length_conv IsCopyWithCrcOk_def)

definition movable :: "translation \<Rightarrow> DataFlowMoveOperation list \<Rightarrow> bool" where
  "movable tr ops \<longleftrightarrow>
    (if one_desc ops then look_up_len tr (hd (src (hd ops))) (hd (src_len (hd ops))) \<noteq> 0 \<and> look_up_len tr (dst (hd ops)) (hd (src_len (hd ops))) \<noteq> 0
     else list_all (translatable tr) ops)"

definition move_recs :: "DsaCtx \<Rightarrow> DataFlowMoveOperation list \<Rightarrow> u64 list" where
  "move_recs c ops =
    (if one_desc ops then op_recs c 0 ops
     else crc_recs c (2 + sum_list (map (length \<circ> src) ops)) ops (op_recs c 1 ops))"

lemma length_move_layout:
  assumes "list_all well_formed_op ops"
  shows "length (move_layout tr c ops) = (if one_desc ops then 1 else move_desc_num ops)"
  using well_formed_concat [OF assms, of tr] by (simp add: move_layout_def move_desc_num_def Let_def)

text \<open>The written slots depend on the addresses of a context only.\<close>

lemma written_upd [simp]:
  "written (c\<lparr> desc_num := k \<rparr>) xs dm0 dm n = written c xs dm0 dm n" "written (c\<lparr> crc_results := rs \<rparr>) xs dm0 dm n = written c xs dm0 dm n"
  by (simp_all add: written_def desc_at_def rec_phys_at_def)


lemma at_upd [simp]:
  "desc_at (c\<lparr> desc_num := k \<rparr>) = desc_at c" "rec_at (c\<lparr> desc_num := k \<rparr>) = rec_at c" "rec_phys_at (c\<lparr> desc_num := k \<rparr>) = rec_phys_at c"
  by (rule ext, simp add: desc_at_def rec_at_def rec_phys_at_def)+

lemma op_recs_upd [simp]: "op_recs (c\<lparr> desc_num := k \<rparr>) j ops = op_recs c j ops"
  by (induction ops arbitrary: j) simp_all

lemma crc_recs_upd [simp]: "crc_recs (c\<lparr> desc_num := k \<rparr>) j ops rs = crc_recs c j ops rs"
  by (induction c j ops rs rule: crc_recs.induct) simp_all

text \<open>The memory a context owns: as many descriptors as the batch needs, and the first record.\<close>

definition owns_slots :: "DsaCtx \<Rightarrow> nat \<Rightarrow> desc_memory \<Rightarrow> rec_memory \<Rightarrow> bool" where
  "owns_slots c n dm rm \<longleftrightarrow> n \<le> kMaxInternalBatchSize \<and> (\<forall>k < n. dm (desc_at c k) \<noteq> None) \<and> rm (dsa_completion_records c) \<noteq> None"

abbreviation clear_first :: "DsaCtx \<Rightarrow> rec_memory \<Rightarrow> rec_memory" where
  "clear_first c rm \<equiv> rm(dsa_completion_records c \<mapsto> \<lparr> rec_status = 0, crc_val = 0 \<rparr>)"

lemma reset_owned:
  assumes "owns_slots c n dm rm"
  shows "\<exists>dm'. ResetCtx (c\<lparr> desc_num := n \<rparr>) (dm, rm) = Some (dm', clear_first c rm) \<and> written c [] dm dm' n"
  using ResetCtx_written [of "c\<lparr> desc_num := n \<rparr>" dm rm] assms by (simp add: owns_slots_def)

lemma BuildMoveCtx_one:
  assumes "one_desc ops" "list_all well_formed_op ops" "crc_results c \<noteq> []" "owns_slots c 1 dm rm"
  shows "\<exists>st c' dm'. BuildMoveCtx tr ops c (dm, rm) = Some (st, c', dm', clear_first c rm)
    \<and> (if movable tr ops
       then st = kOk \<and> c' = c\<lparr> desc_num := 1, crc_results := move_recs c ops @ drop 1 (crc_results c) \<rparr> \<and> written c (move_layout tr c ops) dm dm' 1
       else st = kBadData)"
proof -
  obtain op s l where o: "ops = [op]" "src op = [s]" "src_len op = [l]" "enable_crc op \<longrightarrow> IsCopyWithCrcOk op"
    using one_desc_eq [OF assms(1,2)] by blast
  obtain dm1 where r: "ResetCtx (c\<lparr> desc_num := 1 \<rparr>) (dm, rm) = Some (dm1, clear_first c rm)" "written c [] dm dm1 1"
    using reset_owned [OF assms(4)] by blast
  have k: "length ([] :: dsa_hw_desc list) < 1" "1 \<le> kMaxInternalBatchSize"
    by (simp_all add: kMaxInternalBatchSize_def)
  obtain dm2 where f: "FillCopyMaybeWithCrc (dsa_hw_descs c) (look_up_len tr s l) l (look_up_len tr (dst op) l) (VESAL_CRC_REVISE (seed op)) (enable_crc op)
      (dsa_completion_records_phys c) (dsa_completion_records c) dm1 = Some (if enable_crc op then dsa_completion_records c else 0, dm2)"
      "written c [copy_desc tr op (enable_crc op) (look_up_len tr (dst op) l) s l] dm dm2 1"
    using fill_copy_step [OF r(2) k, of tr s l "look_up_len tr (dst op) l" op "enable_crc op" "dsa_completion_records c"] by (auto simp: slot_0)
  obtain r0 rs where c: "crc_results c = r0 # rs"
    using assms(3) by (cases "crc_results c") simp_all
  show ?thesis
    using assms(1) r(1) f o unfolding BuildMoveCtx_def movable_def move_recs_def move_layout_def
    by (auto simp: Let_def c slot_0)
qed


lemma crc_recs_none: "filter needs_crc ops = [] \<Longrightarrow> crc_recs c k ops rs = rs"
  by (induction c k ops rs rule: crc_recs.induct) (simp_all split: if_splits)

lemma batch_desc_upd [simp]: "batch_desc (c\<lparr> desc_num := k \<rparr>) n = batch_desc c n"
  by (simp add: batch_desc_def)

text \<open>The part after the batch descriptor has been written.\<close>

lemma batch_tail:
  assumes "list_all well_formed_op ops" "list_all (translatable tr) ops" "n = move_desc_num ops" "n \<le> kMaxInternalBatchSize"
    "copy_ops tr c 0 ops 1 (olds @ post) dm1 = Some (st, off, sums, crs, dm2)" "length olds = length ops" "written c [b] dm0 dm1 n"
  shows "st = kOk \<and> (if filter needs_crc ops = []
     then crs = op_recs c 1 ops @ post \<and> written c (b # concat (map (op_descs tr) ops)) dm0 dm2 n
     else \<exists>dm3 dm4. FillFence (desc_at c off) (rec_phys_at c off) dm2 = Some dm3
       \<and> crc_ops tr c 0 ops sums (Suc off) crs dm3 = Some (crc_recs c (2 + sum_list (map (length \<circ> src) ops)) ops (op_recs c 1 ops) @ post, dm4)
       \<and> written c (b # concat (map (op_descs tr) ops) @ fence_desc # map (move_crc_desc tr) (filter needs_crc ops)) dm0 dm4 n)"
proof -
  let ?xs = "b # concat (map (op_descs tr) ops)"
  have len: "length ?xs = Suc (sum_list (map (length \<circ> src) ops))"
    using well_formed_concat [OF assms(1), of tr] by simp
  have n: "length [b] + sum_list (map (length \<circ> src) ops) \<le> n"
    by (simp add: assms(3) move_desc_num_def Let_def)
  have o: "copy_ops tr c (length ([] :: u64 list)) ops (length [b]) ([] @ olds @ post) dm1 = Some (st, off, sums, crs, dm2)"
    using assms(5) by simp
  have v: "st = kOk" "off = length ?xs" "sums = map (sum_len \<circ> src_len) ops" "written c ?xs dm0 dm2 n" "crs = op_recs c 1 ops @ post"
    using copy_ops_ok [OF assms(1,7,4) n assms(6), of tr "[]" post] assms(2) unfolding o by simp_all
  have "\<exists>dm3 dm4. FillFence (desc_at c off) (rec_phys_at c off) dm2 = Some dm3
       \<and> crc_ops tr c 0 ops sums (Suc off) crs dm3 = Some (crc_recs c (2 + sum_list (map (length \<circ> src) ops)) ops (op_recs c 1 ops) @ post, dm4)
       \<and> written c (?xs @ fence_desc # map (move_crc_desc tr) (filter needs_crc ops)) dm0 dm4 n" if f: "filter needs_crc ops \<noteq> []"
  proof -
    have d: "length ?xs < n" "length (?xs @ [fence_desc]) + length (filter needs_crc ops) \<le> n"
      using f len by (simp_all add: assms(3) move_desc_num_def Let_def)
    obtain dm3 where w: "FillFence (desc_at c off) (rec_phys_at c off) dm2 = Some dm3" "written c (?xs @ [fence_desc]) dm0 dm3 n"
      using fill_fence_step [OF v(4) d(1) assms(4)] v(2) by auto
    have k: "length (?xs @ [fence_desc]) = 2 + sum_list (map (length \<circ> src) ops)" "Suc off = 2 + sum_list (map (length \<circ> src) ops)"
      using len v(2) by simp_all
    obtain dm4 where "crc_ops tr c 0 ops sums (Suc off) crs dm3 = Some (crc_recs c (2 + sum_list (map (length \<circ> src) ops)) ops (op_recs c 1 ops) @ post, dm4)"
      "written c ((?xs @ [fence_desc]) @ map (move_crc_desc tr) (filter needs_crc ops)) dm0 dm4 n"
      using crc_ops_ok [OF w(2) assms(4) d(2), of "op_recs c 1 ops" tr "[]" post] unfolding k v(3,5) by auto
    then show ?thesis
      using w(1) by auto
  qed
  then show ?thesis
    using v by auto
qed

lemma BuildMoveCtx_batch:
  assumes "\<not> one_desc ops" "list_all well_formed_op ops" "length ops \<le> length (crc_results c)" "n = move_desc_num ops" "owns_slots c n dm rm"
  shows "\<exists>st c' dm'. BuildMoveCtx tr ops c (dm, rm) = Some (st, c', dm', clear_first c rm)
    \<and> (if movable tr ops
       then st = kOk \<and> c' = c\<lparr> desc_num := n, crc_results := move_recs c ops @ drop (length ops) (crc_results c) \<rparr>
         \<and> written c (move_layout tr c ops) dm dm' n
       else st = kBadData)"
proof -
  let ?c = "c\<lparr> desc_num := n \<rparr>"
  let ?b = "batch_desc c (n - 1)"
  define olds post where "olds = take (length ops) (crc_results c)" and "post = drop (length ops) (crc_results c)"
  have crs: "crc_results c = olds @ post" and lo: "length olds = length ops"
    using assms(3) by (simp_all add: olds_def post_def)
  have k: "0 < n" "n \<le> kMaxInternalBatchSize"
    using assms(4,5) by (simp_all add: move_desc_num_def owns_slots_def Let_def)
  obtain dm0 where r: "ResetCtx ?c (dm, rm) = Some (dm0, clear_first c rm)" "written ?c [] dm dm0 n"
    using reset_owned [OF assms(5)] by auto
  obtain dm1 where b: "FillBatch (dsa_hw_descs c) (n - 1) (dsa_hw_descs_phys c + kDsaHwDescSize) (dsa_completion_records_phys c) dm0 = Some dm1" "written ?c [?b] dm dm1 n"
    using fill_batch_step [OF r(2) k, of "n - 1"] by auto
  have l: "length [?b] + sum_list (map (length \<circ> src) ops) \<le> n"
    by (simp add: assms(4) move_desc_num_def Let_def)
  obtain st off sums crs' dm2 where o: "copy_ops tr ?c 0 ops 1 (olds @ post) dm1 = Some (st, off, sums, crs', dm2)"
    and bad: "\<not> list_all (translatable tr) ops \<Longrightarrow> st = kBadData"
    using copy_ops_ok [OF assms(2) b(2) k(2) l lo, of tr "[]" post] by (auto split: if_splits)
  show ?thesis
  proof (cases "list_all (translatable tr) ops")
    case True
    note t = batch_tail [OF assms(2) True assms(4) k(2) o lo b(2)]
    show ?thesis
      using t True assms(1) r(1) b(1) o unfolding BuildMoveCtx_def movable_def move_recs_def move_layout_def
      by (auto simp: Let_def crs assms(4) lo crc_recs_none split: if_splits)
  next
    case False
    then show ?thesis
      using bad assms(1) r(1) b(1) o unfolding BuildMoveCtx_def movable_def by (auto simp: Let_def crs simp flip: assms(4))
  qed
qed


lemma BuildMoveCtx_ok:
  assumes "ops \<noteq> []" "list_all well_formed_op ops" "length ops \<le> length (crc_results c)" "n = length (move_layout tr c ops)" "owns_slots c n dm rm"
  shows "\<exists>st c' dm'. BuildMoveCtx tr ops c (dm, rm) = Some (st, c', dm', clear_first c rm)
    \<and> (if movable tr ops
       then st = kOk \<and> c' = c\<lparr> desc_num := n, crc_results := move_recs c ops @ drop (length ops) (crc_results c) \<rparr>
         \<and> written c (move_layout tr c ops) dm dm' n
       else st = kBadData)"
proof (cases "one_desc ops")
  case True
  then have v: "n = 1" "length ops = 1" "crc_results c \<noteq> []"
    using assms(1,3) length_move_layout [OF assms(2), of tr c] unfolding assms(4) by (auto simp: one_desc_def)
  show ?thesis
    unfolding v(1,2) by (rule BuildMoveCtx_one [OF True assms(2) v(3) assms(5) [unfolded v(1)]])
next
  case False
  then have "n = move_desc_num ops"
    using length_move_layout [OF assms(2), of tr c] unfolding assms(4) by simp
  then show ?thesis
    using BuildMoveCtx_batch [OF False assms(2,3) _ assms(5)] by simp
qed

section \<open>A checksum batch\<close>

definition crc_op_desc :: "translation \<Rightarrow> DataFlowCrcOperation \<Rightarrow> dsa_hw_desc" where
  "crc_op_desc tr op = crc_desc (look_up_len tr (crc_src op) (crc_len op)) (crc_len op) (crc_seed op)"

definition crc_layout :: "translation \<Rightarrow> DsaCtx \<Rightarrow> DataFlowCrcOperation list \<Rightarrow> dsa_hw_desc list" where
  "crc_layout tr c ops = (if length ops = 1 then [] else [batch_desc c (length ops)]) @ map (crc_op_desc tr) ops"

definition readable :: "translation \<Rightarrow> DataFlowCrcOperation \<Rightarrow> bool" where
  "readable tr op \<longleftrightarrow> look_up_len tr (crc_src op) (crc_len op) \<noteq> 0"

lemma crc_loop_ok:
  assumes "written c xs dm0 dm n" "n \<le> kMaxInternalBatchSize" "length xs + length ops \<le> n" "length olds = length ops" "length xs = length pre + 1"
  shows "\<exists>st crs dm'. crc_loop tr c (length pre) ops (pre @ olds @ post) dm = Some (st, crs, dm')
    \<and> (if list_all (readable tr) ops
       then st = kOk \<and> crs = pre @ map (rec_at c) [length xs..<length xs + length ops] @ post \<and> written c (xs @ map (crc_op_desc tr) ops) dm0 dm' n
       else st = kBadData)"
  using assms
proof (induction ops arbitrary: xs dm pre olds)
  case Nil
  then show ?case
    by simp
next
  case (Cons op ops)
  obtain r rs where olds: "olds = r # rs" "length rs = length ops"
    using Cons.prems(4) by (cases olds) simp_all
  let ?x = "crc_op_desc tr op"
  have n: "length xs < n" "length (xs @ [?x]) + length ops \<le> n" "length (xs @ [?x]) = length (pre @ [rec_at c (length xs)]) + 1"
    using Cons.prems(3,5) by simp_all
  obtain dm1 where f: "FillCrc (desc_at c (length xs)) (look_up_len tr (crc_src op) (crc_len op)) (crc_len op) (ucast (VESAL_CRC_REVISE (crc_seed op))) (rec_phys_at c (length xs)) dm = Some dm1"
    "written c (xs @ [?x]) dm0 dm1 n"
    using fill_crc_step [OF Cons.prems(1) n(1) Cons.prems(2)] unfolding crc_op_desc_def by blast
  have u: "[length xs..<length xs + length (op # ops)] = length xs # [length (xs @ [?x])..<length (xs @ [?x]) + length ops]"
    by (simp add: upt_conv_Cons del: upt_Suc)
  show ?case
  proof (cases "readable tr op")
    case True
    have e: "crc_loop tr c (length pre) (op # ops) (pre @ olds @ post) dm
      = crc_loop tr c (length (pre @ [rec_at c (length xs)])) ops ((pre @ [rec_at c (length xs)]) @ rs @ post) dm1"
      using True f(1) Cons.prems(5) by (simp add: readable_def olds list_update_append)
    have a: "xs @ map (crc_op_desc tr) (op # ops) = (xs @ [?x]) @ map (crc_op_desc tr) ops"
      "pre @ map (rec_at c) [length xs..<length xs + length (op # ops)] @ post
       = (pre @ [rec_at c (length xs)]) @ map (rec_at c) [length (xs @ [?x])..<length (xs @ [?x]) + length ops] @ post"
      "list_all (readable tr) (op # ops) = list_all (readable tr) ops"
      using True unfolding u by simp_all
    show ?thesis
      unfolding e a by (rule Cons.IH [OF f(2) Cons.prems(2) n(2) olds(2) n(3)])
  next
    case False
    then show ?thesis
      by (simp add: readable_def)
  qed
qed

lemma BuildCrcCtx_ok:
  assumes "ops \<noteq> []" "length ops \<le> length (crc_results c)" "n = length (crc_layout tr c ops)" "owns_slots c n dm rm"
  shows "\<exists>st c' dm'. BuildCrcCtx tr ops c (dm, rm) = Some (st, c', dm', clear_first c rm)
    \<and> (if list_all (readable tr) ops
       then st = kOk \<and> c' = c\<lparr> desc_num := n, crc_results := map (rec_at c) [n - length ops..<n] @ drop (length ops) (crc_results c) \<rparr>
         \<and> written c (crc_layout tr c ops) dm dm' n
       else st = kBadData)"
proof (cases "length ops = 1")
  case True
  then obtain op where o: "ops = [op]"
    by (auto simp: length_Suc_conv)
  have k: "n = 1" "length ([] :: dsa_hw_desc list) < 1" "1 \<le> kMaxInternalBatchSize"
    using o by (simp_all add: assms(3) crc_layout_def kMaxInternalBatchSize_def)
  obtain dm1 where r: "ResetCtx (c\<lparr> desc_num := 1 \<rparr>) (dm, rm) = Some (dm1, clear_first c rm)" "written c [] dm dm1 1"
    using reset_owned [OF assms(4)] k(1) by auto
  obtain dm2 where f: "FillCrc (dsa_hw_descs c) (look_up_len tr (crc_src op) (crc_len op)) (crc_len op) (ucast (VESAL_CRC_REVISE (crc_seed op))) (dsa_completion_records_phys c) dm1 = Some dm2"
    "written c [crc_op_desc tr op] dm dm2 1"
    using fill_crc_step [OF r(2) k(2,3), of "look_up_len tr (crc_src op) (crc_len op)" "crc_len op" "crc_seed op"] unfolding crc_op_desc_def by (auto simp: slot_0)
  obtain r0 rs where c: "crc_results c = r0 # rs"
    using assms(2) o by (cases "crc_results c") simp_all
  show ?thesis
    using r(1) f unfolding BuildCrcCtx_def by (simp add: o k(1) crc_layout_def readable_def Let_def c slot_0)
next
  case False
  let ?c = "c\<lparr> desc_num := n \<rparr>"
  have n: "n = length ops + 1" "0 < n" "length [batch_desc c (length ops)] + length ops \<le> n" "n \<le> kMaxInternalBatchSize"
    using False assms(4) by (simp_all add: assms(3) crc_layout_def owns_slots_def)
  obtain dm0 where r: "ResetCtx ?c (dm, rm) = Some (dm0, clear_first c rm)" "written ?c [] dm dm0 n"
    using reset_owned [OF assms(4)] by auto
  obtain dm1 where b: "FillBatch (dsa_hw_descs c) (length ops) (dsa_hw_descs_phys c + kDsaHwDescSize) (dsa_completion_records_phys c) dm0 = Some dm1" "written ?c [batch_desc c (length ops)] dm dm1 n"
    using fill_batch_step [OF r(2) n(2,4), of "length ops"] by auto
  have t: "crc_results c = take (length ops) (crc_results c) @ drop (length ops) (crc_results c)" "length (take (length ops) (crc_results c)) = length ops"
    using assms(2) by simp_all
  note l = crc_loop_ok [OF b(2) n(4,3) t(2), of "[]" tr "drop (length ops) (crc_results c)"]
  show ?thesis
    using l False r(1) b(1) unfolding BuildCrcCtx_def
    by (auto simp: n(1) Let_def crc_layout_def simp del: upt_Suc split: if_splits)
qed


section \<open>Where the checksums are reported\<close>

text \<open>A descriptor that computes the checksum of what an operation moves: a copy with checksum of its only segment, or a
  checksum of its destination.\<close>

definition reports_crc :: "translation \<Rightarrow> DataFlowMoveOperation \<Rightarrow> dsa_hw_desc \<Rightarrow> bool" where
  "reports_crc tr op d \<longleftrightarrow> desc_crc_seed d = ucast (VESAL_CRC_REVISE (seed op)) \<and>
    (opcode d = DSA_OPCODE_COPY_CRC \<and> length (src op) = 1 \<and> src_addr d = look_up_len tr (hd (src op)) (hd (src_len op)) \<and> xfer_size d = ucast (hd (src_len op))
     \<or> opcode d = DSA_OPCODE_CRCGEN \<and> src_addr d = look_up tr (dst op) \<and> xfer_size d = ucast (sum_len (src_len op)))"

lemma reports_copy: "IsCopyWithCrcOk op \<Longrightarrow> reports_crc tr op (copy_desc tr op True d (hd (src op)) (hd (src_len op)))"
  by (simp add: reports_crc_def copy_desc_def IsCopyWithCrcOk_def)

lemma reports_move_crc: "reports_crc tr op (move_crc_desc tr op)"
  by (simp add: reports_crc_def move_crc_desc_def crc_desc_def)

lemma op_descs_hd:
  assumes "well_formed_op op" "enable_crc op" "IsCopyWithCrcOk op"
  shows "\<exists>ds. op_descs tr op = copy_desc tr op True (look_up tr (dst op)) (hd (src op)) (hd (src_len op)) # ds"
  using assms by (cases "src op"; cases "src_len op") (simp_all add: well_formed_op_def op_descs_def)

lemma op_recs_nth:
  assumes "list_all well_formed_op ops" "i < length ops" "enable_crc (ops ! i)" "IsCopyWithCrcOk (ops ! i)"
  shows "\<exists>k < length (xs @ concat (map (op_descs tr) ops)). op_recs c (length xs) ops ! i = rec_at c k
    \<and> reports_crc tr (ops ! i) ((xs @ concat (map (op_descs tr) ops)) ! k)"
  using assms
proof (induction ops arbitrary: xs i)
  case (Cons op ops)
  show ?case
  proof (cases i)
    case 0
    with Cons.prems obtain ds where "op_descs tr op = copy_desc tr op True (look_up tr (dst op)) (hd (src op)) (hd (src_len op)) # ds"
      using op_descs_hd [of op tr] by auto
    with 0 Cons.prems show ?thesis
      by (auto intro!: exI [of _ "length xs"] simp: nth_append reports_copy)
  next
    case (Suc j)
    show ?thesis
      using Cons.IH [of j "xs @ op_descs tr op"] Cons.prems Suc by (simp add: add.assoc)
  qed
qed simp

lemma op_recs_zero: "i < length ops \<Longrightarrow> \<not> (enable_crc (ops ! i) \<and> IsCopyWithCrcOk (ops ! i)) \<Longrightarrow> op_recs c k ops ! i = 0"
  by (induction ops arbitrary: i k) (auto simp: nth_Cons split: nat.splits)

lemma crc_recs_nth:
  assumes "i < length ops" "length rs = length ops" "needs_crc (ops ! i)"
  shows "\<exists>k < length (xs @ map (move_crc_desc tr) (filter needs_crc ops)). crc_recs c (length xs) ops rs ! i = rec_at c k
    \<and> reports_crc tr (ops ! i) ((xs @ map (move_crc_desc tr) (filter needs_crc ops)) ! k)"
  using assms
proof (induction ops arbitrary: xs i rs)
  case (Cons op ops)
  obtain r rs' where rs: "rs = r # rs'" "length rs' = length ops"
    using Cons.prems(2) by (cases rs) simp_all
  show ?case
  proof (cases i)
    case 0
    with Cons.prems show ?thesis
      by (auto intro!: exI [of _ "length xs"] simp: rs(1) nth_append reports_move_crc)
  next
    case (Suc j)
    show ?thesis
      using Cons.IH [of j rs' "if needs_crc op then xs @ [move_crc_desc tr op] else xs"] Cons.prems Suc rs by (simp split: if_splits)
  qed
qed simp

lemma crc_recs_keep: "i < length ops \<Longrightarrow> length rs = length ops \<Longrightarrow> \<not> needs_crc (ops ! i) \<Longrightarrow> crc_recs c k ops rs ! i = rs ! i"
  by (induction c k ops rs arbitrary: i rule: crc_recs.induct) (auto simp: nth_Cons split: nat.splits)


lemma length_crc_recs: "length (crc_recs c k ops rs) = length rs"
  by (induction c k ops rs rule: crc_recs.induct) simp_all

lemma length_move_recs: "length (move_recs c ops) = length ops"
  by (simp add: move_recs_def length_crc_recs)

lemma records_copy:
  assumes "\<not> one_desc ops" "list_all well_formed_op ops" "i < length ops" "enable_crc (ops ! i)" "IsCopyWithCrcOk (ops ! i)"
  shows "\<exists>k < length (move_layout tr c ops). move_recs c ops ! i = rec_at c k \<and> reports_crc tr (ops ! i) (move_layout tr c ops ! k)"
proof -
  let ?b = "batch_desc c (move_desc_num ops - 1)"
  let ?t = "if filter needs_crc ops = [] then [] else fence_desc # map (move_crc_desc tr) (filter needs_crc ops)"
  have l: "move_layout tr c ops = ([?b] @ concat (map (op_descs tr) ops)) @ ?t"
    using assms(1) by (simp add: move_layout_def)
  have "move_recs c ops ! i = op_recs c (length [?b]) ops ! i"
    using assms(1,3,5) crc_recs_keep [of i ops "op_recs c 1 ops"] by (simp add: move_recs_def needs_crc_def)
  moreover obtain k where k: "k < length ([?b] @ concat (map (op_descs tr) ops))" "op_recs c (length [?b]) ops ! i = rec_at c k"
      "reports_crc tr (ops ! i) (([?b] @ concat (map (op_descs tr) ops)) ! k)"
    using op_recs_nth [OF assms(2-5), of "[?b]" tr c] by blast
  moreover have "(([?b] @ concat (map (op_descs tr) ops)) @ ?t) ! k = ([?b] @ concat (map (op_descs tr) ops)) ! k"
    using k(1) unfolding nth_append [of _ ?t] by (rule if_P)
  ultimately show ?thesis
    unfolding l by (intro exI [of _ k]) simp
qed

lemma records_crc:
  assumes "\<not> one_desc ops" "list_all well_formed_op ops" "i < length ops" "needs_crc (ops ! i)"
  shows "\<exists>k < length (move_layout tr c ops). move_recs c ops ! i = rec_at c k \<and> reports_crc tr (ops ! i) (move_layout tr c ops ! k)"
proof -
  let ?xs = "batch_desc c (move_desc_num ops - 1) # concat (map (op_descs tr) ops) @ [fence_desc]"
  have "filter needs_crc ops \<noteq> []"
    using assms(3,4) nth_mem [of i ops] by (auto simp: filter_empty_conv)
  then have l: "move_layout tr c ops = ?xs @ map (move_crc_desc tr) (filter needs_crc ops)"
    using assms(1) by (simp add: move_layout_def)
  have n: "length ?xs = 2 + sum_list (map (length \<circ> src) ops)"
    using well_formed_concat [OF assms(2), of tr] by simp
  have "move_recs c ops = crc_recs c (length ?xs) ops (op_recs c 1 ops)"
    using assms(1) unfolding n by (simp add: move_recs_def)
  then show ?thesis
    using crc_recs_nth [OF assms(3) length_op_recs assms(4), of ?xs tr c c 1] unfolding l by simp
qed

lemma move_recs_nth:
  assumes "list_all well_formed_op ops" "i < length ops"
  shows "if enable_crc (ops ! i)
    then \<exists>k < length (move_layout tr c ops). move_recs c ops ! i = rec_at c k \<and> reports_crc tr (ops ! i) (move_layout tr c ops ! k)
    else move_recs c ops ! i = 0"
proof (cases "one_desc ops")
  case True
  then obtain op s l where "ops = [op]" "src op = [s]" "src_len op = [l]" "enable_crc op \<longrightarrow> IsCopyWithCrcOk op"
    using one_desc_eq [OF _ assms(1)] by blast
  then show ?thesis
    using True assms(2) reports_copy [of op tr] by (simp add: move_recs_def move_layout_def)
next
  case False
  then show ?thesis
    using records_copy [OF False assms, of tr c] records_crc [OF False assms, of tr c]
      op_recs_zero [OF assms(2), of c 1] crc_recs_keep [OF assms(2) length_op_recs, of c _ c 1]
    unfolding move_recs_def needs_crc_def by (cases "enable_crc (ops ! i)"; cases "IsCopyWithCrcOk (ops ! i)") simp_all
qed

text \<open>A concrete operation, translation and context.\<close>

definition two_segments :: DataFlowMoveOperation where
  "two_segments = \<lparr> src = [0x1000, 0x2000], src_len = [16, 32], dst = 0x3000, seed = 7, enable_crc = True \<rparr>"

definition plain_translation :: translation where
  "plain_translation = \<lparr> look_up = \<lambda>v. v + 0x70000000, look_up_len = \<lambda>v n. if n \<le> 0x1000 then v + 0x70000000 else 0 \<rparr>"

definition plain_ctx :: DsaCtx where
  "plain_ctx = \<lparr> desc_memory_chunk = 0x100010, dsa_hw_descs = 0x100040, dsa_hw_descs_phys = 0x70100040, completion_record_memory_chunk = 0x200008,
     dsa_completion_records = 0x200020, dsa_completion_records_phys = 0x70200020, desc_num = 0, crc_results = replicate kMaxSubmittedBatchSize 0,
     work_queue = None \<rparr>"

end
