(* ===== verification/Data_Flow_Channel.thy ===== *)
theory Data_Flow_Channel
  imports Data_Flow Sw_Engine Timer_Manager "HOL-Library.Multiset"
begin

text \<open>The channel of the data flow service, \<^verbatim>\<open>src/src/data_flow/data_flow_channel_impl.{h,cc}\<close>: validation and submission
  of batches, polling with timeouts, and closing.  The requests of a channel are objects in \<open>reqs\<close>; the three lists
  hold their addresses.  The channel is proved correct over any engine that keeps the contract \<open>flow_engine\<close>, on top of
  the timer list.  \<open>None\<close> as a result is an access to a released object, a null pointer or an access outside an array.
  Metrics and logging are outside the model, and so is the conversion of the timeout to clock ticks, which is an
  argument.\<close>

section \<open>The channel\<close>

definition kIoDepthMaximum :: nat where "kIoDepthMaximum = 128"

record 'e DataFlowChannelImpl =
  queue :: "nat list"
  expired_queue :: "nat list"
  cached_resource :: "nat list"
  opts :: DataFlowChannelOptions
  timer_manager :: "TlsObjectPool TimerManager"
  reqs :: "nat \<rightharpoonup> DataFlowRequest"
  engine :: 'e

definition DataFlowChannelImpl_new :: "'e \<Rightarrow> DataFlowChannelOptions \<Rightarrow> u64 \<Rightarrow> nat \<Rightarrow> 'e DataFlowChannelImpl" where
  "DataFlowChannelImpl_new e opt timeout t =
    \<lparr> queue = [], expired_queue = [], cached_resource = [], opts = opt,
      timer_manager = TimerManager_init timeout (TlsObjectPool_init t), reqs = Map.empty, engine = e \<rparr>"

fun free_all :: "('a, 'e) DataFlowEngine \<Rightarrow> nat list \<Rightarrow> 'e DataFlowChannelImpl \<Rightarrow> 'e DataFlowChannelImpl option" where
  "free_all eng [] ch = Some ch"
| "free_all eng (p # ps) ch =
    (case reqs ch p of
       None \<Rightarrow> None
     | Some req \<Rightarrow>
         (case vClearCtx eng req (engine ch) of
            None \<Rightarrow> None
          | Some e \<Rightarrow> free_all eng ps (ch\<lparr> engine := e, reqs := (reqs ch)(p := None) \<rparr>)))"

text \<open>For every request \<^verbatim>\<open>Init\<close> creates: its address, its contents before it is built, and what the engine's allocators
  answer.\<close>

fun init_loop :: "('a, 'e) DataFlowEngine \<Rightarrow> (nat \<times> DataFlowRequest \<times> 'a) list \<Rightarrow> 'e DataFlowChannelImpl \<Rightarrow>
    (StatusCode \<times> 'e DataFlowChannelImpl) option" where
  "init_loop eng [] ch = Some (kOk, ch)"
| "init_loop eng ((p, junk, a) # news) ch =
    (case vPreallocateCtx eng a junk (engine ch) of
       None \<Rightarrow> None
     | Some (result, req, e) \<Rightarrow>
         if result \<noteq> kOk
         then map_option (\<lambda>ch'. (result, ch'\<lparr> cached_resource := [] \<rparr>)) (free_all eng (cached_resource ch) (ch\<lparr> engine := e \<rparr>))
         else init_loop eng news
                (ch\<lparr> engine := e, reqs := (reqs ch)(p \<mapsto> req), cached_resource := cached_resource ch @ [p] \<rparr>))"

definition Channel_Init :: "('a, 'e) DataFlowEngine \<Rightarrow> (nat \<Rightarrow> nat \<times> DataFlowRequest \<times> 'a) \<Rightarrow> 'e DataFlowChannelImpl \<Rightarrow>
    (StatusCode \<times> 'e DataFlowChannelImpl) option" where
  "Channel_Init eng news ch = init_loop eng (map news [0..<kIoDepthMaximum]) ch"

section \<open>Submission\<close>

definition SubmitRequest :: "('a, 'e) DataFlowEngine \<Rightarrow> pool_params \<Rightarrow> nat option \<Rightarrow> u64 \<Rightarrow> operations \<Rightarrow> nat \<Rightarrow> u64 \<Rightarrow> u64 \<Rightarrow> nat \<Rightarrow>
    'e DataFlowChannelImpl \<Rightarrow> (StatusCode \<times> 'e DataFlowChannelImpl) option" where
  "SubmitRequest eng P mem now ops num move_size crc_size uctx ch =
    (case cached_resource ch of
       [] \<Rightarrow> Some (kResourceBusy, ch)
     | p # rest \<Rightarrow>
         (case reqs ch p of
            None \<Rightarrow> None
          | Some r \<Rightarrow>
              let req = Build ops num uctx (opt_schedule_hint (opts ch)) move_size crc_size r in
              (case vSubmit eng req (engine ch) of
                 None \<Rightarrow> None
               | Some (result, e) \<Rightarrow>
                   if result = kOk
                   then map_option (\<lambda>(t, tm). (result,
                          ch\<lparr> cached_resource := rest, queue := queue ch @ [p], timer_manager := tm, engine := e,
                              reqs := (reqs ch)(p \<mapsto> req\<lparr> timer_ctx := Some t, req_op := None \<rparr>) \<rparr>))
                        (AddTimer (get_local_object P) mem now p (timer_manager ch))
                   else Some (result, ch\<lparr> cached_resource := rest @ [p], engine := e, reqs := (reqs ch)(p \<mapsto> req\<lparr> req_op := None \<rparr>) \<rparr>))))"

fun check_lens :: "u64 list \<Rightarrow> u64 \<Rightarrow> u64 option" where
  "check_lens [] total_length = Some total_length"
| "check_lens (l # ls) total_length = (if l = 0 then None else check_lens ls (total_length + l))"

fun check_moves :: "DataFlowMoveOperation list \<Rightarrow> u64 \<Rightarrow> u64 \<Rightarrow> nat \<Rightarrow> (u64 \<times> u64 \<times> nat) option" where
  "check_moves [] move_size crc_size segment_num = Some (move_size, crc_size, segment_num)"
| "check_moves (op # ops) move_size crc_size segment_num =
    (let op_src_size = length (src op) in
     if op_src_size = 0 \<or> op_src_size \<noteq> length (src_len op) \<or> op_src_size > kMaxSrcSegmentNum then None
     else
       (case check_lens (src_len op) 0 of
          None \<Rightarrow> None
        | Some total_length \<Rightarrow>
            if total_length > kMaxTotalLength then None
            else check_moves ops (move_size + total_length) (crc_size + (if enable_crc op then total_length else 0)) (segment_num + op_src_size)))"

definition SubmitMove :: "('a, 'e) DataFlowEngine \<Rightarrow> pool_params \<Rightarrow> nat option \<Rightarrow> u64 \<Rightarrow> DataFlowMoveOperation list \<Rightarrow> nat \<Rightarrow>
    'e DataFlowChannelImpl \<Rightarrow> (StatusCode \<times> 'e DataFlowChannelImpl) option" where
  "SubmitMove eng P mem now ops uctx ch =
    (let num = length ops in
     if num > kMaxSubmittedBatchSize then Some (kInvalidArgument, ch)
     else
       (case check_moves ops 0 0 0 of
          None \<Rightarrow> Some (kInvalidArgument, ch)
        | Some (move_size, crc_size, segment_num) \<Rightarrow>
            if 1 + segment_num + 1 + num > kMaxInternalBatchSize then Some (kInvalidArgument, ch)
            else SubmitRequest eng P mem now (kMove ops) num move_size crc_size uctx ch))"

fun check_crcs :: "DataFlowCrcOperation list \<Rightarrow> u64 \<Rightarrow> u64 option" where
  "check_crcs [] crc_size = Some crc_size"
| "check_crcs (op # ops) crc_size =
    (if crc_len op > kMaxTotalLength \<or> crc_len op = 0 then None else check_crcs ops (crc_size + crc_len op))"

definition SubmitCrc :: "('a, 'e) DataFlowEngine \<Rightarrow> pool_params \<Rightarrow> nat option \<Rightarrow> u64 \<Rightarrow> DataFlowCrcOperation list \<Rightarrow> nat \<Rightarrow>
    'e DataFlowChannelImpl \<Rightarrow> (StatusCode \<times> 'e DataFlowChannelImpl) option" where
  "SubmitCrc eng P mem now ops uctx ch =
    (let num = length ops in
     if num > kMaxSubmittedBatchSize then Some (kInvalidArgument, ch)
     else if 1 + num > kMaxInternalBatchSize then Some (kInvalidArgument, ch)
     else
       (case check_crcs ops 0 of
          None \<Rightarrow> Some (kInvalidArgument, ch)
        | Some crc_size \<Rightarrow> SubmitRequest eng P mem now (kCrc ops) num 0 crc_size uctx ch))"

section \<open>Polling and closing\<close>

definition check_request :: "('a, 'e) DataFlowEngine \<Rightarrow> nat \<Rightarrow> DataFlowResult \<Rightarrow> 'e DataFlowChannelImpl \<Rightarrow>
    (DataFlowRequest \<times> DataFlowResult \<times> 'e DataFlowChannelImpl) option" where
  "check_request eng p res ch =
    (case reqs ch p of
       None \<Rightarrow> None
     | Some req \<Rightarrow>
         map_option (\<lambda>(req', res', e). (req', res', ch\<lparr> engine := e, reqs := (reqs ch)(p \<mapsto> req') \<rparr>))
           (vCheckCompletion eng req res (engine ch)))"

text \<open>The first loop of \<^verbatim>\<open>Poll\<close>: \<open>seen\<close> are the requests before the iterator, which stay in the queue.\<close>

fun poll_loop :: "('a, 'e) DataFlowEngine \<Rightarrow> pool_params \<Rightarrow> nat \<Rightarrow> nat list \<Rightarrow> nat list \<Rightarrow> DataFlowResult list \<Rightarrow> nat \<Rightarrow>
    'e DataFlowChannelImpl \<Rightarrow> (nat list \<times> DataFlowResult list \<times> nat \<times> 'e DataFlowChannelImpl) option" where
  "poll_loop eng P max_num seen [] results n ch = Some (seen, results, n, ch)"
| "poll_loop eng P max_num seen (p # ps) results n ch =
    (if n \<ge> max_num then Some (seen @ p # ps, results, n, ch)
     else if n \<ge> length results then None
     else
       (case reqs ch p of
          None \<Rightarrow> None
        | Some req \<Rightarrow>
            if expired req
            then poll_loop eng P max_num seen ps
                   (results[n := (results ! n)\<lparr> result_status := kTimeout, result_ctx := user_ctx req \<rparr>]) (n + 1)
                   (ch\<lparr> expired_queue := expired_queue ch @ [p] \<rparr>)
            else
              (case check_request eng p (results ! n) ch of
                 None \<Rightarrow> None
               | Some (req', res, ch1) \<Rightarrow>
                   if completed req'
                   then (case RemoveTimer (pool_put P) (timer_ctx req') (timer_manager ch1) of
                           None \<Rightarrow> None
                         | Some tm \<Rightarrow>
                             poll_loop eng P max_num seen ps (results[n := res]) (n + 1)
                               (ch1\<lparr> timer_manager := tm, cached_resource := cached_resource ch1 @ [p] \<rparr>))
                   else if order_type (opts ch1) = kOrdered then Some (seen @ p # ps, results[n := res], n, ch1)
                   else poll_loop eng P max_num (seen @ [p]) ps (results[n := res]) n ch1)))"

text \<open>The callback of the timers.\<close>

fun mark_expired :: "nat list \<Rightarrow> (nat \<rightharpoonup> DataFlowRequest) \<Rightarrow> (nat \<rightharpoonup> DataFlowRequest) option" where
  "mark_expired [] rq = Some rq"
| "mark_expired (p # ps) rq = (case rq p of None \<Rightarrow> None | Some r \<Rightarrow> mark_expired ps (rq(p \<mapsto> r\<lparr> expired := True \<rparr>)))"

text \<open>The loops over the expired requests: \<^verbatim>\<open>Poll\<close> takes a new result for every request, \<open>blank\<close>, and
  \<^verbatim>\<open>PollDiscardedResult\<close> the same for all.\<close>

fun expired_loop :: "('a, 'e) DataFlowEngine \<Rightarrow> DataFlowResult option \<Rightarrow> nat list \<Rightarrow> nat list \<Rightarrow> DataFlowResult \<Rightarrow> 'e DataFlowChannelImpl \<Rightarrow>
    'e DataFlowChannelImpl option" where
  "expired_loop eng blank seen [] res ch = Some (ch\<lparr> expired_queue := seen \<rparr>)"
| "expired_loop eng blank seen (p # ps) res ch =
    (case check_request eng p (case blank of None \<Rightarrow> res | Some b \<Rightarrow> b) ch of
       None \<Rightarrow> None
     | Some (req, res', ch1) \<Rightarrow>
         if completed req
         then expired_loop eng blank seen ps res' (ch1\<lparr> cached_resource := cached_resource ch1 @ [p] \<rparr>)
         else expired_loop eng blank (seen @ [p]) ps res' ch1)"

definition Poll :: "('a, 'e) DataFlowEngine \<Rightarrow> pool_params \<Rightarrow> DataFlowResult \<Rightarrow> u64 \<Rightarrow> DataFlowResult list \<Rightarrow> nat \<Rightarrow>
    'e DataFlowChannelImpl \<Rightarrow> (nat \<times> DataFlowResult list \<times> 'e DataFlowChannelImpl) option" where
  "Poll eng P blank now results max_num ch =
    (case poll_loop eng P max_num [] (queue ch) results 0 ch of
       None \<Rightarrow> None
     | Some (q, results', result_num, ch1) \<Rightarrow>
         (case HandleTimeout (pool_put P) now (timer_manager ch1) of
            None \<Rightarrow> None
          | Some (fired, tm) \<Rightarrow>
              (case mark_expired fired (reqs ch1) of
                 None \<Rightarrow> None
               | Some rq \<Rightarrow>
                   map_option (\<lambda>ch'. (result_num, results', ch'))
                     (expired_loop eng (Some blank) [] (expired_queue ch1) blank (ch1\<lparr> queue := q, timer_manager := tm, reqs := rq \<rparr>)))))"

fun discard_loop :: "('a, 'e) DataFlowEngine \<Rightarrow> pool_params \<Rightarrow> nat list \<Rightarrow> nat list \<Rightarrow> DataFlowResult \<Rightarrow> 'e DataFlowChannelImpl \<Rightarrow>
    (DataFlowResult \<times> 'e DataFlowChannelImpl) option" where
  "discard_loop eng P seen [] res ch = Some (res, ch\<lparr> queue := seen \<rparr>)"
| "discard_loop eng P seen (p # ps) res ch =
    (case check_request eng p res ch of
       None \<Rightarrow> None
     | Some (req, res', ch1) \<Rightarrow>
         if completed req
         then (case RemoveTimer (pool_put P) (timer_ctx req) (timer_manager ch1) of
                 None \<Rightarrow> None
               | Some tm \<Rightarrow> discard_loop eng P seen ps res' (ch1\<lparr> timer_manager := tm, cached_resource := cached_resource ch1 @ [p] \<rparr>))
         else discard_loop eng P (seen @ [p]) ps res' ch1)"

definition PollDiscardedResult :: "('a, 'e) DataFlowEngine \<Rightarrow> pool_params \<Rightarrow> DataFlowResult \<Rightarrow> 'e DataFlowChannelImpl \<Rightarrow>
    'e DataFlowChannelImpl option" where
  "PollDiscardedResult eng P blank ch =
    (case discard_loop eng P [] (queue ch) blank ch of
       None \<Rightarrow> None
     | Some (res, ch1) \<Rightarrow> expired_loop eng None [] (expired_queue ch1) res ch1)"

definition Close :: "('a, 'e) DataFlowEngine \<Rightarrow> pool_params \<Rightarrow> DataFlowResult \<Rightarrow> 'e DataFlowChannelImpl \<Rightarrow>
    (StatusCode \<times> 'e DataFlowChannelImpl) option" where
  "Close eng P blank ch =
    (case PollDiscardedResult eng P blank ch of
       None \<Rightarrow> None
     | Some ch1 \<Rightarrow>
         if queue ch1 \<noteq> [] \<or> expired_queue ch1 \<noteq> [] then Some (kResourceBusy, ch1)
         else map_option (\<lambda>ch'. (kOk, ch')) (free_all eng (cached_resource ch1) ch1))"

section \<open>The invariant\<close>

abbreviation ctx_of :: "(nat \<rightharpoonup> DataFlowRequest) \<Rightarrow> nat \<Rightarrow> nat" where
  "ctx_of rq p \<equiv> engine_ctx (the (rq p))"

abbreviation unexpired :: "(nat \<rightharpoonup> DataFlowRequest) \<Rightarrow> nat \<Rightarrow> bool" where
  "unexpired rq p \<equiv> \<not> expired (the (rq p))"

text \<open>\<open>Q\<close>, \<open>E\<close> and \<open>C\<close> are the queued, expired and cached requests.  Every request is in exactly one of the lists; the
  engine knows the contexts of the submitted ones; and the timer list holds, in order, the timers of the queued requests
  that have not expired.\<close>

definition lists_ok :: "nat list \<Rightarrow> nat list \<Rightarrow> nat list \<Rightarrow> (nat \<rightharpoonup> DataFlowRequest) \<Rightarrow> bool" where
  "lists_ok Q E C rq \<longleftrightarrow> distinct (Q @ E @ C) \<and> set (Q @ E @ C) = dom rq \<and> inj_on (ctx_of rq) (dom rq)
     \<and> (\<forall>p \<in> set Q \<union> set E. \<not> completed (the (rq p)))"

definition eng_ok :: "('e \<Rightarrow> (nat \<rightharpoonup> nat) \<Rightarrow> nat set \<Rightarrow> bool) \<Rightarrow> nat set \<Rightarrow> nat set \<Rightarrow> (nat \<rightharpoonup> DataFlowRequest) \<Rightarrow> 'e \<Rightarrow> bool" where
  "eng_ok einv B C rq e \<longleftrightarrow>
    (\<exists>busy. einv e busy (ctx_of rq ` C) \<and> (\<forall>a n. busy a = Some n \<longleftrightarrow> (\<exists>p \<in> B. ctx_of rq p = a \<and> req_num (the (rq p)) = n)))"

definition timers_ok :: "pool_params \<Rightarrow> u64 \<Rightarrow> nat list \<Rightarrow> (nat \<rightharpoonup> DataFlowRequest) \<Rightarrow> TlsObjectPool TimerManager \<Rightarrow>
    (nat \<times> nat \<times> u64) list \<Rightarrow> u64 \<Rightarrow> bool" where
  "timers_ok P ts Q rq tm xs clk \<longleftrightarrow> holds_timers P ts tm xs clk
     \<and> map (\<lambda>x. (Some (fst x), fst (snd x))) xs = map (\<lambda>p. (timer_ctx (the (rq p)), p)) (filter (unexpired rq) Q)"

definition chan_ok :: "('e \<Rightarrow> (nat \<rightharpoonup> nat) \<Rightarrow> nat set \<Rightarrow> bool) \<Rightarrow> pool_params \<Rightarrow> u64 \<Rightarrow> nat list \<Rightarrow> nat list \<Rightarrow>
    'e DataFlowChannelImpl \<Rightarrow> u64 \<Rightarrow> bool" where
  "chan_ok einv P ts Q E ch clk \<longleftrightarrow> lists_ok Q E (cached_resource ch) (reqs ch)
     \<and> eng_ok einv (set Q \<union> set E) (set (cached_resource ch)) (reqs ch) (engine ch)
     \<and> (\<exists>xs. timers_ok P ts Q (reqs ch) (timer_manager ch) xs clk)"

text \<open>What polling leaves alone in every request.\<close>

definition same_requests :: "(nat \<rightharpoonup> DataFlowRequest) \<Rightarrow> (nat \<rightharpoonup> DataFlowRequest) \<Rightarrow> bool" where
  "same_requests rq rq' \<longleftrightarrow> (\<forall>p. map_option (\<lambda>r. (engine_ctx r, user_ctx r, req_num r, timer_ctx r)) (rq' p)
     = map_option (\<lambda>r. (engine_ctx r, user_ctx r, req_num r, timer_ctx r)) (rq p))"

lemma same_requests_refl [simp]: "same_requests rq rq"
  by (simp add: same_requests_def)

lemma same_requests_trans: "same_requests rq rq' \<Longrightarrow> same_requests rq' rq'' \<Longrightarrow> same_requests rq rq''"
  by (simp add: same_requests_def)

lemma same_requests_dom: "same_requests rq rq' \<Longrightarrow> dom rq' = dom rq"
  unfolding same_requests_def dom_def by (metis (no_types, lifting) map_option_is_None)

lemma same_requests_the:
  assumes "same_requests rq rq'" "p \<in> dom rq"
  shows "ctx_of rq' p = ctx_of rq p" "user_ctx (the (rq' p)) = user_ctx (the (rq p))"
    "req_num (the (rq' p)) = req_num (the (rq p))" "timer_ctx (the (rq' p)) = timer_ctx (the (rq p))"
proof -
  obtain r r' where "rq p = Some r" "rq' p = Some r'"
    using assms(2) same_requests_dom [OF assms(1)] by blast
  moreover have "map_option (\<lambda>r. (engine_ctx r, user_ctx r, req_num r, timer_ctx r)) (rq' p)
      = map_option (\<lambda>r. (engine_ctx r, user_ctx r, req_num r, timer_ctx r)) (rq p)"
    using assms(1) by (simp only: same_requests_def)
  ultimately show "ctx_of rq' p = ctx_of rq p" "user_ctx (the (rq' p)) = user_ctx (the (rq p))"
    "req_num (the (rq' p)) = req_num (the (rq p))" "timer_ctx (the (rq' p)) = timer_ctx (the (rq p))"
    by simp_all
qed

lemma same_requests_upd:
  assumes "rq p = Some r" "engine_ctx r' = engine_ctx r" "user_ctx r' = user_ctx r" "req_num r' = req_num r" "timer_ctx r' = timer_ctx r"
  shows "same_requests rq (rq(p \<mapsto> r'))"
  using assms by (simp add: same_requests_def)

lemma same_requests_completed: "rq p = Some r \<Longrightarrow> r' = r\<lparr> completed := completed r' \<rparr> \<Longrightarrow> same_requests rq (rq(p \<mapsto> r'))"
  by (cases r; cases r') (simp add: same_requests_def)

lemma eng_ok_same:
  assumes s: "same_requests rq rq'" and sub: "B \<union> C \<subseteq> dom rq" and ok: "eng_ok einv B C rq e"
  shows "eng_ok einv B C rq' e"
proof -
  have d: "p \<in> dom rq" if "p \<in> B \<union> C" for p
    using sub that by blast
  have "ctx_of rq' ` C = ctx_of rq ` C"
    using same_requests_the(1) [OF s d] by (intro image_cong) simp_all
  moreover have "(\<exists>p \<in> B. ctx_of rq' p = a \<and> req_num (the (rq' p)) = n) \<longleftrightarrow> (\<exists>p \<in> B. ctx_of rq p = a \<and> req_num (the (rq p)) = n)" for a n
    using same_requests_the(1,3) [OF s d] by (intro bex_cong) simp_all
  ultimately show ?thesis
    using ok by (simp add: eng_ok_def)
qed

lemma lists_ok_same:
  assumes "same_requests rq rq'" "lists_ok Q E C rq" "\<And>p. p \<in> set Q \<union> set E \<Longrightarrow> completed (the (rq' p)) = completed (the (rq p))"
  shows "lists_ok Q E C rq'"
proof -
  have "inj_on (ctx_of rq') (dom rq)"
    using assms(1,2) same_requests_the(1) [OF assms(1)] by (simp add: lists_ok_def inj_on_def)
  then show ?thesis
    using assms same_requests_dom [OF assms(1)] by (simp add: lists_ok_def)
qed

lemma lists_ok_complete:
  assumes l: "lists_ok Q E C rq" and same: "same_requests rq (rq(p \<mapsto> r))"
    and p: "set Q' \<union> set E' = set Q \<union> set E - {p}" "p \<in> set Q \<union> set E" "distinct (Q' @ E')"
  shows "lists_ok Q' E' (C @ [p]) (rq(p \<mapsto> r))"
proof -
  have "inj_on (ctx_of (rq(p \<mapsto> r))) (dom rq)"
    using l same_requests_the(1) [OF same] by (simp add: lists_ok_def inj_on_def)
  moreover have "\<forall>q \<in> set Q' \<union> set E'. \<not> completed (the ((rq(p \<mapsto> r)) q))"
    using l p(1) by (auto simp: lists_ok_def)
  moreover have "distinct (Q' @ E' @ C @ [p])" "set (Q' @ E' @ C @ [p]) = dom rq"
    using l p by (auto simp: lists_ok_def)
  ultimately show ?thesis
    using same_requests_dom [OF same] by (simp add: lists_ok_def)
qed

section \<open>Polling over any engine\<close>

text \<open>One step of the loops on the timers and on the engine.\<close>

lemma timers_ok_remove:
  assumes ok: "timers_ok P ts (as @ p # bs) rq tm xs clk" and live: "unexpired rq p" and dist: "distinct (as @ p # bs)"
  shows "\<exists>tm' xs'. RemoveTimer (pool_put P) (timer_ctx (the (rq p))) tm = Some tm' \<and> timers_ok P ts (as @ bs) rq tm' xs' clk"
proof -
  let ?f = "filter (unexpired rq)"
  have m: "map (\<lambda>x. (Some (fst x), fst (snd x))) xs = map (\<lambda>p. (timer_ctx (the (rq p)), p)) (?f as @ p # ?f bs)"
    using ok live by (simp add: timers_ok_def)
  then obtain us x vs where xs: "xs = us @ x # vs" "map (\<lambda>x. (Some (fst x), fst (snd x))) us = map (\<lambda>p. (timer_ctx (the (rq p)), p)) (?f as)"
    "Some (fst x) = timer_ctx (the (rq p))" "map (\<lambda>x. (Some (fst x), fst (snd x))) vs = map (\<lambda>p. (timer_ctx (the (rq p)), p)) (?f bs)"
    by (auto simp: map_eq_append_conv map_eq_Cons_conv append_eq_map_conv Cons_eq_map_conv)
  have h: "holds_timers P ts tm xs clk"
    using ok by (simp add: timers_ok_def)
  then have "distinct (map fst xs)"
    by (auto simp: holds_timers_def timers_def)
  from filter_out_one [OF this xs(1)] have f: "filter (\<lambda>y. fst y \<noteq> fst x) xs = us @ vs" .
  obtain tm' where "RemoveTimer (pool_put P) (Some (fst x)) tm = Some tm'" "holds_timers P ts tm' (us @ vs) clk"
    using holds_timers_RemoveTimer [OF h, of "fst x"] xs(1) f by auto
  then show ?thesis
    using xs by (auto simp: timers_ok_def)
qed

lemma timers_ok_expired:
  assumes "timers_ok P ts (as @ p # bs) rq tm xs clk" "\<not> unexpired rq p"
  shows "timers_ok P ts (as @ bs) rq tm xs clk"
  using assms by (simp add: timers_ok_def)

lemma timers_ok_same:
  assumes "timers_ok P ts Q rq tm xs clk" "same_requests rq rq'" "set Q \<subseteq> dom rq"
    "\<And>p. p \<in> set Q \<Longrightarrow> expired (the (rq' p)) = expired (the (rq p))"
  shows "timers_ok P ts Q rq' tm xs clk"
proof -
  have "filter (unexpired rq') Q = filter (unexpired rq) Q"
    using assms(4) by (intro filter_cong) simp_all
  moreover have "timer_ctx (the (rq' p)) = timer_ctx (the (rq p))" if "p \<in> set Q" for p
    using same_requests_the(4) [OF assms(2)] assms(3) that by blast
  ultimately show ?thesis
    using assms(1) by (simp add: timers_ok_def)
qed

lemma mark_expired_eq:
  "set ps \<subseteq> dom rq \<Longrightarrow> mark_expired ps rq = Some (\<lambda>p. if p \<in> set ps then map_option (\<lambda>r. r\<lparr> expired := True \<rparr>) (rq p) else rq p)"
proof (induction ps arbitrary: rq)
  case (Cons p ps)
  then obtain r where r: "rq p = Some r" and sub: "set ps \<subseteq> dom (rq(p \<mapsto> r\<lparr> expired := True \<rparr>))"
    by auto
  have "mark_expired (p # ps) rq = mark_expired ps (rq(p \<mapsto> r\<lparr> expired := True \<rparr>))"
    using r by simp
  also have "\<dots> = Some (\<lambda>q. if q \<in> set (p # ps) then map_option (\<lambda>r. r\<lparr> expired := True \<rparr>) (rq q) else rq q)"
    unfolding Cons.IH [OF sub] using r by (auto simp: fun_eq_iff)
  finally show ?case .
qed simp

lemma timers_ok_fire:
  assumes ok: "timers_ok P ts Q rq tm xs clk" and clk: "clk \<le> now" and Q: "distinct Q" "set Q \<subseteq> dom rq"
  shows "\<exists>fired tm' rq' xs'. HandleTimeout (pool_put P) now tm = Some (fired, tm') \<and> mark_expired fired rq = Some rq'
    \<and> timers_ok P ts Q rq' tm' xs' now \<and> same_requests rq rq' \<and> (\<forall>p. completed (the (rq' p)) = completed (the (rq p)))"
proof -
  let ?L = "filter (unexpired rq) Q" and ?late = "filter (\<lambda>x. now < snd (snd x)) xs"
  define fired where "fired = map (fst \<circ> snd) (filter (\<lambda>x. snd (snd x) \<le> now) xs)"
  define rq' where "rq' = (\<lambda>p. if p \<in> set fired then map_option (\<lambda>r. r\<lparr> expired := True \<rparr>) (rq p) else rq p)"
  have h: "holds_timers P ts tm xs clk" and m: "map (\<lambda>x. (Some (fst x), fst (snd x))) xs = map (\<lambda>p. (timer_ctx (the (rq p)), p)) ?L"
    using ok by (simp_all add: timers_ok_def)
  obtain tm' where tm': "HandleTimeout (pool_put P) now tm = Some (fired, tm')" "holds_timers P ts tm' ?late now"
    using holds_timers_HandleTimeout [OF h clk] unfolding fired_def by blast
  have L: "map (fst \<circ> snd) xs = ?L"
    using arg_cong [OF m, of "map snd"] by (simp add: comp_def)
  have x: "timer_ctx (the (rq (fst (snd x)))) = Some (fst x) \<and> fst (snd x) \<in> set ?L" if "x \<in> set xs" for x
  proof -
    have "(Some (fst x), fst (snd x)) \<in> set (map (\<lambda>p. (timer_ctx (the (rq p)), p)) ?L)"
      unfolding m [symmetric] using that by simp
    then show ?thesis
      by auto
  qed
  have same: "same_requests rq rq'"
    by (auto simp: same_requests_def rq'_def option.map_comp comp_def)
  have "distinct (map (fst \<circ> snd) xs)"
    unfolding L using Q(1) by simp
  then have inj: "inj_on (fst \<circ> snd) (set xs)"
    by (simp only: distinct_map)
  have in_fired: "(fst \<circ> snd) x \<in> set fired \<longleftrightarrow> snd (snd x) \<le> now" if x: "x \<in> set xs" for x
  proof
    assume "(fst \<circ> snd) x \<in> set fired"
    then obtain y where "y \<in> set xs" "snd (snd y) \<le> now" "(fst \<circ> snd) x = (fst \<circ> snd) y"
      by (auto simp: fired_def)
    then show "snd (snd x) \<le> now"
      using inj_onD [OF inj _ x, of y] by simp
  qed (use x in \<open>auto simp: fired_def intro!: image_eqI [of _ _ x]\<close>)
  have live: "filter (unexpired rq') Q = map (fst \<circ> snd) ?late"
  proof -
    have "unexpired rq' p \<longleftrightarrow> unexpired rq p \<and> p \<notin> set fired" if "p \<in> set Q" for p
      using that Q(2) by (auto simp: rq'_def)
    then have "filter (unexpired rq') Q = filter (\<lambda>p. p \<notin> set fired) ?L"
      unfolding filter_filter by (intro filter_cong) simp_all
    also have "\<dots> = map (fst \<circ> snd) (filter ((\<lambda>p. p \<notin> set fired) \<circ> (fst \<circ> snd)) xs)"
      unfolding L [symmetric] by (rule filter_map)
    also have "filter ((\<lambda>p. p \<notin> set fired) \<circ> (fst \<circ> snd)) xs = ?late"
      using in_fired by (intro filter_cong) (simp_all add: not_le)
    finally show ?thesis .
  qed
  have "timer_ctx (the (rq' (fst (snd y)))) = Some (fst y)" if "y \<in> set ?late" for y
    using x [of y] that same_requests_the(4) [OF same, of "fst (snd y)"] Q(2) by auto
  then have "timers_ok P ts Q rq' tm' ?late now"
    unfolding timers_ok_def live using tm'(2) by simp
  moreover have "mark_expired fired rq = Some rq'"
  proof -
    have "set fired \<subseteq> set ?L"
      unfolding L [symmetric] fired_def by auto
    then have "set fired \<subseteq> dom rq"
      using Q(2) by auto
    then show ?thesis
      unfolding rq'_def by (rule mark_expired_eq)
  qed
  moreover have "completed (the (rq' p)) = completed (the (rq p))" for p
    by (cases "rq p") (simp_all add: rq'_def)
  ultimately show ?thesis
    using tm'(1) same by blast
qed

text \<open>What one run of the polling loop does to the results: \<open>D\<close> are the delivered requests, \<open>u\<close> gives their user
  contexts.\<close>

definition polled :: "(nat \<Rightarrow> nat) \<Rightarrow> bool \<Rightarrow> nat \<Rightarrow> nat list \<Rightarrow> nat list \<Rightarrow> DataFlowResult list \<Rightarrow> nat \<Rightarrow>
    nat list \<Rightarrow> DataFlowResult list \<Rightarrow> nat \<Rightarrow> nat list \<Rightarrow> bool" where
  "polled u ordered max_num seen ps rs n Q rs' n' D \<longleftrightarrow> length rs' = length rs \<and> n' = n + length D \<and> n' \<le> max_num
     \<and> map result_ctx (take n' rs') = map result_ctx (take n rs) @ map u D
     \<and> mset (seen @ ps) = mset Q + mset D \<and> (ordered \<longrightarrow> seen = [] \<longrightarrow> ps = D @ Q)"

lemma polled_stop: "n \<le> max_num \<Longrightarrow> polled u ordered max_num seen ps rs n (seen @ ps) rs n []"
  by (simp add: polled_def)

lemma polled_take:
  assumes "polled u ordered max_num seen ps (rs[n := res]) (n + 1) Q rs' n' D" "result_ctx res = u p" "n < max_num" "max_num \<le> length rs"
  shows "polled u ordered max_num seen (p # ps) rs n Q rs' n' (p # D)"
  using assms by (auto simp: polled_def take_Suc_conv_app_nth)

lemma polled_skip:
  assumes "polled u ordered max_num (seen @ [p]) ps rs n Q rs' n' D" "\<not> ordered"
  shows "polled u ordered max_num seen (p # ps) rs n Q rs' n' D"
  using assms by (auto simp: polled_def)

lemma polled_members: "polled u ordered max_num seen ps rs n Q rs' n' D \<Longrightarrow> set D \<subseteq> set (seen @ ps)"
  unfolding polled_def by (metis UnCI set_mset_mset set_mset_union subsetI)

lemma polled_cong:
  assumes "polled u ordered max_num seen ps rs n Q rs' n' D" "\<And>p. p \<in> set (seen @ ps) \<Longrightarrow> u p = v p"
  shows "polled v ordered max_num seen ps rs n Q rs' n' D"
proof -
  have "map u D = map v D"
    using polled_members [OF assms(1)] assms(2) by (intro map_cong) auto
  from assms(1) [unfolded polled_def this] show ?thesis
    unfolding polled_def .
qed

context flow_engine
begin

lemma check_eng_ok:
  assumes ok: "eng_ok einv B C rq e" and p: "p \<in> B" "rq p = Some r" "\<not> completed r" and inj: "inj_on (ctx_of rq) (B \<union> C)" and disj: "p \<notin> C"
  shows "\<exists>r' res' e'. vCheckCompletion eng r res e = Some (r', res', e') \<and> r' = r\<lparr> completed := completed r' \<rparr>
    \<and> (if completed r' then result_ctx res' = user_ctx r \<and> eng_ok einv (B - {p}) (insert p C) rq e' else res' = res \<and> eng_ok einv B C rq e')"
proof -
  obtain busy where busy: "einv e busy (ctx_of rq ` C)" "\<forall>a n. busy a = Some n \<longleftrightarrow> (\<exists>q \<in> B. ctx_of rq q = a \<and> req_num (the (rq q)) = n)"
    using ok by (auto simp: eng_ok_def)
  have "busy (engine_ctx r) = Some (req_num r)"
    using busy(2) p(1,2) by force
  from check_einv [OF busy(1) this p(3), of res] obtain r' res' e' where c: "vCheckCompletion eng r res e = Some (r', res', e')" "r' = r\<lparr> completed := completed r' \<rparr>"
    "if completed r' then result_ctx res' = user_ctx r \<and> einv e' (busy(engine_ctx r := None)) (insert (engine_ctx r) (ctx_of rq ` C))
     else res' = res \<and> einv e' busy (ctx_of rq ` C)"
    by blast
  have uniq: "ctx_of rq q = engine_ctx r \<longleftrightarrow> q = p" if "q \<in> B" for q
    using inj_onD [OF inj, of q p] that p(1,2) by auto
  have "(busy(engine_ctx r := None)) a = Some n \<longleftrightarrow> (\<exists>q \<in> B - {p}. ctx_of rq q = a \<and> req_num (the (rq q)) = n)" for a n
    using busy(2) uniq by auto
  then have "eng_ok einv (B - {p}) (insert p C) rq e'" if "completed r'"
    using c(3) that p(2) unfolding eng_ok_def by (intro exI [of _ "busy(engine_ctx r := None)"]) simp
  moreover have "eng_ok einv B C rq e'" if "\<not> completed r'"
    using c(3) that busy(2) by (auto simp: eng_ok_def)
  ultimately show ?thesis
    using c by auto
qed

lemma check_chan:
  assumes ok: "chan_ok einv P ts Q E ch clk" and p: "p \<in> set Q \<union> set E"
  shows "\<exists>r' res' ch'. check_request eng p res ch = Some (r', res', ch') \<and> same_requests (reqs ch) (reqs ch')
    \<and> ch' = ch\<lparr> engine := engine ch', reqs := (reqs ch)(p \<mapsto> r') \<rparr> \<and> r' = (the (reqs ch p))\<lparr> completed := completed r' \<rparr>
    \<and> (if completed r' then result_ctx res' = user_ctx (the (reqs ch p))
         \<and> eng_ok einv (set Q \<union> set E - {p}) (insert p (set (cached_resource ch))) (reqs ch') (engine ch')
       else res' = res \<and> chan_ok einv P ts Q E ch' clk)"
proof -
  have l: "lists_ok Q E (cached_resource ch) (reqs ch)" and e: "eng_ok einv (set Q \<union> set E) (set (cached_resource ch)) (reqs ch) (engine ch)"
    using ok by (simp_all add: chan_ok_def)
  have "p \<in> dom (reqs ch)" "\<not> completed (the (reqs ch p))"
    using l p by (auto simp: lists_ok_def)
  then obtain r where r: "reqs ch p = Some r" "\<not> completed r"
    by auto
  have d: "set Q \<union> set E \<union> set (cached_resource ch) = dom (reqs ch)" "p \<notin> set (cached_resource ch)"
    using l p by (auto simp: lists_ok_def)
  have inj: "inj_on (ctx_of (reqs ch)) (set Q \<union> set E \<union> set (cached_resource ch))"
    using l d(1) by (simp add: lists_ok_def)
  from check_eng_ok [OF e p r inj d(2), of res] obtain r' res' e' where c: "vCheckCompletion eng r res (engine ch) = Some (r', res', e')"
    "r' = r\<lparr> completed := completed r' \<rparr>"
    "if completed r' then result_ctx res' = user_ctx r \<and> eng_ok einv (set Q \<union> set E - {p}) (insert p (set (cached_resource ch))) (reqs ch) e'
     else res' = res \<and> eng_ok einv (set Q \<union> set E) (set (cached_resource ch)) (reqs ch) e'"
    by blast
  let ?ch = "ch\<lparr> engine := e', reqs := (reqs ch)(p \<mapsto> r') \<rparr>"
  have same: "same_requests (reqs ch) (reqs ?ch)"
    using same_requests_completed [of "reqs ch", OF r(1) c(2)] by simp
  have "reqs ?ch = reqs ch" if "\<not> completed r'"
    using r c(2) that by (auto simp: map_upd_triv)
  moreover have "eng_ok einv (set Q \<union> set E - {p}) (insert p (set (cached_resource ch))) (reqs ?ch) e'" if "completed r'"
    using c(3) that d(1) p by (intro eng_ok_same [OF same]) auto
  ultimately show ?thesis
    using c r(1) same ok by (auto simp: check_request_def chan_ok_def)
qed

lemma queue_step:
  assumes ok: "chan_ok einv P ts (as @ p # bs) E ch clk" and live: "unexpired (reqs ch) p"
  shows "\<exists>r' res' ch1. check_request eng p res ch = Some (r', res', ch1) \<and> same_requests (reqs ch) (reqs ch1)
    \<and> opts ch1 = opts ch \<and> expired_queue ch1 = expired_queue ch \<and> (\<forall>q. expired (the (reqs ch1 q)) = expired (the (reqs ch q)))
    \<and> (if completed r' then result_ctx res' = user_ctx (the (reqs ch p))
         \<and> (\<exists>tm. RemoveTimer (pool_put P) (timer_ctx r') (timer_manager ch1) = Some tm
              \<and> chan_ok einv P ts (as @ bs) E (ch1\<lparr> timer_manager := tm, cached_resource := cached_resource ch1 @ [p] \<rparr>) clk)
       else res' = res \<and> chan_ok einv P ts (as @ p # bs) E ch1 clk)"
proof -
  have p: "p \<in> set (as @ p # bs) \<union> set E"
    by simp
  from check_chan [OF ok p, of res] obtain r' res' ch1 where c: "check_request eng p res ch = Some (r', res', ch1)" "same_requests (reqs ch) (reqs ch1)"
    "ch1 = ch\<lparr> engine := engine ch1, reqs := (reqs ch)(p \<mapsto> r') \<rparr>" "r' = (the (reqs ch p))\<lparr> completed := completed r' \<rparr>"
    "if completed r' then result_ctx res' = user_ctx (the (reqs ch p))
       \<and> eng_ok einv (set (as @ p # bs) \<union> set E - {p}) (insert p (set (cached_resource ch))) (reqs ch1) (engine ch1)
     else res' = res \<and> chan_ok einv P ts (as @ p # bs) E ch1 clk"
    by blast
  have f: "reqs ch1 = (reqs ch)(p \<mapsto> r')" "timer_manager ch1 = timer_manager ch" "cached_resource ch1 = cached_resource ch"
    "opts ch1 = opts ch" "expired_queue ch1 = expired_queue ch" "timer_ctx r' = timer_ctx (the (reqs ch p))" "expired r' = expired (the (reqs ch p))"
    using arg_cong [OF c(3), of reqs] arg_cong [OF c(3), of timer_manager] arg_cong [OF c(3), of cached_resource] arg_cong [OF c(3), of opts]
      arg_cong [OF c(3), of expired_queue] arg_cong [OF c(4), of timer_ctx] arg_cong [OF c(4), of expired] by simp_all
  obtain xs where xs: "timers_ok P ts (as @ p # bs) (reqs ch) (timer_manager ch) xs clk"
    using ok by (auto simp: chan_ok_def)
  have l: "lists_ok (as @ p # bs) E (cached_resource ch) (reqs ch)"
    using ok by (simp add: chan_ok_def)
  then have d: "set (as @ p # bs) \<subseteq> dom (reqs ch)" "distinct (as @ p # bs)" "p \<notin> set E"
    by (auto simp: lists_ok_def)
  have xs': "timers_ok P ts (as @ p # bs) (reqs ch1) (timer_manager ch) xs clk"
    by (rule timers_ok_same [OF xs c(2) d(1)]) (simp add: f(1,7))
  have live': "unexpired (reqs ch1) p"
    using live f(1,7) by simp
  obtain tm xs2 where tm: "RemoveTimer (pool_put P) (timer_ctx (the (reqs ch1 p))) (timer_manager ch) = Some tm"
    "timers_ok P ts (as @ bs) (reqs ch1) tm xs2 clk"
    using timers_ok_remove [OF xs' live' d(2)] by blast
  have "lists_ok (as @ bs) E (cached_resource ch @ [p]) (reqs ch1)"
    using l c(2) unfolding f(1) by (rule lists_ok_complete) (use l in \<open>auto simp: lists_ok_def\<close>)
  moreover have "set (as @ p # bs) \<union> set E - {p} = set (as @ bs) \<union> set E"
    using d by auto
  ultimately have "chan_ok einv P ts (as @ bs) E (ch1\<lparr> timer_manager := tm, cached_resource := cached_resource ch1 @ [p] \<rparr>) clk" if "completed r'"
    using that c(5) tm(2) f(3) unfolding chan_ok_def by auto
  then show ?thesis
    using c(1,2,5) tm(1) f(1,2,4,5,7) by (cases "completed r'") simp_all
qed

lemma expired_move:
  assumes ok: "chan_ok einv P ts (as @ p # bs) E ch clk" and dead: "expired (the (reqs ch p))"
  shows "chan_ok einv P ts (as @ bs) (E @ [p]) (ch\<lparr> expired_queue := x \<rparr>) clk"
proof -
  have "lists_ok (as @ bs) (E @ [p]) (cached_resource ch) (reqs ch)"
    using ok by (auto simp: chan_ok_def lists_ok_def)
  moreover have "set (as @ p # bs) \<union> set E = set (as @ bs) \<union> set (E @ [p])"
    by auto
  moreover have "\<exists>xs. timers_ok P ts (as @ bs) (reqs ch) (timer_manager ch) xs clk"
    using ok dead timers_ok_expired by (fastforce simp: chan_ok_def)
  ultimately show ?thesis
    using ok by (simp add: chan_ok_def)
qed

text \<open>An iteration of the polling loop delivers a request, stops at it, or leaves it behind.\<close>

lemma poll_step:
  assumes ok: "chan_ok einv P ts (seen @ p # ps) (expired_queue ch) ch clk" and n: "n < max_num" "max_num \<le> length rs"
  defines "run \<equiv> poll_loop eng P max_num seen (p # ps) rs n ch"
  shows "\<exists>ch1. same_requests (reqs ch) (reqs ch1) \<and> opts ch1 = opts ch
    \<and> ((\<exists>res. run = poll_loop eng P max_num seen ps (rs[n := res]) (n + 1) ch1 \<and> result_ctx res = user_ctx (the (reqs ch p))
          \<and> chan_ok einv P ts (seen @ ps) (expired_queue ch1) ch1 clk)
      \<or> chan_ok einv P ts (seen @ p # ps) (expired_queue ch1) ch1 clk
          \<and> run = (if order_type (opts ch) = kOrdered then Some (seen @ p # ps, rs, n, ch1) else poll_loop eng P max_num (seen @ [p]) ps rs n ch1))"
proof -
  have "p \<in> dom (reqs ch)"
    using ok by (auto simp: chan_ok_def lists_ok_def)
  then obtain r where r: "reqs ch p = Some r"
    by auto
  show ?thesis
  proof (cases "expired r")
    case True
    then have "chan_ok einv P ts (seen @ ps) (expired_queue ch @ [p]) (ch\<lparr> expired_queue := expired_queue ch @ [p] \<rparr>) clk"
      using expired_move [OF ok] r by simp
    then show ?thesis
      using True r n unfolding run_def
      by (intro exI [of _ "ch\<lparr> expired_queue := expired_queue ch @ [p] \<rparr>"]) auto
  next
    case False
    then have "unexpired (reqs ch) p"
      using r by simp
    from queue_step [OF ok this, of "rs ! n"] obtain r' res' ch1 where
      c: "check_request eng p (rs ! n) ch = Some (r', res', ch1)" "same_requests (reqs ch) (reqs ch1)" "opts ch1 = opts ch" "expired_queue ch1 = expired_queue ch"
      "if completed r' then result_ctx res' = user_ctx (the (reqs ch p))
         \<and> (\<exists>tm. RemoveTimer (pool_put P) (timer_ctx r') (timer_manager ch1) = Some tm
              \<and> chan_ok einv P ts (seen @ ps) (expired_queue ch) (ch1\<lparr> timer_manager := tm, cached_resource := cached_resource ch1 @ [p] \<rparr>) clk)
       else res' = rs ! n \<and> chan_ok einv P ts (seen @ p # ps) (expired_queue ch) ch1 clk"
      by blast
    show ?thesis
    proof (cases "completed r'")
      case True
      then obtain tm where "RemoveTimer (pool_put P) (timer_ctx r') (timer_manager ch1) = Some tm" "result_ctx res' = user_ctx (the (reqs ch p))"
        "chan_ok einv P ts (seen @ ps) (expired_queue ch) (ch1\<lparr> timer_manager := tm, cached_resource := cached_resource ch1 @ [p] \<rparr>) clk"
        using c(5) by auto
      then show ?thesis
        using False True r n c(1-4) unfolding run_def
        by (intro exI [of _ "ch1\<lparr> timer_manager := tm, cached_resource := cached_resource ch1 @ [p] \<rparr>"]) auto
    next
      case False
      with \<open>\<not> expired r\<close> show ?thesis
        using r n c unfolding run_def by (intro exI [of _ ch1]) simp
    qed
  qed
qed

lemma poll_loop_ok:
  assumes "chan_ok einv P ts (seen @ ps) (expired_queue ch) ch clk" "max_num \<le> length rs" "n \<le> max_num"
  shows "\<exists>Q rs' n' ch' D. poll_loop eng P max_num seen ps rs n ch = Some (Q, rs', n', ch') \<and> chan_ok einv P ts Q (expired_queue ch') ch' clk
    \<and> same_requests (reqs ch) (reqs ch') \<and> opts ch' = opts ch
    \<and> polled (\<lambda>p. user_ctx (the (reqs ch p))) (order_type (opts ch) = kOrdered) max_num seen ps rs n Q rs' n' D"
  using assms
proof (induction ps arbitrary: seen rs n ch)
  case Nil
  then show ?case
    using polled_stop [OF Nil.prems(3), of "\<lambda>p. user_ctx (the (reqs ch p))" "order_type (opts ch) = kOrdered" seen "[]" rs] by auto
next
  case (Cons p ps)
  let ?u = "\<lambda>ch p. user_ctx (the (reqs ch p))" and ?o = "order_type (opts ch) = kOrdered"
  note stop = polled_stop [OF Cons.prems(3), of "?u ch" ?o seen "p # ps" rs]
  show ?case
  proof (cases "n < max_num")
    case False
    then show ?thesis
      using Cons.prems(1) stop by auto
  next
    case n: True
    obtain ch1 where c: "same_requests (reqs ch) (reqs ch1)" "opts ch1 = opts ch"
      "(\<exists>res. poll_loop eng P max_num seen (p # ps) rs n ch = poll_loop eng P max_num seen ps (rs[n := res]) (n + 1) ch1
          \<and> result_ctx res = ?u ch p \<and> chan_ok einv P ts (seen @ ps) (expired_queue ch1) ch1 clk)
      \<or> chan_ok einv P ts (seen @ p # ps) (expired_queue ch1) ch1 clk \<and> poll_loop eng P max_num seen (p # ps) rs n ch
          = (if ?o then Some (seen @ p # ps, rs, n, ch1) else poll_loop eng P max_num (seen @ [p]) ps rs n ch1)"
      using poll_step [OF Cons.prems(1) n Cons.prems(2)] by blast
    have "set (seen @ p # ps) \<subseteq> dom (reqs ch)"
      using Cons.prems(1) by (auto simp: chan_ok_def lists_ok_def)
    then have u: "?u ch1 q = ?u ch q" if "q \<in> set (seen @ p # ps)" for q
      using same_requests_the(2) [OF c(1)] that by blast
    from c(3) show ?thesis
    proof (elim disjE exE conjE)
      fix res
      assume e: "poll_loop eng P max_num seen (p # ps) rs n ch = poll_loop eng P max_num seen ps (rs[n := res]) (n + 1) ch1"
        and res: "result_ctx res = ?u ch p" and ok: "chan_ok einv P ts (seen @ ps) (expired_queue ch1) ch1 clk"
      have le: "max_num \<le> length (rs[n := res])" "n + 1 \<le> max_num"
        using Cons.prems(2) n by simp_all
      obtain Q rs' n' ch' D where IH: "poll_loop eng P max_num seen ps (rs[n := res]) (n + 1) ch1 = Some (Q, rs', n', ch')"
        "chan_ok einv P ts Q (expired_queue ch') ch' clk" "same_requests (reqs ch1) (reqs ch')" "opts ch' = opts ch"
        "polled (?u ch1) ?o max_num seen ps (rs[n := res]) (n + 1) Q rs' n' D"
        using Cons.IH [OF ok le] c(2) by auto
      have "polled (?u ch) ?o max_num seen ps (rs[n := res]) (n + 1) Q rs' n' D"
        by (rule polled_cong [OF IH(5)]) (use u in simp)
      from polled_take [OF this res n Cons.prems(2)] show ?thesis
        using IH(1,2,4) e same_requests_trans [OF c(1) IH(3)] by (metis (lifting))
    next
      assume ok: "chan_ok einv P ts (seen @ p # ps) (expired_queue ch1) ch1 clk"
        and e: "poll_loop eng P max_num seen (p # ps) rs n ch = (if ?o then Some (seen @ p # ps, rs, n, ch1) else poll_loop eng P max_num (seen @ [p]) ps rs n ch1)"
      show ?thesis
      proof (cases ?o)
        case True
        then show ?thesis
          using e ok stop c(1,2) by (metis (lifting))
      next
        case False
        have "chan_ok einv P ts ((seen @ [p]) @ ps) (expired_queue ch1) ch1 clk"
          using ok by simp
        from Cons.IH [OF this Cons.prems(2,3)] obtain Q rs' n' ch' D where IH: "poll_loop eng P max_num (seen @ [p]) ps rs n ch1 = Some (Q, rs', n', ch')"
          "chan_ok einv P ts Q (expired_queue ch') ch' clk" "same_requests (reqs ch1) (reqs ch')" "opts ch' = opts ch"
          "polled (?u ch1) ?o max_num (seen @ [p]) ps rs n Q rs' n' D"
          using c(2) by auto
        have "polled (?u ch) ?o max_num (seen @ [p]) ps rs n Q rs' n' D"
          by (rule polled_cong [OF IH(5)]) (use u in simp)
        from polled_skip [OF this False] show ?thesis
          using IH(1,2,4) e False same_requests_trans [OF c(1) IH(3)] by (metis (lifting))
      qed
    qed
  qed
qed

lemma expired_step:
  assumes ok: "chan_ok einv P ts Q (as @ p # bs) ch clk"
  shows "\<exists>r' res' ch1. check_request eng p res ch = Some (r', res', ch1) \<and> same_requests (reqs ch) (reqs ch1)
    \<and> opts ch1 = opts ch \<and> queue ch1 = queue ch
    \<and> (if completed r' then chan_ok einv P ts Q (as @ bs) (ch1\<lparr> cached_resource := cached_resource ch1 @ [p] \<rparr>) clk
       else chan_ok einv P ts Q (as @ p # bs) ch1 clk)"
proof -
  have p: "p \<in> set Q \<union> set (as @ p # bs)"
    by simp
  from check_chan [OF ok p, of res] obtain r' res' ch1 where c: "check_request eng p res ch = Some (r', res', ch1)" "same_requests (reqs ch) (reqs ch1)"
    "ch1 = ch\<lparr> engine := engine ch1, reqs := (reqs ch)(p \<mapsto> r') \<rparr>"
    "if completed r' then result_ctx res' = user_ctx (the (reqs ch p))
       \<and> eng_ok einv (set Q \<union> set (as @ p # bs) - {p}) (insert p (set (cached_resource ch))) (reqs ch1) (engine ch1)
     else res' = res \<and> chan_ok einv P ts Q (as @ p # bs) ch1 clk"
    by blast
  have f: "reqs ch1 = (reqs ch)(p \<mapsto> r')" "timer_manager ch1 = timer_manager ch" "cached_resource ch1 = cached_resource ch"
    "opts ch1 = opts ch" "queue ch1 = queue ch"
    using arg_cong [OF c(3), of reqs] arg_cong [OF c(3), of timer_manager] arg_cong [OF c(3), of cached_resource] arg_cong [OF c(3), of opts]
      arg_cong [OF c(3), of queue] by simp_all
  obtain xs where xs: "timers_ok P ts Q (reqs ch) (timer_manager ch) xs clk"
    using ok by (auto simp: chan_ok_def)
  have l: "lists_ok Q (as @ p # bs) (cached_resource ch) (reqs ch)"
    using ok by (simp add: chan_ok_def)
  then have d: "set Q \<subseteq> dom (reqs ch)" "p \<notin> set Q" "set Q \<union> set (as @ p # bs) - {p} = set Q \<union> set (as @ bs)"
    by (auto simp: lists_ok_def)
  have "timers_ok P ts Q (reqs ch1) (timer_manager ch1) xs clk"
    unfolding f(2) by (rule timers_ok_same [OF xs c(2) d(1)]) (use d(2) f(1) in auto)
  moreover have "lists_ok Q (as @ bs) (cached_resource ch @ [p]) (reqs ch1)"
    using l c(2) unfolding f(1) by (rule lists_ok_complete) (use l in \<open>auto simp: lists_ok_def\<close>)
  ultimately have "chan_ok einv P ts Q (as @ bs) (ch1\<lparr> cached_resource := cached_resource ch1 @ [p] \<rparr>) clk" if "completed r'"
    using that c(4) d(3) f(3) unfolding chan_ok_def by auto
  then show ?thesis
    using c(1,2,4) f(4,5) by (cases "completed r'") simp_all
qed

lemma expired_loop_ok:
  assumes "chan_ok einv P ts Q (seen @ ps) ch clk"
  shows "\<exists>ch'. expired_loop eng blank seen ps res ch = Some ch' \<and> chan_ok einv P ts Q (expired_queue ch') ch' clk
    \<and> same_requests (reqs ch) (reqs ch') \<and> opts ch' = opts ch \<and> queue ch' = queue ch"
  using assms
proof (induction ps arbitrary: seen res ch)
  case Nil
  then show ?case
    by (simp add: chan_ok_def)
next
  case (Cons p ps)
  from expired_step [OF Cons.prems, of "case blank of None \<Rightarrow> res | Some b \<Rightarrow> b"] obtain r' res' ch1 where
    c: "check_request eng p (case blank of None \<Rightarrow> res | Some b \<Rightarrow> b) ch = Some (r', res', ch1)" "same_requests (reqs ch) (reqs ch1)"
      "opts ch1 = opts ch" "queue ch1 = queue ch"
    "if completed r' then chan_ok einv P ts Q (seen @ ps) (ch1\<lparr> cached_resource := cached_resource ch1 @ [p] \<rparr>) clk
       else chan_ok einv P ts Q (seen @ p # ps) ch1 clk"
    by blast
  define ch2 where "ch2 = (if completed r' then ch1\<lparr> cached_resource := cached_resource ch1 @ [p] \<rparr> else ch1)"
  define seen2 where "seen2 = (if completed r' then seen else seen @ [p])"
  have "chan_ok einv P ts Q (seen2 @ ps) ch2 clk" and e: "expired_loop eng blank seen (p # ps) res ch = expired_loop eng blank seen2 ps res' ch2"
    using c(1,5) by (auto simp: ch2_def seen2_def)
  from Cons.IH [OF this(1), of res'] obtain ch' where "expired_loop eng blank seen2 ps res' ch2 = Some ch'" "chan_ok einv P ts Q (expired_queue ch') ch' clk"
    "same_requests (reqs ch2) (reqs ch')" "opts ch' = opts ch2" "queue ch' = queue ch2"
    by blast
  moreover have "reqs ch2 = reqs ch1" "opts ch2 = opts ch" "queue ch2 = queue ch"
    using c(3,4) by (simp_all add: ch2_def)
  ultimately show ?case
    using e same_requests_trans [OF c(2)] by auto
qed

lemma Poll_ok:
  assumes ok: "chan_ok einv P ts (queue ch) (expired_queue ch) ch clk" and n: "max_num \<le> length rs" and clk: "clk \<le> now"
  shows "\<exists>rs' n ch' D. Poll eng P blank now rs max_num ch = Some (n, rs', ch') \<and> chan_ok einv P ts (queue ch') (expired_queue ch') ch' now
    \<and> same_requests (reqs ch) (reqs ch') \<and> opts ch' = opts ch
    \<and> polled (\<lambda>p. user_ctx (the (reqs ch p))) (order_type (opts ch) = kOrdered) max_num [] (queue ch) rs 0 (queue ch') rs' n D"
proof -
  have "chan_ok einv P ts ([] @ queue ch) (expired_queue ch) ch clk"
    using ok by simp
  from poll_loop_ok [OF this n, of 0] obtain Q rs' n ch1 D where
    p: "poll_loop eng P max_num [] (queue ch) rs 0 ch = Some (Q, rs', n, ch1)" "chan_ok einv P ts Q (expired_queue ch1) ch1 clk"
    "same_requests (reqs ch) (reqs ch1)" "opts ch1 = opts ch"
    "polled (\<lambda>p. user_ctx (the (reqs ch p))) (order_type (opts ch) = kOrdered) max_num [] (queue ch) rs 0 Q rs' n D"
    by auto
  have l: "lists_ok Q (expired_queue ch1) (cached_resource ch1) (reqs ch1)"
    using p(2) by (simp add: chan_ok_def)
  then have Q: "distinct Q" "set Q \<subseteq> dom (reqs ch1)"
    by (auto simp: lists_ok_def)
  obtain xs where "timers_ok P ts Q (reqs ch1) (timer_manager ch1) xs clk"
    using p(2) by (auto simp: chan_ok_def)
  from timers_ok_fire [OF this clk Q] obtain fired tm rq xs' where
    f: "HandleTimeout (pool_put P) now (timer_manager ch1) = Some (fired, tm)" "mark_expired fired (reqs ch1) = Some rq"
    "timers_ok P ts Q rq tm xs' now" "same_requests (reqs ch1) rq" "\<forall>p. completed (the (rq p)) = completed (the (reqs ch1 p))"
    by blast
  let ?ch = "ch1\<lparr> queue := Q, timer_manager := tm, reqs := rq \<rparr>"
  have "eng_ok einv (set Q \<union> set (expired_queue ch1)) (set (cached_resource ch1)) rq (engine ch1)"
    by (rule eng_ok_same [OF f(4)]) (use p(2) in \<open>auto simp: chan_ok_def lists_ok_def\<close>)
  then have "chan_ok einv P ts Q ([] @ expired_queue ch1) ?ch now"
    using lists_ok_same [OF f(4) l] f(3,5) by (auto simp: chan_ok_def)
  from expired_loop_ok [OF this, of "Some blank" blank] obtain ch' where
    "expired_loop eng (Some blank) [] (expired_queue ch1) blank ?ch = Some ch'" "chan_ok einv P ts Q (expired_queue ch') ch' now"
    "same_requests rq (reqs ch')" "opts ch' = opts ch" "queue ch' = Q"
    using p(4) by auto
  then show ?thesis
    using p(1,5) f(1,2) same_requests_trans [OF same_requests_trans [OF p(3) f(4)]] by (auto simp: Poll_def)
qed

end

end
