(* ===== verification/Channel_Contract.thy ===== *)
theory Channel_Contract
  imports Data_Flow_Channel
begin

text \<open>The guarantees of a data flow channel over any engine that keeps the contract: what a history of submissions and
  polls delivers, and when closing is safe.\<close>

section \<open>Validation\<close>

lemma check_lens_eq: "check_lens ls a = (if 0 \<in> set ls then None else Some (a + of_nat (total_len ls)))"
  by (induction ls a rule: check_lens.induct) (auto simp: add.assoc)

lemma of_nat_le_total: "(of_nat n :: u64) \<le> kMaxTotalLength \<longleftrightarrow> n mod 2 ^ 64 \<le> unat kMaxTotalLength"
  by (simp only: word_le_nat_alt unsigned_of_nat take_bit_eq_mod len_num1 len_bit0 len_num0) simp

lemma check_moves_Cons:
  "check_moves (op # ops) a b c =
    (if valid_move op then check_moves ops (a + of_nat (total_len (src_len op))) (b + (if enable_crc op then of_nat (total_len (src_len op)) else 0)) (c + length (src op))
     else None)"
proof -
  have "kMaxTotalLength < of_nat (total_len (src_len op)) \<longleftrightarrow> \<not> total_len (src_len op) mod 2 ^ 64 \<le> unat kMaxTotalLength"
    unfolding of_nat_le_total [symmetric] by (simp add: not_le)
  then show ?thesis
    unfolding check_moves.simps check_lens_eq valid_move_def Let_def by auto
qed

declare check_moves.simps(2) [simp del]

lemma check_moves_eq:
  "if \<forall>op \<in> set ops. valid_move op then \<exists>x y. check_moves ops a b c = Some (x, y, c + sum_list (map (length \<circ> src) ops)) else check_moves ops a b c = None"
  by (induction ops arbitrary: a b c) (auto simp: check_moves_Cons simp flip: add.assoc)

lemma SubmitMove_cases:
  "if valid_batch ops then \<exists>ms cs. SubmitMove eng P mem now ops uctx ch = SubmitRequest eng P mem now (kMove ops) (length ops) ms cs uctx ch
    else SubmitMove eng P mem now ops uctx ch = Some (kInvalidArgument, ch)"
proof (cases "\<forall>op \<in> set ops. valid_move op")
  case True
  then obtain x y where "check_moves ops 0 0 0 = Some (x, y, sum_list (map (length \<circ> src) ops))"
    using check_moves_eq [of ops 0 0 0] by auto
  then show ?thesis
    using True by (auto simp: SubmitMove_def valid_batch_def Let_def)
next
  case False
  then have "check_moves ops 0 0 0 = None" "\<not> valid_batch ops"
    using check_moves_eq [of ops 0 0 0] unfolding valid_batch_def by meson+
  then show ?thesis
    by (simp add: SubmitMove_def Let_def)
qed

lemma check_crcs_valid: "check_crcs ops a \<noteq> None \<Longrightarrow> op \<in> set ops \<Longrightarrow> 0 < crc_len op \<and> crc_len op \<le> kMaxTotalLength"
  by (induction ops a rule: check_crcs.induct) (auto simp: not_less word_neq_0_conv split: if_splits)

section \<open>Submission\<close>

context flow_engine
begin

lemma submit_eng_ok:
  assumes ok: "eng_ok einv B (set (p # C)) rq e" and l: "inj_on (ctx_of rq) (B \<union> set (p # C))" "p \<notin> B" "p \<notin> set C"
    and r: "engine_ctx r = ctx_of rq p" "req_op r = Some ops" "req_num r = op_count ops" "valid_ops ops"
    and s: "vSubmit eng r e = Some (st, e')" and r': "engine_ctx r' = engine_ctx r" "req_num r' = req_num r"
  shows "if st = kOk then eng_ok einv (insert p B) (set C) (rq(p \<mapsto> r')) e' else eng_ok einv B (set (p # C)) (rq(p \<mapsto> r')) e'"
proof -
  let ?rq = "rq(p \<mapsto> r')"
  obtain busy where busy: "einv e busy (ctx_of rq ` set (p # C))" "\<forall>a n. busy a = Some n \<longleftrightarrow> (\<exists>q \<in> B. ctx_of rq q = a \<and> req_num (the (rq q)) = n)"
    using ok by (auto simp: eng_ok_def)
  have st: "if st = kOk then einv e' (busy(engine_ctx r \<mapsto> req_num r)) (ctx_of rq ` set (p # C) - {engine_ctx r}) else einv e' busy (ctx_of rq ` set (p # C))"
    using submit_einv [OF busy(1) _ r(2-4) s] r(1) by simp
  have ne: "ctx_of rq q \<noteq> ctx_of rq p" if "q \<in> B \<union> set C" for q
    using inj_onD [OF l(1), of q p] that l(2,3) by auto
  have B: "(\<exists>q \<in> B. ctx_of ?rq q = a \<and> req_num (the (?rq q)) = n) \<longleftrightarrow> (\<exists>q \<in> B. ctx_of rq q = a \<and> req_num (the (rq q)) = n)" for a n
    using l(2) by (intro bex_cong) auto
  have C: "ctx_of ?rq ` set C = ctx_of rq ` set C" "ctx_of ?rq p = ctx_of rq p"
    using l(3) r(1) r'(1) by (auto intro!: image_cong)
  have "eng_ok einv (insert p B) (set C) ?rq e'" if "st = kOk"
  proof -
    have "ctx_of rq ` set (p # C) - {engine_ctx r} = ctx_of ?rq ` set C"
      unfolding C using ne r(1) by auto
    moreover have "(busy(engine_ctx r \<mapsto> req_num r)) a = Some n \<longleftrightarrow> (\<exists>q \<in> insert p B. ctx_of ?rq q = a \<and> req_num (the (?rq q)) = n)" for a n
      unfolding bex_simps(5) B using busy(2) ne r(1) r' by auto
    ultimately show ?thesis
      using st that unfolding eng_ok_def by (intro exI [of _ "busy(engine_ctx r \<mapsto> req_num r)"]) simp
  qed
  moreover have "eng_ok einv B (set (p # C)) ?rq e'" if "st \<noteq> kOk"
    using st that busy(2) B C unfolding eng_ok_def by (intro exI [of _ busy]) simp
  ultimately show ?thesis
    by simp
qed

end

lemma holds_timers_later: "holds_timers P ts tm xs clk \<Longrightarrow> clk \<le> now \<Longrightarrow> holds_timers P ts tm xs now"
  using holds_timers_sub [of P ts tm xs clk tm "\<lambda>_. True" now] by (auto simp: holds_timers_def)

lemma timers_ok_later: "timers_ok P ts Q rq tm xs clk \<Longrightarrow> clk \<le> now \<Longrightarrow> timers_ok P ts Q rq tm xs now"
  by (auto simp: timers_ok_def intro: holds_timers_later)

lemma chan_ok_later: "chan_ok einv P ts Q E ch clk \<Longrightarrow> clk \<le> now \<Longrightarrow> chan_ok einv P ts Q E ch now"
  by (auto simp: chan_ok_def dest: timers_ok_later)

lemma timers_ok_add:
  assumes ok: "timers_ok P ts Q rq tm xs clk" and now: "clk \<le> now" "now \<le> now + ts" and m: "mem_ready P mem (pool tm)"
    and add: "AddTimer (get_local_object P) mem now p tm = Some (t, tm')" and p: "p \<notin> set Q" and r: "timer_ctx r = Some t" "\<not> expired r"
  shows "timers_ok P ts (Q @ [p]) (rq(p \<mapsto> r)) tm' (xs @ [(t, p, now + ts)]) now"
proof -
  have "filter (unexpired (rq(p \<mapsto> r))) Q = filter (unexpired rq) Q"
    using p by (intro filter_cong) auto
  moreover have "map (\<lambda>q. (timer_ctx (the ((rq(p \<mapsto> r)) q)), q)) (filter (unexpired rq) Q) = map (\<lambda>q. (timer_ctx (the (rq q)), q)) (filter (unexpired rq) Q)"
    using p by (intro map_cong) auto
  moreover have "holds_timers P ts tm' (xs @ [(t, p, now + ts)]) now"
    using holds_timers_AddTimer [OF _ now m add] ok by (simp add: timers_ok_def)
  ultimately show ?thesis
    using ok r by (simp add: timers_ok_def)
qed

lemma timers_ok_other:
  assumes "timers_ok P ts Q rq tm xs clk" "p \<notin> set Q"
  shows "timers_ok P ts Q (rq(p := y)) tm xs clk"
proof -
  have "filter (unexpired (rq(p := y))) Q = filter (unexpired rq) Q"
    using assms(2) by (intro filter_cong) auto
  moreover have "map (\<lambda>q. (timer_ctx (the ((rq(p := y)) q)), q)) (filter (unexpired rq) Q) = map (\<lambda>q. (timer_ctx (the (rq q)), q)) (filter (unexpired rq) Q)"
    using assms(2) by (intro map_cong) auto
  ultimately show ?thesis
    using assms(1) by (simp add: timers_ok_def)
qed

lemma lists_ok_swap:
  assumes l: "lists_ok Q E (p # C) rq" and y: "engine_ctx y = ctx_of rq p"
  shows "lists_ok Q E (C @ [p]) (rq(p \<mapsto> y)) \<and> (\<not> completed y \<longrightarrow> lists_ok (Q @ [p]) E C (rq(p \<mapsto> y)))"
proof -
  have "ctx_of (rq(p \<mapsto> y)) = ctx_of rq" "dom (rq(p \<mapsto> y)) = dom rq"
    using y l by (auto simp: fun_eq_iff lists_ok_def)
  then have "inj_on (ctx_of (rq(p \<mapsto> y))) (dom (rq(p \<mapsto> y)))"
    using l by (simp only: lists_ok_def)
  moreover have "\<forall>q \<in> set Q \<union> set E. \<not> completed (the ((rq(p \<mapsto> y)) q))"
    using l by (auto simp: lists_ok_def)
  moreover have "dom (rq(p \<mapsto> y)) = dom rq" "distinct (Q @ E @ p # C)" "set (Q @ E @ p # C) = dom rq"
    using l by (auto simp: lists_ok_def)
  ultimately show ?thesis
    by (simp add: lists_ok_def)
qed

context flow_engine
begin

lemma SubmitRequest_ok:
  assumes ok: "chan_ok einv P ts (queue ch) (expired_queue ch) ch clk" and now: "clk \<le> now" "now \<le> now + ts"
    and m: "mem_ready P mem (pool (timer_manager ch))" and n: "num = op_count ops" "valid_ops ops"
    and s: "SubmitRequest eng P mem now ops num ms cs uctx ch = Some (st, ch')"
  shows "chan_ok einv P ts (queue ch') (expired_queue ch') ch' now \<and> opts ch' = opts ch
    \<and> map (\<lambda>p. user_ctx (the (reqs ch' p))) (queue ch')
      = map (\<lambda>p. user_ctx (the (reqs ch p))) (queue ch) @ (if st = kOk then [uctx] else [])
    \<and> length (queue ch' @ expired_queue ch' @ cached_resource ch') = length (queue ch @ expired_queue ch @ cached_resource ch)"
proof (cases "cached_resource ch")
  case Nil
  then show ?thesis
    using s chan_ok_later [OF ok now(1)] by (auto simp: SubmitRequest_def)
next
  case (Cons p rest)
  have l: "lists_ok (queue ch) (expired_queue ch) (p # rest) (reqs ch)"
    and e: "eng_ok einv (set (queue ch) \<union> set (expired_queue ch)) (set (p # rest)) (reqs ch) (engine ch)"
    using ok Cons by (simp_all add: chan_ok_def)
  obtain xs where xs: "timers_ok P ts (queue ch) (reqs ch) (timer_manager ch) xs clk"
    using ok by (auto simp: chan_ok_def)
  have d: "p \<notin> set (queue ch) \<union> set (expired_queue ch)" "p \<notin> set rest" "p \<in> dom (reqs ch)"
    "inj_on (ctx_of (reqs ch)) (set (queue ch) \<union> set (expired_queue ch) \<union> set (p # rest))"
    using l by (auto simp: lists_ok_def Un_assoc)
  then obtain r where r: "reqs ch p = Some r"
    by auto
  let ?req = "Build ops num uctx (opt_schedule_hint (opts ch)) ms cs r"
  obtain e' where v: "vSubmit eng ?req (engine ch) = Some (st, e')"
    using s Cons r by (auto simp: SubmitRequest_def Let_def split: option.splits if_splits)
  have q: "map (\<lambda>q. user_ctx (the (((reqs ch)(p \<mapsto> y)) q))) (queue ch) = map (\<lambda>q. user_ctx (the (reqs ch q))) (queue ch)" for y
    using d(1) by auto
  have lists: "lists_ok (queue ch) (expired_queue ch) (rest @ [p]) ((reqs ch)(p \<mapsto> y))
      \<and> (\<not> completed y \<longrightarrow> lists_ok (queue ch @ [p]) (expired_queue ch) rest ((reqs ch)(p \<mapsto> y)))" if "engine_ctx y = engine_ctx r" for y
    using lists_ok_swap [OF l, of y] r that by simp
  note eo = submit_eng_ok [OF e d(4,1,2) _ _ _ _ v, of ops]
  have b: "engine_ctx ?req = ctx_of (reqs ch) p" "req_op ?req = Some ops" "req_num ?req = op_count ops" "valid_ops ops"
    using r n by (simp_all add: Build_def)
  show ?thesis
  proof (cases "st = kOk")
    case True
    then obtain t tm where t: "AddTimer (get_local_object P) mem now p (timer_manager ch) = Some (t, tm)"
      and ch': "ch' = ch\<lparr> cached_resource := rest, queue := queue ch @ [p], timer_manager := tm, engine := e',
          reqs := (reqs ch)(p \<mapsto> ?req\<lparr> timer_ctx := Some t, req_op := None \<rparr>) \<rparr>"
      using s Cons r v by (auto simp: SubmitRequest_def Let_def)
    define y where "y = ?req\<lparr> timer_ctx := Some t, req_op := None \<rparr>"
    have y: "engine_ctx y = engine_ctx r" "engine_ctx y = engine_ctx ?req" "req_num y = req_num ?req" "user_ctx y = uctx"
      "timer_ctx y = Some t" "\<not> expired y" "\<not> completed y"
      by (simp_all add: y_def Build_def)
    have "timers_ok P ts (queue ch @ [p]) ((reqs ch)(p \<mapsto> y)) tm (xs @ [(t, p, now + ts)]) now"
      using d(1) y(5,6) by (intro timers_ok_add [OF xs now m t]) simp_all
    moreover have "eng_ok einv (set (queue ch @ [p]) \<union> set (expired_queue ch)) (set rest) ((reqs ch)(p \<mapsto> y)) e'"
      using eo [OF b y(2,3)] True by simp
    ultimately have "chan_ok einv P ts (queue ch') (expired_queue ch') ch' now"
      using lists [OF y(1)] y(7) unfolding ch' y_def [symmetric] chan_ok_def by auto
    then show ?thesis
      unfolding ch' y_def [symmetric] using True q [of y] y(4) Cons by simp
  next
    case False
    then have ch': "ch' = ch\<lparr> cached_resource := rest @ [p], engine := e', reqs := (reqs ch)(p \<mapsto> ?req\<lparr> req_op := None \<rparr>) \<rparr>"
      using s Cons r v by (auto simp: SubmitRequest_def Let_def)
    define y where "y = ?req\<lparr> req_op := None \<rparr>"
    have y: "engine_ctx y = engine_ctx r" "engine_ctx y = engine_ctx ?req" "req_num y = req_num ?req"
      by (simp_all add: y_def Build_def)
    have "timers_ok P ts (queue ch) ((reqs ch)(p \<mapsto> y)) (timer_manager ch) xs now"
      using timers_ok_other [OF timers_ok_later [OF xs now(1)]] d(1) by simp
    moreover have "eng_ok einv (set (queue ch) \<union> set (expired_queue ch)) (set (rest @ [p])) ((reqs ch)(p \<mapsto> y)) e'"
      using eo [OF b y(2,3)] False by simp
    ultimately have "chan_ok einv P ts (queue ch') (expired_queue ch') ch' now"
      using lists [OF y(1)] unfolding ch' y_def [symmetric] chan_ok_def by auto
    then show ?thesis
      unfolding ch' y_def [symmetric] using False q [of y] Cons by simp
  qed
qed

end

context flow_engine
begin

lemma SubmitMove_ok:
  assumes ok: "chan_ok einv P ts (queue ch) (expired_queue ch) ch clk" and now: "clk \<le> now" "now \<le> now + ts"
    and m: "mem_ready P mem (pool (timer_manager ch))" and s: "SubmitMove eng P mem now ops uctx ch = Some (st, ch')"
  shows "chan_ok einv P ts (queue ch') (expired_queue ch') ch' now \<and> opts ch' = opts ch
    \<and> map (\<lambda>p. user_ctx (the (reqs ch' p))) (queue ch')
      = map (\<lambda>p. user_ctx (the (reqs ch p))) (queue ch) @ (if st = kOk then [uctx] else [])
    \<and> length (queue ch' @ expired_queue ch' @ cached_resource ch') = length (queue ch @ expired_queue ch @ cached_resource ch)"
proof (cases "st = kInvalidArgument \<and> ch' = ch")
  case True
  then show ?thesis
    using chan_ok_later [OF ok now(1)] by simp
next
  case False
  then obtain ms cs where "SubmitRequest eng P mem now (kMove ops) (length ops) ms cs uctx ch = Some (st, ch')" "valid_batch ops"
    using s SubmitMove_cases [of ops eng P mem now uctx ch] by (auto split: if_splits)
  then show ?thesis
    using SubmitRequest_ok [OF ok now m _ _, of "length ops" "kMove ops"] by simp
qed

lemma SubmitCrc_ok:
  assumes ok: "chan_ok einv P ts (queue ch) (expired_queue ch) ch clk" and now: "clk \<le> now" "now \<le> now + ts"
    and m: "mem_ready P mem (pool (timer_manager ch))" and s: "SubmitCrc eng P mem now ops uctx ch = Some (st, ch')"
  shows "chan_ok einv P ts (queue ch') (expired_queue ch') ch' now \<and> opts ch' = opts ch
    \<and> map (\<lambda>p. user_ctx (the (reqs ch' p))) (queue ch')
      = map (\<lambda>p. user_ctx (the (reqs ch p))) (queue ch) @ (if st = kOk then [uctx] else [])
    \<and> length (queue ch' @ expired_queue ch' @ cached_resource ch') = length (queue ch @ expired_queue ch @ cached_resource ch)"
proof (cases "st = kInvalidArgument \<and> ch' = ch")
  case True
  then show ?thesis
    using chan_ok_later [OF ok now(1)] by simp
next
  case False
  then obtain cs where "SubmitRequest eng P mem now (kCrc ops) (length ops) 0 cs uctx ch = Some (st, ch')" "valid_crcs ops"
    using s check_crcs_valid [of ops 0] by (auto simp: SubmitCrc_def Let_def valid_crcs_def split: if_splits option.splits)
  then show ?thesis
    using SubmitRequest_ok [OF ok now m _ _, of "length ops" "kCrc ops"] by simp
qed

end

section \<open>Creation and release\<close>

text \<open>What is known of the allocators when a channel is created: addresses of live objects are not given out again.\<close>

fun fresh_news :: "('a, 'e) DataFlowEngine \<Rightarrow> ('a \<Rightarrow> 'e \<Rightarrow> bool) \<Rightarrow> (nat \<times> DataFlowRequest \<times> 'a) list \<Rightarrow> 'e DataFlowChannelImpl \<Rightarrow> bool" where
  "fresh_news eng fresh [] ch = True"
| "fresh_news eng fresh ((p, junk, a) # news) ch =
    (reqs ch p = None \<and> fresh a (engine ch)
     \<and> (case vPreallocateCtx eng a junk (engine ch) of
          Some (kOk, req, e) \<Rightarrow>
            fresh_news eng fresh news (ch\<lparr> engine := e, reqs := (reqs ch)(p \<mapsto> req), cached_resource := cached_resource ch @ [p] \<rparr>)
        | _ \<Rightarrow> True))"

definition same_frame :: "'e DataFlowChannelImpl \<Rightarrow> 'e DataFlowChannelImpl \<Rightarrow> bool" where
  "same_frame ch ch' \<longleftrightarrow> queue ch' = queue ch \<and> expired_queue ch' = expired_queue ch \<and> opts ch' = opts ch \<and> timer_manager ch' = timer_manager ch"

text \<open>A channel all of whose requests are cached.\<close>

definition all_cached :: "('e \<Rightarrow> (nat \<rightharpoonup> nat) \<Rightarrow> nat set \<Rightarrow> bool) \<Rightarrow> 'e DataFlowChannelImpl \<Rightarrow> bool" where
  "all_cached einv ch \<longleftrightarrow> lists_ok [] [] (cached_resource ch) (reqs ch) \<and> einv (engine ch) Map.empty (ctx_of (reqs ch) ` set (cached_resource ch))"

context flow_engine
begin

lemma free_all_ok:
  assumes "distinct ps" "set ps = dom (reqs ch)" "inj_on (ctx_of (reqs ch)) (dom (reqs ch))" "einv (engine ch) Map.empty (ctx_of (reqs ch) ` dom (reqs ch))"
  shows "\<exists>ch'. free_all eng ps ch = Some ch' \<and> reqs ch' = Map.empty \<and> einv (engine ch') Map.empty {}
    \<and> same_frame ch ch' \<and> cached_resource ch' = cached_resource ch"
  using assms
proof (induction ps arbitrary: ch)
  case Nil
  then have "reqs ch = Map.empty"
    using dom_eq_empty_conv [of "reqs ch"] by simp
  then show ?case
    using Nil.prems(4) by (simp add: same_frame_def)
next
  case (Cons p ps)
  obtain r where r: "reqs ch p = Some r"
    using Cons.prems(2) by auto
  obtain e where e: "vClearCtx eng r (engine ch) = Some e" "einv e Map.empty (ctx_of (reqs ch) ` dom (reqs ch) - {engine_ctx r})"
    using clear_einv [OF Cons.prems(4), of r] r by force
  let ?ch = "ch\<lparr> engine := e, reqs := (reqs ch)(p := None) \<rparr>"
  have d: "dom (reqs ?ch) = dom (reqs ch) - {p}"
    by auto
  have img: "ctx_of (reqs ?ch) ` dom (reqs ?ch) = ctx_of (reqs ch) ` dom (reqs ch) - {engine_ctx r}"
  proof -
    have "ctx_of (reqs ?ch) ` dom (reqs ?ch) = ctx_of (reqs ch) ` (dom (reqs ch) - {p})"
      unfolding d by (intro image_cong) auto
    also have "\<dots> = ctx_of (reqs ch) ` dom (reqs ch) - {engine_ctx r}"
      using inj_on_image_set_diff [OF Cons.prems(3), of "dom (reqs ch)" "{p}"] r by auto
    finally show ?thesis .
  qed
  have inj: "inj_on (ctx_of (reqs ?ch)) (dom (reqs ?ch))"
    using Cons.prems(3) unfolding d by (auto simp: inj_on_def)
  have "einv (engine ?ch) Map.empty (ctx_of (reqs ?ch) ` dom (reqs ?ch))"
    unfolding img using e(2) by simp
  moreover have "set ps = dom (reqs ?ch)"
    unfolding d Cons.prems(2) [symmetric] using Cons.prems(1) by auto
  ultimately obtain ch' where "free_all eng ps ?ch = Some ch'" "reqs ch' = Map.empty" "einv (engine ch') Map.empty {}"
    "same_frame ?ch ch'" "cached_resource ch' = cached_resource ?ch"
    using Cons.IH [OF _ _ inj] Cons.prems(1) distinct.simps(2) by metis
  then show ?case
    using r e(1) by (simp add: same_frame_def)
qed

lemma init_step:
  assumes ok: "all_cached einv ch" and f: "reqs ch p = None" "fresh a (engine ch)"
  shows "\<exists>st req e. vPreallocateCtx eng a junk (engine ch) = Some (st, req, e)
    \<and> (if st = kOk then all_cached einv (ch\<lparr> engine := e, reqs := (reqs ch)(p \<mapsto> req), cached_resource := cached_resource ch @ [p] \<rparr>)
       else all_cached einv (ch\<lparr> engine := e \<rparr>))"
proof -
  let ?I = "ctx_of (reqs ch) ` set (cached_resource ch)"
  have l: "lists_ok [] [] (cached_resource ch) (reqs ch)" and e: "einv (engine ch) Map.empty ?I"
    using ok by (simp_all add: all_cached_def)
  obtain st req e' where p: "vPreallocateCtx eng a junk (engine ch) = Some (st, req, e')"
    "if st = kOk then engine_ctx req \<notin> ?I \<and> einv e' Map.empty (insert (engine_ctx req) ?I) else einv e' Map.empty ?I"
    using prealloc_einv [OF e f(2), of junk] by (auto split: if_splits)
  let ?rq = "(reqs ch)(p \<mapsto> req)"
  have d: "set (cached_resource ch) = dom (reqs ch)" "p \<notin> dom (reqs ch)"
    using l f(1) by (auto simp: lists_ok_def)
  have img: "ctx_of ?rq ` set (cached_resource ch) = ?I"
    using d by (intro image_cong) auto
  have "lists_ok [] [] (cached_resource ch @ [p]) ?rq" if "st = kOk"
  proof -
    have "inj_on (ctx_of (reqs ch)) (dom (reqs ch))"
      using l by (simp add: lists_ok_def)
    then have "inj_on (ctx_of ?rq) (dom (reqs ch))"
      by (rule inj_on_cong [THEN iffD1, rotated]) (use d(2) in auto)
    moreover have "ctx_of ?rq p \<notin> ctx_of ?rq ` dom (reqs ch)"
      using p(2) that img unfolding d(1) [symmetric] by simp
    ultimately have "inj_on (ctx_of ?rq) (insert p (dom (reqs ch)))"
      using d(2) by (simp add: inj_on_insert)
    then show ?thesis
      using l d by (auto simp: lists_ok_def)
  qed
  then show ?thesis
    using p l img by (auto simp: all_cached_def)
qed

lemma init_loop_ok:
  assumes "all_cached einv ch" "fresh_news eng fresh news ch"
  shows "\<exists>st ch'. init_loop eng news ch = Some (st, ch') \<and> same_frame ch ch'
    \<and> (if st = kOk then all_cached einv ch' \<and> cached_resource ch' = cached_resource ch @ map fst news
       else reqs ch' = Map.empty \<and> cached_resource ch' = [] \<and> einv (engine ch') Map.empty {})"
  using assms
proof (induction news arbitrary: ch)
  case Nil
  then show ?case
    by (simp add: same_frame_def)
next
  case (Cons x news)
  obtain p junk a where x: "x = (p, junk, a)"
    by (cases x)
  obtain st req e where s: "vPreallocateCtx eng a junk (engine ch) = Some (st, req, e)"
    "if st = kOk then all_cached einv (ch\<lparr> engine := e, reqs := (reqs ch)(p \<mapsto> req), cached_resource := cached_resource ch @ [p] \<rparr>)
     else all_cached einv (ch\<lparr> engine := e \<rparr>)"
    using init_step [OF Cons.prems(1), of p a junk] Cons.prems(2) x by auto
  show ?case
  proof (cases "st = kOk")
    case True
    let ?ch = "ch\<lparr> engine := e, reqs := (reqs ch)(p \<mapsto> req), cached_resource := cached_resource ch @ [p] \<rparr>"
    have "fresh_news eng fresh news ?ch"
      using Cons.prems(2) x s(1) True by simp
    moreover have "all_cached einv ?ch"
      using s(2) True by simp
    ultimately obtain st' ch' where
      "init_loop eng news ?ch = Some (st', ch')" "same_frame ?ch ch'"
      "if st' = kOk then all_cached einv ch' \<and> cached_resource ch' = cached_resource ?ch @ map fst news
       else reqs ch' = Map.empty \<and> cached_resource ch' = [] \<and> einv (engine ch') Map.empty {}"
      using Cons.IH by blast
    then show ?thesis
      using x s(1) True by (intro exI [of _ st'] exI [of _ ch']) (simp add: same_frame_def)
  next
    case False
    let ?ch = "ch\<lparr> engine := e \<rparr>"
    have "distinct (cached_resource ch)" "set (cached_resource ch) = dom (reqs ?ch)" "inj_on (ctx_of (reqs ?ch)) (dom (reqs ?ch))"
      "einv (engine ?ch) Map.empty (ctx_of (reqs ?ch) ` dom (reqs ?ch))"
      using s(2) False by (auto simp: all_cached_def lists_ok_def)
    from free_all_ok [OF this] obtain ch' where "free_all eng (cached_resource ch) ?ch = Some ch'" "reqs ch' = Map.empty" "einv (engine ch') Map.empty {}"
      "same_frame ?ch ch'"
      by blast
    then show ?thesis
      using x s(1) False by (intro exI [of _ st] exI [of _ "ch'\<lparr> cached_resource := [] \<rparr>"]) (simp add: same_frame_def)
  qed
qed

lemma discard_loop_ok:
  assumes "chan_ok einv P ts (seen @ ps) (expired_queue ch) ch clk" "\<forall>p \<in> set ps. unexpired (reqs ch) p"
  shows "\<exists>res' ch'. discard_loop eng P seen ps res ch = Some (res', ch') \<and> chan_ok einv P ts (queue ch') (expired_queue ch') ch' clk"
  using assms
proof (induction ps arbitrary: seen res ch)
  case Nil
  then show ?case
    by (simp add: chan_ok_def)
next
  case (Cons p ps)
  have "unexpired (reqs ch) p"
    using Cons.prems(2) by simp
  from queue_step [OF Cons.prems(1) this, of res] obtain r' res' ch1 where
    c: "check_request eng p res ch = Some (r', res', ch1)" "expired_queue ch1 = expired_queue ch" "\<forall>q. expired (the (reqs ch1 q)) = expired (the (reqs ch q))"
    "if completed r' then (\<exists>tm. RemoveTimer (pool_put P) (timer_ctx r') (timer_manager ch1) = Some tm
        \<and> chan_ok einv P ts (seen @ ps) (expired_queue ch) (ch1\<lparr> timer_manager := tm, cached_resource := cached_resource ch1 @ [p] \<rparr>) clk)
     else chan_ok einv P ts (seen @ p # ps) (expired_queue ch) ch1 clk"
    by (auto split: if_splits)
  show ?case
  proof (cases "completed r'")
    case True
    then obtain tm where tm: "RemoveTimer (pool_put P) (timer_ctx r') (timer_manager ch1) = Some tm"
      "chan_ok einv P ts (seen @ ps) (expired_queue ch) (ch1\<lparr> timer_manager := tm, cached_resource := cached_resource ch1 @ [p] \<rparr>) clk"
      using c(4) by auto
    then show ?thesis
      using Cons.IH [of seen "ch1\<lparr> timer_manager := tm, cached_resource := cached_resource ch1 @ [p] \<rparr>" res'] c True Cons.prems(2) by simp
  next
    case False
    then show ?thesis
      using Cons.IH [of "seen @ [p]" ch1 res'] c Cons.prems(2) by simp
  qed
qed

lemma Close_ok:
  assumes ok: "chan_ok einv P ts (queue ch) (expired_queue ch) ch clk" and live: "\<forall>p \<in> set (queue ch). unexpired (reqs ch) p"
  shows "\<exists>st ch'. Close eng P blank ch = Some (st, ch')
    \<and> (st = kOk \<and> reqs ch' = Map.empty \<and> einv (engine ch') Map.empty {}
       \<or> st = kResourceBusy \<and> queue ch' @ expired_queue ch' \<noteq> [] \<and> chan_ok einv P ts (queue ch') (expired_queue ch') ch' clk)"
proof -
  obtain res ch1 where c1: "discard_loop eng P [] (queue ch) blank ch = Some (res, ch1)" "chan_ok einv P ts (queue ch1) ([] @ expired_queue ch1) ch1 clk"
    using discard_loop_ok [of P ts "[]" "queue ch" ch clk blank] ok live by auto
  obtain ch2 where c2: "expired_loop eng None [] (expired_queue ch1) res ch1 = Some ch2" "chan_ok einv P ts (queue ch1) (expired_queue ch2) ch2 clk" "queue ch2 = queue ch1"
    using expired_loop_ok [OF c1(2)] by blast
  show ?thesis
  proof (cases "queue ch2 @ expired_queue ch2 = []")
    case True
    have l: "lists_ok [] [] (cached_resource ch2) (reqs ch2)" and e: "eng_ok einv {} (set (cached_resource ch2)) (reqs ch2) (engine ch2)"
      using c2 True by (simp_all add: chan_ok_def)
    have d: "distinct (cached_resource ch2)" "set (cached_resource ch2) = dom (reqs ch2)" "inj_on (ctx_of (reqs ch2)) (dom (reqs ch2))"
      using l by (simp_all add: lists_ok_def)
    obtain busy where "einv (engine ch2) busy (ctx_of (reqs ch2) ` set (cached_resource ch2))" "\<forall>a n. busy a \<noteq> Some n"
      using e by (auto simp: eng_ok_def)
    moreover from this(2) have "busy = Map.empty"
      by (metis not_None_eq ext)
    ultimately have "einv (engine ch2) Map.empty (ctx_of (reqs ch2) ` dom (reqs ch2))"
      by (simp add: d(2))
    from free_all_ok [OF d this] show ?thesis
      using c1(1) c2(1) True by (auto simp: Close_def PollDiscardedResult_def)
  next
    case False
    then show ?thesis
      using c1(1) c2 by (auto simp: Close_def PollDiscardedResult_def)
  qed
qed

end

section \<open>Histories\<close>

text \<open>The histories of a channel: creation, submissions, polls, and what happens to the engine in between.  \<open>taken\<close> are the
  user contexts of the accepted submissions and \<open>given\<close> those of the delivered results, in order.\<close>

inductive channel_reach :: "('a, 'e) DataFlowEngine \<Rightarrow> ('a \<Rightarrow> 'e \<Rightarrow> bool) \<Rightarrow> ('e \<Rightarrow> 'e \<Rightarrow> bool) \<Rightarrow> pool_params \<Rightarrow> u64 \<Rightarrow> nat \<Rightarrow>
    DataFlowChannelOptions \<Rightarrow> 'e \<Rightarrow> 'e DataFlowChannelImpl \<Rightarrow> nat list \<Rightarrow> nat list \<Rightarrow> u64 \<Rightarrow> bool"
  for eng fresh env P ts t opt e0 where
  created: "fresh_news eng fresh (map news [0..<kIoDepthMaximum]) (DataFlowChannelImpl_new e0 opt ts t) \<Longrightarrow>
    Channel_Init eng news (DataFlowChannelImpl_new e0 opt ts t) = Some (kOk, ch) \<Longrightarrow>
    channel_reach eng fresh env P ts t opt e0 ch [] [] 0"
| move: "channel_reach eng fresh env P ts t opt e0 ch taken given clk \<Longrightarrow> clk \<le> now \<Longrightarrow> now \<le> now + ts \<Longrightarrow>
    mem_ready P mem (pool (timer_manager ch)) \<Longrightarrow> SubmitMove eng P mem now ops uctx ch = Some (st, ch') \<Longrightarrow>
    channel_reach eng fresh env P ts t opt e0 ch' (taken @ (if st = kOk then [uctx] else [])) given now"
| crc: "channel_reach eng fresh env P ts t opt e0 ch taken given clk \<Longrightarrow> clk \<le> now \<Longrightarrow> now \<le> now + ts \<Longrightarrow>
    mem_ready P mem (pool (timer_manager ch)) \<Longrightarrow> SubmitCrc eng P mem now cops uctx ch = Some (st, ch') \<Longrightarrow>
    channel_reach eng fresh env P ts t opt e0 ch' (taken @ (if st = kOk then [uctx] else [])) given now"
| poll: "channel_reach eng fresh env P ts t opt e0 ch taken given clk \<Longrightarrow> clk \<le> now \<Longrightarrow> max_num \<le> length rs \<Longrightarrow>
    Poll eng P blank now rs max_num ch = Some (n, rs', ch') \<Longrightarrow>
    channel_reach eng fresh env P ts t opt e0 ch' taken (given @ map result_ctx (take n rs')) now"
| outside: "channel_reach eng fresh env P ts t opt e0 ch taken given clk \<Longrightarrow> env (engine ch) e \<Longrightarrow>
    channel_reach eng fresh env P ts t opt e0 (ch\<lparr> engine := e \<rparr>) taken given clk"

definition delivery :: "'e DataFlowChannelImpl \<Rightarrow> nat list \<Rightarrow> nat list \<Rightarrow> bool" where
  "delivery ch taken given \<longleftrightarrow>
    mset taken = mset given + mset (map (\<lambda>p. user_ctx (the (reqs ch p))) (queue ch))
    \<and> (order_type (opts ch) = kOrdered \<longrightarrow> taken = given @ map (\<lambda>p. user_ctx (the (reqs ch p))) (queue ch))
    \<and> length (queue ch @ expired_queue ch @ cached_resource ch) = kIoDepthMaximum"

lemma all_cached_chan_ok:
  assumes "all_cached einv ch" "queue ch = []" "expired_queue ch = []" "timer_manager ch = TimerManager_init ts (TlsObjectPool_init t)" "params_ok P"
  shows "chan_ok einv P ts [] [] ch 0"
proof -
  have "holds_timers P ts (TimerManager_init ts (TlsObjectPool_init t)) [] 0"
    by (rule timer_reach_holds [OF timer_reach.start assms(5)])
  then have "timers_ok P ts [] (reqs ch) (timer_manager ch) [] 0"
    using assms(4) by (simp add: timers_ok_def)
  moreover have "eng_ok einv {} (set (cached_resource ch)) (reqs ch) (engine ch)"
    using assms(1) unfolding all_cached_def eng_ok_def by (intro exI [of _ Map.empty]) simp
  ultimately show ?thesis
    using assms(1) by (auto simp: chan_ok_def all_cached_def)
qed

lemma chan_ok_length: "chan_ok einv P ts Q E ch clk \<Longrightarrow> length (Q @ E @ cached_resource ch) = card (dom (reqs ch))"
  unfolding chan_ok_def lists_ok_def by (metis distinct_card)

lemma delivery_poll:
  assumes "delivery ch taken given" and p: "polled (\<lambda>p. user_ctx (the (reqs ch p))) (order_type (opts ch) = kOrdered) max_num [] (queue ch) rs 0 (queue ch') rs' n D"
    and "same_requests (reqs ch) (reqs ch')" "opts ch' = opts ch" "set (queue ch) \<subseteq> dom (reqs ch)"
    and "length (queue ch' @ expired_queue ch' @ cached_resource ch') = length (queue ch @ expired_queue ch @ cached_resource ch)"
  shows "delivery ch' taken (given @ map result_ctx (take n rs'))"
proof -
  let ?u = "\<lambda>p. user_ctx (the (reqs ch p))"
  have r: "map result_ctx (take n rs') = map ?u D" and m: "mset (queue ch) = mset (queue ch') + mset D"
    and o: "order_type (opts ch) = kOrdered \<Longrightarrow> queue ch = D @ queue ch'"
    using p by (auto simp: polled_def)
  have "set (queue ch') \<subseteq> dom (reqs ch)"
    using m assms(5) by (metis set_mset_mset subset_trans le_sup_iff set_mset_union)
  then have u: "map (\<lambda>p. user_ctx (the (reqs ch' p))) (queue ch') = map ?u (queue ch')"
    using same_requests_the(2) [OF assms(3)] by (intro map_cong) auto
  have "mset (map ?u (queue ch)) = mset (map ?u (queue ch')) + mset (map ?u D)"
    unfolding mset_map m by simp
  then show ?thesis
    using assms(1,4,6) o unfolding delivery_def r u by auto
qed

context flow_engine
begin

lemma reach_ok:
  assumes "channel_reach eng fresh env P ts t opt e0 ch taken given clk" "einv e0 Map.empty {}" "params_ok P"
  shows "chan_ok einv P ts (queue ch) (expired_queue ch) ch clk \<and> opts ch = opt \<and> delivery ch taken given"
  using assms
proof (induction rule: channel_reach.induct)
  case (created news ch)
  let ?n = "DataFlowChannelImpl_new e0 opt ts t"
  have "all_cached einv ?n"
    using created.prems by (simp add: all_cached_def lists_ok_def DataFlowChannelImpl_new_def)
  then have i: "same_frame ?n ch" "all_cached einv ch" "cached_resource ch = map fst (map news [0..<kIoDepthMaximum])"
    using init_loop_ok [OF _ created.hyps(1)] created.hyps(2) by (auto simp: Channel_Init_def DataFlowChannelImpl_new_def)
  then show ?case
    using all_cached_chan_ok [OF i(2) _ _ _ created.prems(2)] by (simp add: same_frame_def DataFlowChannelImpl_new_def delivery_def)
next
  case (move ch taken given clk now mem ops uctx st ch')
  then show ?case
    using SubmitMove_ok [of P ts ch clk now mem ops uctx st ch'] by (auto simp: delivery_def)
next
  case (crc ch taken given clk now mem cops uctx st ch')
  then show ?case
    using SubmitCrc_ok [of P ts ch clk now mem cops uctx st ch'] by (auto simp: delivery_def)
next
  case (poll ch taken given clk now max_num rs blank n rs' ch')
  then have ok: "chan_ok einv P ts (queue ch) (expired_queue ch) ch clk" "opts ch = opt" "delivery ch taken given"
    by auto
  then obtain D where d: "chan_ok einv P ts (queue ch') (expired_queue ch') ch' now" "same_requests (reqs ch) (reqs ch')" "opts ch' = opts ch"
    "polled (\<lambda>p. user_ctx (the (reqs ch p))) (order_type (opts ch) = kOrdered) max_num [] (queue ch) rs 0 (queue ch') rs' n D"
    using Poll_ok [OF ok(1) poll.hyps(3,2), of blank] poll.hyps(4) by auto
  have "set (queue ch) \<subseteq> dom (reqs ch)"
    using ok(1) by (auto simp: chan_ok_def lists_ok_def)
  moreover have "length (queue ch' @ expired_queue ch' @ cached_resource ch') = length (queue ch @ expired_queue ch @ cached_resource ch)"
    unfolding chan_ok_length [OF ok(1)] chan_ok_length [OF d(1)] same_requests_dom [OF d(2)] ..
  ultimately have "delivery ch' taken (given @ map result_ctx (take n rs'))"
    by (rule delivery_poll [OF ok(3) d(4,2,3)])
  then show ?case
    using d(1,3) ok(2) by simp
next
  case (outside ch taken given clk e)
  then show ?case
    using env_einv [OF _ outside.hyps(2)] by (auto simp: chan_ok_def eng_ok_def delivery_def)
qed

end

section \<open>What a channel guarantees\<close>

text \<open>C3: Over any engine that keeps the engine contract, and for every history of submissions, polls, timeouts and engine
  activity: every accepted submission is delivered exactly once or still queued, in an ordered channel results are
  delivered in the order of submission, and the requests of the channel are never lost or duplicated.\<close>

theorem channel_exactly_once:
  assumes "flow_engine eng einv fresh env" "einv e0 Map.empty {}" "params_ok P"
    and "channel_reach eng fresh env P ts t opt e0 ch taken given clk"
  shows "mset taken = mset given + mset (map (\<lambda>p. user_ctx (the (reqs ch p))) (queue ch))
    \<and> (order_type opt = kOrdered \<longrightarrow> taken = given @ map (\<lambda>p. user_ctx (the (reqs ch p))) (queue ch))
    \<and> distinct (queue ch @ expired_queue ch @ cached_resource ch)
    \<and> length (queue ch @ expired_queue ch @ cached_resource ch) = kIoDepthMaximum"
  using flow_engine.reach_ok [OF assms(1,4,2,3)] unfolding delivery_def chan_ok_def lists_ok_def by auto

text \<open>C13: In every such state polling returns, with at most the requested number of results: it never follows a dangling
  pointer, and never removes a timer that has fired.\<close>

theorem poll_returns:
  assumes "flow_engine eng einv fresh env" "einv e0 Map.empty {}" "params_ok P"
    and "channel_reach eng fresh env P ts t opt e0 ch taken given clk" "clk \<le> now" "max_num \<le> length rs"
  shows "\<exists>n rs' ch'. Poll eng P blank now rs max_num ch = Some (n, rs', ch') \<and> n \<le> max_num
    \<and> channel_reach eng fresh env P ts t opt e0 ch' taken (given @ map result_ctx (take n rs')) now"
proof -
  have "chan_ok einv P ts (queue ch) (expired_queue ch) ch clk"
    using flow_engine.reach_ok [OF assms(1,4,2,3)] by blast
  then obtain n rs' ch' D where "Poll eng P blank now rs max_num ch = Some (n, rs', ch')"
    "polled (\<lambda>p. user_ctx (the (reqs ch p))) (order_type (opts ch) = kOrdered) max_num [] (queue ch) rs 0 (queue ch') rs' n D"
    using flow_engine.Poll_ok [OF assms(1) _ assms(6,5)] by blast
  then show ?thesis
    using channel_reach.poll [OF assms(4-6)] unfolding polled_def by blast
qed

text \<open>C14: In every such state in which no queued request has expired, closing returns.  It either reports requests in
  flight and leaves the channel usable, or it releases every request and every engine context exactly once.\<close>

theorem close_releases_all:
  assumes "flow_engine eng einv fresh env" "einv e0 Map.empty {}" "params_ok P"
    and "channel_reach eng fresh env P ts t opt e0 ch taken given clk" "\<forall>p \<in> set (queue ch). \<not> expired (the (reqs ch p))"
  shows "\<exists>st ch'. Close eng P blank ch = Some (st, ch')
    \<and> (st = kOk \<and> reqs ch' = Map.empty \<and> einv (engine ch') Map.empty {}
       \<or> st = kResourceBusy \<and> queue ch' @ expired_queue ch' \<noteq> [] \<and> chan_ok einv P ts (queue ch') (expired_queue ch') ch' clk)"
proof -
  have "chan_ok einv P ts (queue ch) (expired_queue ch) ch clk"
    using flow_engine.reach_ok [OF assms(1,4,2,3)] by blast
  from flow_engine.Close_ok [OF assms(1) this assms(5), of blank] show ?thesis .
qed

section \<open>Using a channel after it is closed\<close>

lemma free_all_frees:
  "free_all eng ps ch = Some ch' \<Longrightarrow> (\<forall>p \<in> set ps. reqs ch' p = None) \<and> (\<forall>p. reqs ch p = None \<longrightarrow> reqs ch' p = None)
     \<and> queue ch' = queue ch \<and> expired_queue ch' = expired_queue ch \<and> cached_resource ch' = cached_resource ch"
  by (induction ps arbitrary: ch) (fastforce split: option.splits)+

text \<open>A successful close leaves the addresses of the released requests in the channel.  Closing again, or submitting
  a batch that passes validation, accesses released memory; it does not report a closed channel.\<close>

theorem use_after_close:
  assumes "Close eng P blank ch = Some (kOk, ch')" "cached_resource ch' \<noteq> []"
  shows "Close eng P blank ch' = None \<and> SubmitRequest eng P mem now ops num ms cs uctx ch' = None"
proof -
  obtain ch1 where c: "queue ch1 = []" "expired_queue ch1 = []" "free_all eng (cached_resource ch1) ch1 = Some ch'"
    using assms(1) by (auto simp: Close_def split: option.splits if_splits)
  have f: "\<forall>p \<in> set (cached_resource ch'). reqs ch' p = None" "queue ch' = []" "expired_queue ch' = []"
    using free_all_frees [OF c(3)] c(1,2) by auto
  obtain p ps where p: "cached_resource ch' = p # ps" "reqs ch' p = None"
    using assms(2) f(1) by (cases "cached_resource ch'") auto
  have "ch'\<lparr> queue := [] \<rparr> = ch'" "ch'\<lparr> expired_queue := [] \<rparr> = ch'"
    using f(2,3) by (cases ch', simp)+
  then have "PollDiscardedResult eng P blank ch' = Some ch'"
    using f(2,3) by (simp add: PollDiscardedResult_def)
  then show ?thesis
    using f(2,3) p by (simp add: Close_def SubmitRequest_def)
qed

section \<open>Validation of moves\<close>

text \<open>C35: \<^verbatim>\<open>SubmitMove\<close> rejects a batch without effect exactly when an operation is malformed, has an empty segment or a
  total length above the maximum, or the batch needs too many descriptors; but the total length is computed modulo
  \<open>2 ^ 64\<close>, and two segments of \<open>2 ^ 63\<close> bytes pass.\<close>

theorem move_validation:
  "(if valid_batch ops then \<exists>ms cs. SubmitMove eng P mem now ops uctx ch = SubmitRequest eng P mem now (kMove ops) (length ops) ms cs uctx ch
    else SubmitMove eng P mem now ops uctx ch = Some (kInvalidArgument, ch))
   \<and> valid_batch [\<lparr> src = [a, b], src_len = [2 ^ 63, 2 ^ 63], dst = d, seed = 0, enable_crc = False \<rparr>]"
  using SubmitMove_cases [of ops eng P mem now uctx ch]
  by (simp add: valid_batch_def valid_move_def kMaxSubmittedBatchSize_def kMaxInternalBatchSize_def kMaxSrcSegmentNum_def total_len_def)

section \<open>A channel over the software engine\<close>

text \<open>A concrete history: a channel with a timeout of ten ticks, one accepted checksum request, and the two ways to go on.\<close>

definition blank_request :: DataFlowRequest where
  "blank_request = \<lparr> req_op = None, req_num = 0, schedule_hint = 0, completed = False, expired = False, timer_ctx = None,
     engine_ctx = 0, user_ctx = 0, move_data_size = 0, crc_data_size = 0 \<rparr>"

definition sw_news :: "nat \<Rightarrow> nat \<times> DataFlowRequest \<times> nat \<times> u64 list" where
  "sw_news i = (i, blank_request, i, replicate kMaxSubmittedBatchSize 0)"

definition sw_start :: SwEngine where
  "sw_start = \<lparr> user_mem = \<lambda>a. Some 0, sw_ctxs = Map.empty \<rparr>"

definition sw_opts :: DataFlowChannelOptions where
  "sw_opts = \<lparr> order_type = kOrdered, engine_type = kSoftware, opt_schedule_hint = 0, timeout_ms = 10 \<rparr>"

lemma sw_init_loop:
  assumes "\<forall>i \<in> set ns. reqs ch i = None \<and> sw_ctxs (engine ch) i = None" "distinct ns"
  shows "fresh_news (sw_engine sse) sw_fresh (map sw_news ns) ch \<and> (\<exists>ch'. init_loop (sw_engine sse) (map sw_news ns) ch = Some (kOk, ch')
    \<and> user_mem (engine ch') = user_mem (engine ch) \<and> opts ch' = opts ch \<and> timer_manager ch' = timer_manager ch \<and> queue ch' = queue ch
    \<and> expired_queue ch' = expired_queue ch \<and> cached_resource ch' = cached_resource ch @ ns
    \<and> (\<forall>i. reqs ch' i = (if i \<in> set ns then Some (blank_request\<lparr> engine_ctx := i \<rparr>) else reqs ch i))
    \<and> (\<forall>i. sw_ctxs (engine ch') i = (if i \<in> set ns then Some (replicate kMaxSubmittedBatchSize 0) else sw_ctxs (engine ch) i)))"
  using assms
proof (induction ns arbitrary: ch)
  case (Cons i ns)
  let ?e = "(engine ch)\<lparr> sw_ctxs := (sw_ctxs (engine ch))(i \<mapsto> replicate kMaxSubmittedBatchSize 0) \<rparr>"
  let ?ch = "ch\<lparr> engine := ?e, reqs := (reqs ch)(i \<mapsto> blank_request\<lparr> engine_ctx := i \<rparr>), cached_resource := cached_resource ch @ [i] \<rparr>"
  have p: "vPreallocateCtx (sw_engine sse) (i, replicate kMaxSubmittedBatchSize 0) blank_request (engine ch) = Some (kOk, blank_request\<lparr> engine_ctx := i \<rparr>, ?e)"
    by (simp add: sw_engine_def SwEngine_PreallocateCtx_def)
  have "\<forall>j \<in> set ns. reqs ?ch j = None \<and> sw_ctxs (engine ?ch) j = None"
    using Cons.prems by auto
  note IH = Cons.IH [OF this]
  have i: "sw_news i = (i, blank_request, i, replicate kMaxSubmittedBatchSize 0)" "sw_fresh (i, replicate kMaxSubmittedBatchSize 0) (engine ch)"
    using Cons.prems(1) by (auto simp: sw_news_def sw_fresh_def)
  have e: "init_loop (sw_engine sse) (map sw_news (i # ns)) ch = init_loop (sw_engine sse) (map sw_news ns) ?ch"
    "fresh_news (sw_engine sse) sw_fresh (map sw_news (i # ns)) ch = fresh_news (sw_engine sse) sw_fresh (map sw_news ns) ?ch"
    using Cons.prems(1) by (simp_all add: i p)
  obtain ch' where "init_loop (sw_engine sse) (map sw_news ns) ?ch = Some (kOk, ch')"
     "user_mem (engine ch') = user_mem (engine ch)" "opts ch' = opts ch" "timer_manager ch' = timer_manager ch" "queue ch' = queue ch"
     "expired_queue ch' = expired_queue ch" "cached_resource ch' = cached_resource ch @ i # ns"
    "\<forall>j. reqs ch' j = (if j \<in> set ns then Some (blank_request\<lparr> engine_ctx := j \<rparr>) else reqs ?ch j)"
    "\<forall>j. sw_ctxs (engine ch') j = (if j \<in> set ns then Some (replicate kMaxSubmittedBatchSize 0) else sw_ctxs (engine ?ch) j)"
    using IH Cons.prems(2) by auto
  then show ?case
    unfolding e using IH Cons.prems(2) by (intro conjI exI [of _ ch']) simp_all
qed simp

lemma sw_created:
  "\<exists>ch. channel_reach (sw_engine True) sw_fresh sw_env pool32 10 7 sw_opts sw_start ch [] [] 0
    \<and> user_mem (engine ch) = (\<lambda>a. Some 0) \<and> opts ch = sw_opts \<and> timer_manager ch = TimerManager_init 10 (TlsObjectPool_init 7) \<and> queue ch = []
    \<and> expired_queue ch = [] \<and> cached_resource ch = [0..<kIoDepthMaximum]
    \<and> (\<forall>i < kIoDepthMaximum. reqs ch i = Some (blank_request\<lparr> engine_ctx := i \<rparr>) \<and> sw_ctxs (engine ch) i = Some (replicate kMaxSubmittedBatchSize 0))"
proof -
  let ?n = "DataFlowChannelImpl_new sw_start sw_opts 10 7"
  have "\<forall>i \<in> set [0..<kIoDepthMaximum]. reqs ?n i = None \<and> sw_ctxs (engine ?n) i = None"
    by (simp add: DataFlowChannelImpl_new_def sw_start_def)
  from sw_init_loop [OF this distinct_upt, of True] obtain ch where
    "fresh_news (sw_engine True) sw_fresh (map sw_news [0..<kIoDepthMaximum]) ?n" "Channel_Init (sw_engine True) sw_news ?n = Some (kOk, ch)"
    "user_mem (engine ch) = user_mem (engine ?n)" "opts ch = opts ?n" "timer_manager ch = timer_manager ?n" "queue ch = queue ?n"
    "expired_queue ch = expired_queue ?n" "cached_resource ch = cached_resource ?n @ [0..<kIoDepthMaximum]"
    "\<forall>i. reqs ch i = (if i \<in> set [0..<kIoDepthMaximum] then Some (blank_request\<lparr> engine_ctx := i \<rparr>) else reqs ?n i)"
    "\<forall>i. sw_ctxs (engine ch) i = (if i \<in> set [0..<kIoDepthMaximum] then Some (replicate kMaxSubmittedBatchSize 0) else sw_ctxs (engine ?n) i)"
    unfolding Channel_Init_def by blast
  then show ?thesis
    by (intro exI [of _ ch]) (auto intro!: channel_reach.created simp: DataFlowChannelImpl_new_def sw_start_def)
qed

lemma sw_timer_added:
  "\<exists>tm. AddTimer (get_local_object pool32) (Some 8192) 5 0 (TimerManager_init 10 (TlsObjectPool_init 7)) = Some (8208, tm)
    \<and> head_ctx tm = Some 8208 \<and> tail_ctx tm = Some 8208 \<and> ctxs tm 8208 = Some \<lparr> onfired_ts = 15, timer_arg = 0, next_ctx = None, prev_ctx = None \<rparr>
    \<and> (\<exists>tm' c. HandleTimeout (pool_put pool32) 20 tm = Some ([0], tm') \<and> head_ctx tm' = None \<and> tail_ctx tm' = None
         \<and> ctxs tm' 8208 = Some c \<and> prev_ctx c = None)"
  by (simp add: AddTimer_def get_local_object_def get_or_new_object_def construct_from_def alloc_object_def object_at_def
      LOCAL_CHUNK_SIZE_def TlsObjectPool_init_def TimerManager_init_def obtained_def modify_ctx_def HandleTimeout_def timeout_loop.simps
      reset_and_return_def Reset_def return_local_object_def return_or_free_object_def recycle_object_def address_def Let_def)

lemma sw_submitted:
  "\<exists>ch. channel_reach (sw_engine True) sw_fresh sw_env pool32 10 7 sw_opts sw_start ch [9] [] 5 \<and> queue ch = [0] \<and> expired_queue ch = []
    \<and> AddTimer (get_local_object pool32) (Some 8192) 5 0 (TimerManager_init 10 (TlsObjectPool_init 7)) = Some (8208, timer_manager ch)
    \<and> (\<exists>r. reqs ch 0 = Some r \<and> timer_ctx r = Some 8208 \<and> \<not> expired r \<and> req_num r = 1 \<and> engine_ctx r = 0)
    \<and> (\<exists>c. sw_ctxs (engine ch) 0 = Some c \<and> length c = kMaxSubmittedBatchSize)"
proof -
  obtain ch where ch: "channel_reach (sw_engine True) sw_fresh sw_env pool32 10 7 sw_opts sw_start ch [] [] 0"
    "user_mem (engine ch) = (\<lambda>a. Some 0)" "opts ch = sw_opts" "timer_manager ch = TimerManager_init 10 (TlsObjectPool_init 7)" "queue ch = []"
    "expired_queue ch = []" "cached_resource ch = 0 # [1..<kIoDepthMaximum]"
    "reqs ch 0 = Some (blank_request\<lparr> engine_ctx := 0 \<rparr>)" "sw_ctxs (engine ch) 0 = Some (replicate kMaxSubmittedBatchSize 0)"
    using sw_created by (auto simp: kIoDepthMaximum_def upt_conv_Cons)
  let ?op = "\<lparr> crc_src = 0, crc_len = 1, crc_seed = 0 \<rparr>"
  obtain tm where tm: "AddTimer (get_local_object pool32) (Some 8192) 5 0 (TimerManager_init 10 (TlsObjectPool_init 7)) = Some (8208, tm)"
    using sw_timer_added by blast
  define c where "c = replicate kMaxSubmittedBatchSize (0 :: u64)"
  have c: "length c = kMaxSubmittedBatchSize" "0 < length c"
    by (simp_all add: c_def kMaxSubmittedBatchSize_def)
  obtain v where v: "buffer_crc True 0 (\<lambda>a. Some 0) 0 1 = Some v"
    using buffer_crc_ok [of 0 1 "\<lambda>a. Some 0" 0] by auto
  define r where "r = Build (kCrc [?op]) 1 9 0 0 1 (blank_request\<lparr> engine_ctx := 0 \<rparr>)"
  define e where "e = (engine ch)\<lparr> sw_ctxs := (sw_ctxs (engine ch))(0 \<mapsto> c[0 := v]) \<rparr>"
  have r: "req_op r = Some (kCrc [?op])" "engine_ctx r = 0" "\<not> expired r" "req_num r = 1"
    by (simp_all add: r_def Build_def blank_request_def)
  have s: "vSubmit (sw_engine True) r (engine ch) = Some (kOk, e)"
    using ch(2,9) v c(2) unfolding c_def [symmetric] by (simp add: sw_engine_def SwEngine_Submit_def r e_def)
  let ?ch = "ch\<lparr> cached_resource := [1..<kIoDepthMaximum], queue := [0], timer_manager := tm, engine := e,
      reqs := (reqs ch)(0 \<mapsto> r\<lparr> timer_ctx := Some 8208, req_op := None \<rparr>) \<rparr>"
  have "SubmitRequest (sw_engine True) pool32 (Some 8192) 5 (kCrc [?op]) 1 0 1 9 ch = Some (kOk, ?ch)"
    using ch(3-8) s tm unfolding SubmitRequest_def r_def by (simp add: sw_opts_def)
  then have sub: "SubmitCrc (sw_engine True) pool32 (Some 8192) 5 [?op] 9 ch = Some (kOk, ?ch)"
    by (simp add: SubmitCrc_def kMaxSubmittedBatchSize_def kMaxInternalBatchSize_def kMaxTotalLength_def)
  have "channel_reach (sw_engine True) sw_fresh sw_env pool32 10 7 sw_opts sw_start ?ch ([] @ (if kOk = kOk then [9] else [])) [] 5"
    by (rule channel_reach.crc [OF ch(1) _ _ _ sub]) (simp_all add: ch(4) mem_ready_def TimerManager_init_def TlsObjectPool_init_def)
  then show ?thesis
    using tm c r ch(6) by (intro exI [of _ ?ch]) (simp add: e_def)
qed

lemma sw_start_einv: "sw_einv sw_start Map.empty {}"
  by (simp add: sw_einv_def sw_start_def)

lemma pool32_ok: "params_ok pool32"
  by (simp add: params_ok_def LOCAL_CHUNK_SIZE_def)

theorem channel_exactly_once_witness:
  "\<exists>ch. channel_reach (sw_engine True) sw_fresh sw_env pool32 10 7 sw_opts sw_start ch [9] [] 5
    \<and> map (\<lambda>p. user_ctx (the (reqs ch p))) (queue ch) = [9] \<and> length (queue ch @ expired_queue ch @ cached_resource ch) = kIoDepthMaximum"
proof -
  obtain ch where ch: "channel_reach (sw_engine True) sw_fresh sw_env pool32 10 7 sw_opts sw_start ch [9] [] 5"
    using sw_submitted by blast
  from channel_exactly_once [OF sw.flow_engine_axioms sw_start_einv pool32_ok ch] ch show ?thesis
    by (auto simp: sw_opts_def)
qed

theorem poll_returns_witness:
  "\<exists>ch n rs' ch'. Poll (sw_engine True) pool32 \<lparr> result_status = kOk, crc_output = [], result_ctx = 0 \<rparr> 6
      [\<lparr> result_status = kOk, crc_output = [], result_ctx = 0 \<rparr>] 1 ch = Some (n, rs', ch') \<and> queue ch = [0] \<and> n \<le> 1"
proof -
  obtain ch where ch: "channel_reach (sw_engine True) sw_fresh sw_env pool32 10 7 sw_opts sw_start ch [9] [] 5" "queue ch = [0]"
    using sw_submitted by blast
  have "(5 :: u64) \<le> 6" "1 \<le> length [\<lparr> result_status = kOk, crc_output = [], result_ctx = 0 \<rparr>]"
    by simp_all
  from poll_returns [OF sw.flow_engine_axioms sw_start_einv pool32_ok ch(1) this] ch(2) show ?thesis
    by blast
qed

theorem close_releases_all_witness:
  "\<exists>ch st ch'. queue ch = [0] \<and> Close (sw_engine True) pool32 \<lparr> result_status = kOk, crc_output = [], result_ctx = 0 \<rparr> ch = Some (st, ch')
    \<and> (st = kOk \<longrightarrow> reqs ch' = Map.empty)"
proof -
  obtain ch r where ch: "channel_reach (sw_engine True) sw_fresh sw_env pool32 10 7 sw_opts sw_start ch [9] [] 5" "queue ch = [0]"
    "reqs ch 0 = Some r" "\<not> expired r"
    using sw_submitted by blast
  then have "\<forall>p \<in> set (queue ch). \<not> expired (the (reqs ch p))"
    by simp
  from close_releases_all [OF sw.flow_engine_axioms sw_start_einv pool32_ok ch(1) this, of "\<lparr> result_status = kOk, crc_output = [], result_ctx = 0 \<rparr>"]
  show ?thesis
    using ch(2) by auto
qed

lemma use_after_close_start:
  "\<exists>ch'. Close (sw_engine True) pool32 \<lparr> result_status = kOk, crc_output = [], result_ctx = 0 \<rparr>
     \<lparr> queue = [], expired_queue = [], cached_resource = [3], opts = sw_opts, timer_manager = TimerManager_init 10 (TlsObjectPool_init 7),
       reqs = [3 \<mapsto> blank_request\<lparr> engine_ctx := 5 \<rparr>], engine = \<lparr> user_mem = Map.empty, sw_ctxs = [5 \<mapsto> []] \<rparr> \<rparr> = Some (kOk, ch')
     \<and> cached_resource ch' = [3]"
  by (simp add: Close_def PollDiscardedResult_def sw_engine_def SwEngine_ClearCtx_def)

theorem use_after_close_witness:
  "\<exists>ch ch'. Close (sw_engine True) pool32 \<lparr> result_status = kOk, crc_output = [], result_ctx = 0 \<rparr> ch = Some (kOk, ch')
     \<and> Close (sw_engine True) pool32 \<lparr> result_status = kOk, crc_output = [], result_ctx = 0 \<rparr> ch' = None"
proof -
  obtain ch ch' :: "SwEngine DataFlowChannelImpl" where c: "Close (sw_engine True) pool32 \<lparr> result_status = kOk, crc_output = [], result_ctx = 0 \<rparr> ch = Some (kOk, ch')"
    "cached_resource ch' = [3]"
    using use_after_close_start by blast
  have "cached_resource ch' \<noteq> []"
    using c(2) by simp
  from use_after_close [OF c(1) this] c(1) show ?thesis
    by blast
qed

section \<open>Closing after a timeout\<close>


end
