(* ===== verification/Dsa_Engine.thy ===== *)
theory Dsa_Engine
  imports Dsa_Ctx Dsa_Dispatcher Channel_Contract
begin

text \<open>The DSA engine, \<^verbatim>\<open>src/src/data_flow/dsa/data_flow_dsa_engine.cc\<close>, and the contexts of
  \<^verbatim>\<open>DsaCtxFactory\<close>: an engine builds the descriptors of a batch (\<open>Dsa_Ctx\<close>), gives them to a work queue
  (\<open>Dsa_Dispatcher\<close>), and reads the completion records the device writes.  \<open>descs\<close> and \<open>recs\<close> are the chunks of all contexts;
  what the memory pool and \<^verbatim>\<open>new\<close> answer when a context is created is the record \<open>dsa_alloc\<close>.  The engine keeps the contract
  of the data flow channel.\<close>

unbundle bit_operations_syntax

section \<open>Contexts\<close>

record dsa_alloc =
  new_ctx :: nat
  new_junk :: DsaCtx
  desc_chunk :: u64
  desc_junk :: "u64 \<Rightarrow> dsa_hw_desc"
  rec_chunk :: u64
  rec_junk :: "u64 \<Rightarrow> dsa_completion_record"

record DsaEngine =
  dsa_dispatcher :: DsaDispatcher
  dsa_tls :: tls_counters
  addresses :: translation
  dsa_ctxs :: "nat \<rightharpoonup> DsaCtx"
  descs :: desc_memory
  recs :: rec_memory

text \<open>The aligned slots of a chunk, which holds one slot more than a context uses.\<close>

definition in_chunk :: "u64 \<Rightarrow> u64 \<Rightarrow> u64 \<Rightarrow> bool" where
  "in_chunk chunk slot a \<longleftrightarrow> unat a mod unat slot = 0 \<and> unat chunk \<le> unat a \<and> unat a + unat slot \<le> unat chunk + unat slot * (kMaxInternalBatchSize + 1)"

definition DsaCtxFactory_PreallocateCtx :: "dsa_alloc \<Rightarrow> DataFlowRequest \<Rightarrow> DsaEngine \<Rightarrow> (StatusCode \<times> DataFlowRequest \<times> DsaEngine) option" where
  "DsaCtxFactory_PreallocateCtx al req e =
    (if desc_chunk al = 0 \<or> rec_chunk al = 0 then Some (kResourceBusy, req, e)
     else
       let phys_addr1 = look_up (addresses e) (desc_chunk al); phys_addr2 = look_up (addresses e) (rec_chunk al) in
       if phys_addr1 = 0 \<or> phys_addr2 = 0 then Some (kUnknown, req, e)
       else
         (case (GetNextAlignedAddress (desc_chunk al) kDsaHwDescSize, GetNextAlignedAddress phys_addr1 kDsaHwDescSize,
                GetNextAlignedAddress (rec_chunk al) kDsaCompletionRecordSize, GetNextAlignedAddress phys_addr2 kDsaCompletionRecordSize) of
            (Some d, Some dp, Some r, Some rp) \<Rightarrow>
              Some (kOk, req\<lparr> engine_ctx := new_ctx al \<rparr>,
                e\<lparr> dsa_ctxs := (dsa_ctxs e)(new_ctx al \<mapsto> (new_junk al)\<lparr> desc_memory_chunk := desc_chunk al, completion_record_memory_chunk := rec_chunk al,
                     dsa_hw_descs := d, dsa_hw_descs_phys := dp, dsa_completion_records := r, dsa_completion_records_phys := rp \<rparr>),
                   descs := (\<lambda>a. if in_chunk (desc_chunk al) kDsaHwDescSize a then Some (desc_junk al a) else descs e a),
                   recs := (\<lambda>a. if in_chunk (rec_chunk al) kDsaCompletionRecordSize a then Some (rec_junk al a) else recs e a) \<rparr>)
          | _ \<Rightarrow> None))"

definition DsaCtxFactory_ClearCtx :: "DataFlowRequest \<Rightarrow> DsaEngine \<Rightarrow> DsaEngine option" where
  "DsaCtxFactory_ClearCtx req e =
    (case dsa_ctxs e (engine_ctx req) of
       None \<Rightarrow> None
     | Some c \<Rightarrow>
         Some (e\<lparr> dsa_ctxs := (dsa_ctxs e)(engine_ctx req := None),
                  descs := (\<lambda>a. if in_chunk (desc_memory_chunk c) kDsaHwDescSize a then None else descs e a),
                  recs := (\<lambda>a. if in_chunk (completion_record_memory_chunk c) kDsaCompletionRecordSize a then None else recs e a) \<rparr>))"

section \<open>The engine\<close>

datatype dsa_task = DSA_TASK_WIP | DSA_TASK_SUCCESS | DSA_TASK_FAILURE

definition DsaCheckCompletion :: "rec_memory \<Rightarrow> u64 \<Rightarrow> dsa_task option" where
  "DsaCheckCompletion rm a =
    map_option (\<lambda>cr. if rec_status cr = DSA_COMP_NONE then DSA_TASK_WIP
                     else if rec_status cr = DSA_COMP_SUCCESS then DSA_TASK_SUCCESS else DSA_TASK_FAILURE) (rm a)"

definition GetCrcInDsaCompletionRecord :: "rec_memory \<Rightarrow> u64 \<Rightarrow> u32 option" where
  "GetCrcInDsaCompletionRecord rm a = map_option (\<lambda>cr. ucast (crc_val cr)) (rm a)"

definition DsaEngine_Submit :: "DataFlowRequest \<Rightarrow> DsaEngine \<Rightarrow> (StatusCode \<times> DsaEngine) option" where
  "DsaEngine_Submit item e =
    (case dsa_ctxs e (engine_ctx item) of
       None \<Rightarrow> None
     | Some c \<Rightarrow>
         (case BuildCtx (addresses e) (req_op item) c (descs e, recs e) of
            None \<Rightarrow> None
          | Some (st, c', dm, rm) \<Rightarrow>
              let e1 = e\<lparr> dsa_ctxs := (dsa_ctxs e)(engine_ctx item \<mapsto> c'), descs := dm, recs := rm \<rparr> in
              if st \<noteq> kOk then Some (st, e1)
              else
                (case DsaDispatcher_Submit (schedule_hint item) (dsa_tls e) (dsa_dispatcher e) of
                   None \<Rightarrow> None
                 | Some (st', wq, tls, d) \<Rightarrow>
                     Some (st', e1\<lparr> dsa_dispatcher := d, dsa_tls := tls,
                       dsa_ctxs := (dsa_ctxs e)(engine_ctx item \<mapsto> (if wq = None then c' else c'\<lparr> work_queue := wq \<rparr>)) \<rparr>))))"

fun crc_outputs :: "rec_memory \<Rightarrow> u64 list \<Rightarrow> u64 list option" where
  "crc_outputs rm [] = Some []"
| "crc_outputs rm (r # rs) =
    (case (if r \<noteq> 0 then map_option (\<lambda>v. ucast (NOT v)) (GetCrcInDsaCompletionRecord rm r) else Some 0) of
       None \<Rightarrow> None
     | Some v \<Rightarrow> map_option ((#) v) (crc_outputs rm rs))"

definition DsaEngine_CheckCompletion :: "DataFlowRequest \<Rightarrow> DataFlowResult \<Rightarrow> DsaEngine \<Rightarrow> (DataFlowRequest \<times> DataFlowResult \<times> DsaEngine) option" where
  "DsaEngine_CheckCompletion item result e =
    (case dsa_ctxs e (engine_ctx item) of
       None \<Rightarrow> None
     | Some c \<Rightarrow>
         (case DsaCheckCompletion (recs e) (dsa_completion_records c) of
            None \<Rightarrow> None
          | Some DSA_TASK_WIP \<Rightarrow> Some (item, result, e)
          | Some ret \<Rightarrow>
              if req_num item > length (crc_results c) then None
              else
                (case (crc_outputs (recs e) (take (req_num item) (crc_results c)), work_queue c) of
                   (Some out, Some wq) \<Rightarrow>
                     map_option (\<lambda>d. (item\<lparr> completed := True \<rparr>,
                         result\<lparr> result_status := (if ret = DSA_TASK_SUCCESS then kOk else kHardwareError), result_ctx := user_ctx item, crc_output := out \<rparr>,
                         e\<lparr> dsa_dispatcher := d \<rparr>))
                       (NotifyCompletion wq (dsa_dispatcher e))
                 | _ \<Rightarrow> None)))"

definition dsa_engine :: "(dsa_alloc, DsaEngine) DataFlowEngine" where
  "dsa_engine = \<lparr> vSubmit = DsaEngine_Submit, vCheckCompletion = DsaEngine_CheckCompletion,
     vPreallocateCtx = DsaCtxFactory_PreallocateCtx, vClearCtx = DsaCtxFactory_ClearCtx \<rparr>"


section \<open>Building keeps the memory of all contexts\<close>

definition mapped :: "('k \<rightharpoonup> 'v) \<Rightarrow> 'k set" where
  "mapped m = dom m"

lemma put_desc_dom: "put_desc a f m = Some m' \<Longrightarrow> mapped m' = mapped m"
  by (auto simp: put_desc_def mapped_def split: option.splits if_splits)

lemma fill_dom:
  "FillBatch a k l cr m = Some m' \<Longrightarrow> mapped m' = mapped m" "FillCrc a s l sd cr m = Some m' \<Longrightarrow> mapped m' = mapped m"
  "FillFence a cr m = Some m' \<Longrightarrow> mapped m' = mapped m"
  by (simp_all add: FillBatch_def FillCrc_def FillFence_def put_desc_dom)

lemma fill_copy_dom: "FillCopyMaybeWithCrc a s l d sd crc crp cr m = Some (r, m') \<Longrightarrow> mapped m' = mapped m"
  by (auto simp: FillCopyMaybeWithCrc_def FillCopyWithCrc_def FillCopy_def dest: put_desc_dom split: if_splits)

lemma copy_segments_dom: "copy_segments tr c op dp ss ls off sm cr m = Some (st, off', sm', cr', m') \<Longrightarrow> mapped m' = mapped m"
  by (induction tr c op dp ss ls off sm cr m rule: copy_segments.induct)
    (auto simp: Let_def fill_copy_dom split: if_splits option.splits)

lemma copy_ops_frame: "copy_ops tr c i ops off crs m = Some (st, off', sums, crs', m') \<Longrightarrow> mapped m' = mapped m \<and> length crs' = length crs"
proof (induction tr c i ops off crs m arbitrary: st off' sums crs' m' rule: copy_ops.induct)
  case (2 tr c i op ops off crs m)
  then show ?case
    by (fastforce simp: Let_def dest: copy_segments_dom split: if_splits option.splits)
qed simp

lemma crc_ops_frame: "crc_ops tr c i ops sums off crs m = Some (crs', m') \<Longrightarrow> mapped m' = mapped m \<and> length crs' = length crs"
  by (induction tr c i ops sums off crs m rule: crc_ops.induct) (auto simp: fill_dom split: if_splits option.splits)

lemma crc_loop_frame: "crc_loop tr c i ops crs m = Some (st, crs', m') \<Longrightarrow> mapped m' = mapped m \<and> length crs' = length crs"
  by (induction tr c i ops crs m rule: crc_loop.induct) (auto simp: Let_def fill_dom split: if_splits option.splits)

lemma ResetCtx_frame: "ResetCtx c (dm, rm) = Some (dm', rm') \<Longrightarrow> mapped dm' = mapped dm \<and> mapped rm' = mapped rm"
proof -
  have m: "foldl (\<lambda>m k. m(desc_at c k \<mapsto> zero_desc)) dm ks a = (if a \<in> desc_at c ` set ks then Some zero_desc else dm a)" for ks a
    by (induction ks rule: rev_induct) auto
  show "ResetCtx c (dm, rm) = Some (dm', rm') \<Longrightarrow> mapped dm' = mapped dm \<and> mapped rm' = mapped rm"
    by (auto simp: ResetCtx_def mapped_def m split: if_splits)
qed

text \<open>A context keeps its memory and its queue.\<close>

definition same_ctx :: "DsaCtx \<Rightarrow> DsaCtx \<Rightarrow> bool" where
  "same_ctx c c' \<longleftrightarrow> c' = c\<lparr> desc_num := desc_num c', crc_results := crc_results c' \<rparr> \<and> length (crc_results c') = length (crc_results c)"

lemma same_ctxI: "length rs = length (crc_results c) \<Longrightarrow> same_ctx c (c\<lparr> desc_num := n, crc_results := rs \<rparr>)"
  "same_ctx c (c\<lparr> desc_num := n \<rparr>)" "same_ctx c c"
  by (simp_all add: same_ctx_def)

lemma BuildMoveCtx_frame:
  "BuildMoveCtx tr ops c (dm, rm) = Some (st, c', dm', rm') \<Longrightarrow> mapped dm' = mapped dm \<and> mapped rm' = mapped rm \<and> same_ctx c c'"
  unfolding BuildMoveCtx_def
  by (auto simp: Let_def same_ctxI split: if_splits option.splits prod.splits
      dest!: ResetCtx_frame fill_dom fill_copy_dom copy_ops_frame crc_ops_frame)

lemma BuildCrcCtx_frame:
  "BuildCrcCtx tr ops c (dm, rm) = Some (st, c', dm', rm') \<Longrightarrow> mapped dm' = mapped dm \<and> mapped rm' = mapped rm \<and> same_ctx c c'"
  unfolding BuildCrcCtx_def
  by (auto simp: Let_def same_ctxI split: if_splits option.splits prod.splits dest!: ResetCtx_frame fill_dom crc_loop_frame)


section \<open>The chunks of a context\<close>

lemma unat_clear_mask: "unat (x AND NOT (mask n) :: u64) = unat x - unat x mod 2 ^ n"
proof -
  have "push_bit n (drop_bit n x) = x AND NOT (mask n)"
    by (rule bit_word_eqI) (auto simp: bit_simps)
  then have d: "x AND NOT (mask n) = x - take_bit n x"
    using bits_ident [of n x] by (metis add_diff_cancel_right')
  have t: "unat (take_bit n x) = unat x mod 2 ^ n"
    unfolding unsigned_take_bit_eq by (rule take_bit_eq_mod)
  then have "take_bit n x \<le> x"
    by (simp add: word_le_nat_alt)
  then show ?thesis
    unfolding d unat_sub [OF \<open>take_bit n x \<le> x\<close>] t by simp
qed

text \<open>The next aligned address is the least multiple of the alignment that is not below.\<close>

lemma GetNextAlignedAddress_pow:
  assumes "0 < n" "n < 32" "unat a + 2 ^ n \<le> 2 ^ 64"
  shows "\<exists>x. GetNextAlignedAddress a (2 ^ n) = Some x \<and> unat x mod 2 ^ n = 0 \<and> unat a \<le> unat x \<and> unat x < unat a + 2 ^ n"
proof -
  define N where "N = (2 :: nat) ^ n"
  have N: "0 < N" "N mod 2 = 0" "N \<le> 2 ^ 32"
    using assms(1,2) power_increasing [of n 32 "2 :: nat"] by (auto simp: N_def)
  have p: "(2 ^ n :: u64) = of_nat N"
    by (simp add: N_def)
  have u: "unat (2 ^ n :: u64) = N"
    unfolding p using N(3) by (intro unat_of_nat_u64) simp
  let ?y = "a + 2 ^ n - 1 :: u64"
  define m where "m = unat a + (N - 1)"
  have "of_nat (N - 1) = (2 ^ n - 1 :: u64)"
    using N(1) unfolding p by (simp add: of_nat_diff Suc_le_eq)
  then have "?y = of_nat m"
    unfolding m_def of_nat_add by (simp add: add_diff_eq)
  moreover have "m < 2 ^ 64"
    using assms(3) N(1) unfolding N_def [symmetric] m_def by linarith
  ultimately have y: "unat ?y = m"
    by (simp only: unat_of_nat_u64)
  have x: "GetNextAlignedAddress a (2 ^ n) = Some (?y AND NOT (mask n))"
    using u N(2) by (simp add: GetNextAlignedAddress_def mask_eq_exp_minus_1)
  define r where "r = m mod N"
  have r: "r < N" "(m - r) mod N = 0" "r \<le> m"
    using N(1) by (simp_all add: r_def minus_mod_eq_mult_div)
  have "unat (?y AND NOT (mask n)) = m - r"
    unfolding unat_clear_mask y r_def N_def ..
  moreover have "unat a \<le> m - r" "m - r < unat a + N"
    using r(1,3) N(1) unfolding m_def by linarith+
  ultimately show ?thesis
    unfolding x using r(2) by (simp add: N_def)
qed


lemma slot_in_chunk:
  assumes "0 < n" "n < 32" "unat chunk + 2 ^ n * (kMaxInternalBatchSize + 1) \<le> 2 ^ 64" "GetNextAlignedAddress chunk (2 ^ n) = Some d" "k < kMaxInternalBatchSize"
  shows "in_chunk chunk (2 ^ n) (d + of_nat k * 2 ^ n)"
proof -
  define N where "N = (2 :: nat) ^ n"
  have p: "(2 ^ n :: u64) = of_nat N"
    by (simp add: N_def)
  have "N \<le> 2 ^ 32"
    using assms(2) power_increasing [of n 32 "2 :: nat"] by (simp add: N_def)
  then have u: "unat (2 ^ n :: u64) = N"
    unfolding p by (intro unat_of_nat_u64) simp
  have c: "unat chunk + N \<le> 2 ^ 64"
    using assms(3) unfolding N_def [symmetric] by simp
  have d: "unat d mod N = 0" "unat chunk \<le> unat d" "unat d < unat chunk + N"
    using GetNextAlignedAddress_pow [OF assms(1,2) c [unfolded N_def]] assms(4) by (auto simp: N_def)
  have k: "k * N + N \<le> N * kMaxInternalBatchSize"
    using assms(5) mult_le_mono1 [of "Suc k" kMaxInternalBatchSize N] by (simp add: mult.commute)
  have b: "unat d + k * N + N < unat chunk + N * (kMaxInternalBatchSize + 1)"
    using d(3) k by (simp add: distrib_left)
  have "d + of_nat k * 2 ^ n = of_nat (unat d + k * N)"
    unfolding p by simp
  moreover have "unat d + k * N < 2 ^ 64"
    using b assms(3) unfolding N_def [symmetric] by linarith
  ultimately have "unat (d + of_nat k * 2 ^ n) = unat d + k * N"
    by (simp only: unat_of_nat_u64)
  then show ?thesis
    using d b unfolding in_chunk_def u by (simp add: mult.commute)
qed

definition ctx_wf :: "desc_memory \<Rightarrow> rec_memory \<Rightarrow> DsaCtx \<Rightarrow> bool" where
  "ctx_wf dm rm c \<longleftrightarrow> length (crc_results c) = kMaxSubmittedBatchSize \<and> completion_record_memory_chunk c \<noteq> 0
     \<and> unat (desc_memory_chunk c) + unat kDsaHwDescSize * (kMaxInternalBatchSize + 1) \<le> 2 ^ 64
     \<and> unat (completion_record_memory_chunk c) + unat kDsaCompletionRecordSize * (kMaxInternalBatchSize + 1) \<le> 2 ^ 64
     \<and> GetNextAlignedAddress (desc_memory_chunk c) kDsaHwDescSize = Some (dsa_hw_descs c)
     \<and> GetNextAlignedAddress (completion_record_memory_chunk c) kDsaCompletionRecordSize = Some (dsa_completion_records c)
     \<and> Collect (in_chunk (desc_memory_chunk c) kDsaHwDescSize) \<subseteq> mapped dm
     \<and> Collect (in_chunk (completion_record_memory_chunk c) kDsaCompletionRecordSize) \<subseteq> mapped rm"

lemma slot_sizes: "kDsaHwDescSize = 2 ^ 6" "kDsaCompletionRecordSize = 2 ^ 5" "unat kDsaHwDescSize = 2 ^ 6" "unat kDsaCompletionRecordSize = 2 ^ 5"
  by (simp_all add: kDsaHwDescSize_def kDsaCompletionRecordSize_def)

lemma ctx_wf_slots:
  assumes "ctx_wf dm rm c" "k < kMaxInternalBatchSize"
  shows "desc_at c k \<in> mapped dm" "rec_at c k \<in> mapped rm" "rec_at c k \<noteq> 0"
proof -
  have "in_chunk (desc_memory_chunk c) kDsaHwDescSize (desc_at c k)"
    using assms slot_in_chunk [of 6 "desc_memory_chunk c" "dsa_hw_descs c" k] unfolding ctx_wf_def desc_at_def slot_sizes by simp
  then show "desc_at c k \<in> mapped dm"
    using assms(1) by (auto simp: ctx_wf_def)
  have r: "in_chunk (completion_record_memory_chunk c) kDsaCompletionRecordSize (rec_at c k)"
    using assms slot_in_chunk [of 5 "completion_record_memory_chunk c" "dsa_completion_records c" k] unfolding ctx_wf_def rec_at_def slot_sizes by simp
  then show "rec_at c k \<in> mapped rm"
    using assms(1) by (auto simp: ctx_wf_def)
  have "0 < unat (completion_record_memory_chunk c)"
    using assms(1) by (simp add: ctx_wf_def unat_gt_0)
  then show "rec_at c k \<noteq> 0"
    using r by (auto simp: in_chunk_def)
qed

lemma ctx_wf_owns:
  assumes "ctx_wf dm rm c" "n \<le> kMaxInternalBatchSize"
  shows "owns_slots c n dm rm"
proof -
  have "dm (desc_at c k) \<noteq> None" if "k < n" for k
    using ctx_wf_slots(1) [OF assms(1), of k] that assms(2) by (simp add: mapped_def domIff)
  moreover have "rm (dsa_completion_records c) \<noteq> None"
    using ctx_wf_slots(2) [OF assms(1), of 0] by (simp add: mapped_def domIff slot_0 kMaxInternalBatchSize_def)
  ultimately show ?thesis
    using assms(2) by (simp add: owns_slots_def)
qed

lemma same_ctxD: "same_ctx c c' \<Longrightarrow> \<exists>n rs. c' = c\<lparr> desc_num := n, crc_results := rs \<rparr> \<and> length rs = length (crc_results c)"
  unfolding same_ctx_def by blast

lemma ctx_wf_same:
  assumes "ctx_wf dm rm c" "same_ctx c c'" "mapped dm' = mapped dm" "mapped rm' = mapped rm"
  shows "ctx_wf dm' rm' c'" "ctx_wf dm' rm' (c'\<lparr> work_queue := q \<rparr>)"
proof -
  obtain n rs where "c' = c\<lparr> desc_num := n, crc_results := rs \<rparr>" "length rs = length (crc_results c)"
    using same_ctxD [OF assms(2)] by blast
  then show "ctx_wf dm' rm' c'" "ctx_wf dm' rm' (c'\<lparr> work_queue := q \<rparr>)"
    using assms(1,3,4) by (simp_all add: ctx_wf_def)
qed


section \<open>The records an engine reads\<close>

lemma valid_batch_wf: "valid_batch ops \<Longrightarrow> list_all well_formed_op ops"
  by (auto simp: valid_batch_def valid_move_def well_formed_op_def list_all_iff)

lemma valid_batch_layout:
  assumes "valid_batch ops"
  shows "length (move_layout tr c ops) \<le> kMaxInternalBatchSize"
proof -
  have "length (filter needs_crc ops) \<le> length ops"
    by simp
  then have "move_desc_num ops \<le> 1 + sum_list (map (length \<circ> src) ops) + 1 + length ops"
    by (simp add: move_desc_num_def Let_def)
  also have "\<dots> \<le> kMaxInternalBatchSize"
    using assms by (simp add: valid_batch_def)
  finally show ?thesis
    using length_move_layout [OF valid_batch_wf [OF assms], of tr c] by (simp add: kMaxInternalBatchSize_def)
qed

definition records_ok :: "DsaCtx \<Rightarrow> nat \<Rightarrow> bool" where
  "records_ok c n \<longleftrightarrow> (\<forall>r \<in> set (take n (crc_results c)). r = 0 \<or> (\<exists>k < kMaxInternalBatchSize. r = rec_at c k))"

lemma records_ok_upd: "length rs = n \<Longrightarrow> records_ok (c\<lparr> desc_num := m, crc_results := rs @ olds \<rparr>) n \<longleftrightarrow> (\<forall>r \<in> set rs. r = 0 \<or> (\<exists>k < kMaxInternalBatchSize. r = rec_at c k))"
  by (simp add: records_ok_def rec_at_def)

lemma move_recs_range:
  assumes "valid_batch ops" "r \<in> set (move_recs c ops)"
  shows "r = 0 \<or> (\<exists>k < kMaxInternalBatchSize. r = rec_at c k)"
proof -
  fix tr :: translation
  obtain i where i: "i < length ops" "r = move_recs c ops ! i"
    using assms(2) by (auto simp: in_set_conv_nth length_move_recs)
  show ?thesis
    using move_recs_nth [OF valid_batch_wf [OF assms(1)] i(1), of tr c] valid_batch_layout [OF assms(1), of tr c] i(2)
    by (auto split: if_splits dest: less_le_trans)
qed

lemma BuildCtx_records:
  assumes wf: "ctx_wf dm rm c" and v: "valid_ops ops" and b: "BuildCtx tr (Some ops) c (dm, rm) = Some (kOk, c', dm', rm')"
  shows "records_ok c' (op_count ops)"
proof (cases ops)
  case (kMove mops)
  have n: "mops \<noteq> []" "valid_batch mops" "length mops \<le> length (crc_results c)"
    using v b wf kMove by (auto simp: BuildCtx_def ctx_wf_def valid_batch_def)
  have "BuildMoveCtx tr mops c (dm, rm) = Some (kOk, c', dm', rm')"
    using b kMove n(1) by (simp add: BuildCtx_def)
  then have "c' = c\<lparr> desc_num := length (move_layout tr c mops), crc_results := move_recs c mops @ drop (length mops) (crc_results c) \<rparr>"
    using BuildMoveCtx_ok [OF n(1) valid_batch_wf [OF n(2)] n(3) refl ctx_wf_owns [OF wf valid_batch_layout [OF n(2)]], of tr]
    by (auto split: if_splits)
  then show ?thesis
    using move_recs_range [OF n(2)] by (simp add: kMove records_ok_upd length_move_recs)
next
  case (kCrc cops)
  have n: "cops \<noteq> []" "length cops \<le> length (crc_results c)" "length cops \<le> kMaxSubmittedBatchSize"
    using v b wf kCrc by (auto simp: BuildCtx_def ctx_wf_def valid_crcs_def)
  have l: "length (crc_layout tr c cops) \<le> kMaxInternalBatchSize"
    using n(3) by (simp add: crc_layout_def kMaxSubmittedBatchSize_def kMaxInternalBatchSize_def)
  have "BuildCrcCtx tr cops c (dm, rm) = Some (kOk, c', dm', rm')"
    using b kCrc n(1) by (simp add: BuildCtx_def)
  then have "c' = c\<lparr> desc_num := length (crc_layout tr c cops),
      crc_results := map (rec_at c) [length (crc_layout tr c cops) - length cops..<length (crc_layout tr c cops)] @ drop (length cops) (crc_results c) \<rparr>"
    using BuildCrcCtx_ok [OF n(1,2) refl ctx_wf_owns [OF wf l]] by (auto split: if_splits)
  moreover have "length cops \<le> length (crc_layout tr c cops)"
    by (simp add: crc_layout_def)
  moreover have "\<exists>k < kMaxInternalBatchSize. rec_at c j = rec_at c k" if "j < length (crc_layout tr c cops)" for j
    using l that by (intro exI [of _ j]) simp
  ultimately show ?thesis
    by (simp add: kCrc records_ok_upd)
next
  case (kOtherType n)
  then show ?thesis
    using v by simp
qed


section \<open>The engine keeps the contract of the channel\<close>

definition apart :: "DsaCtx \<Rightarrow> DsaCtx \<Rightarrow> bool" where
  "apart c d \<longleftrightarrow> (\<forall>x. \<not> (in_chunk (desc_memory_chunk c) kDsaHwDescSize x \<and> in_chunk (desc_memory_chunk d) kDsaHwDescSize x))
     \<and> (\<forall>x. \<not> (in_chunk (completion_record_memory_chunk c) kDsaCompletionRecordSize x \<and> in_chunk (completion_record_memory_chunk d) kDsaCompletionRecordSize x))"

definition ctxs_wf :: "(nat \<rightharpoonup> DsaCtx) \<Rightarrow> desc_memory \<Rightarrow> rec_memory \<Rightarrow> bool" where
  "ctxs_wf cs dm rm \<longleftrightarrow> (\<forall>a c. cs a = Some c \<longrightarrow> ctx_wf dm rm c) \<and> (\<forall>a b c d. cs a = Some c \<longrightarrow> cs b = Some d \<longrightarrow> a \<noteq> b \<longrightarrow> apart c d)"

definition in_hardware :: "nat \<Rightarrow> nat \<Rightarrow> DsaCtx \<Rightarrow> bool" where
  "in_hardware queues n c \<longleftrightarrow> (\<exists>q < queues. work_queue c = Some q) \<and> n \<le> kMaxSubmittedBatchSize \<and> records_ok c n"

definition dsa_einv :: "DsaEngine \<Rightarrow> (nat \<rightharpoonup> nat) \<Rightarrow> nat set \<Rightarrow> bool" where
  "dsa_einv e busy idle \<longleftrightarrow> ctxs_wf (dsa_ctxs e) (descs e) (recs e) \<and> dom busy \<union> idle \<subseteq> dom (dsa_ctxs e) \<and> dom busy \<inter> idle = {}
     \<and> (\<forall>a n c. busy a = Some n \<longrightarrow> dsa_ctxs e a = Some c \<longrightarrow> in_hardware (length (wq_list (dsa_dispatcher e))) n c)"

text \<open>The allocators answer with addresses that are not in use and chunks that do not wrap around.\<close>

definition dsa_fresh :: "dsa_alloc \<Rightarrow> DsaEngine \<Rightarrow> bool" where
  "dsa_fresh al e \<longleftrightarrow> new_ctx al \<notin> dom (dsa_ctxs e) \<and> length (crc_results (new_junk al)) = kMaxSubmittedBatchSize
     \<and> unat (desc_chunk al) + unat kDsaHwDescSize * (kMaxInternalBatchSize + 1) \<le> 2 ^ 64
     \<and> unat (rec_chunk al) + unat kDsaCompletionRecordSize * (kMaxInternalBatchSize + 1) \<le> 2 ^ 64
     \<and> (desc_chunk al \<noteq> 0 \<longrightarrow> (\<forall>x. in_chunk (desc_chunk al) kDsaHwDescSize x \<longrightarrow> x \<notin> mapped (descs e)))
     \<and> (rec_chunk al \<noteq> 0 \<longrightarrow> (\<forall>x. in_chunk (rec_chunk al) kDsaCompletionRecordSize x \<longrightarrow> x \<notin> mapped (recs e)))"

text \<open>Between two calls the device writes completion records, other threads use the queues, and the address manager changes.\<close>

definition dsa_env :: "DsaEngine \<Rightarrow> DsaEngine \<Rightarrow> bool" where
  "dsa_env e e' \<longleftrightarrow> dsa_ctxs e' = dsa_ctxs e \<and> mapped (descs e') = mapped (descs e) \<and> mapped (recs e') = mapped (recs e)
     \<and> length (wq_list (dsa_dispatcher e')) = length (wq_list (dsa_dispatcher e))"

lemma dispatcher_queue:
  "DsaDispatcher_Submit h tls d = Some (st, wq, tls', d') \<Longrightarrow>
   length (wq_list d') = length (wq_list d) \<and> (if st = kOk then \<exists>q < length (wq_list d). wq = Some q else wq = None)"
  by (auto simp: DsaDispatcher_Submit_def Let_def split: option.splits if_splits prod.splits)

lemma ctxs_wf_upd:
  assumes "ctxs_wf cs dm rm" "cs a = Some c" "same_ctx c c'" "mapped dm' = mapped dm" "mapped rm' = mapped rm" "c'' = c' \<or> c'' = c'\<lparr> work_queue := q \<rparr>"
  shows "ctxs_wf (cs(a \<mapsto> c'')) dm' rm'"
proof -
  have k: "desc_memory_chunk c'' = desc_memory_chunk c" "completion_record_memory_chunk c'' = completion_record_memory_chunk c"
    using same_ctxD [OF assms(3)] assms(6) by auto
  have w: "ctx_wf dm' rm' c''"
    using ctx_wf_same [OF _ assms(3-5)] assms(1,2,6) by (auto simp: ctxs_wf_def)
  have o: "ctx_wf dm' rm' d" if "cs b = Some d" for b d
    using assms(1,4,5) that ctx_wf_same(1) [OF _ same_ctxI(3) assms(4,5), of d] by (simp add: ctxs_wf_def)
  have p: "apart c'' d = apart c d" "apart d c'' = apart d c" for d
    by (simp_all add: apart_def k)
  have "apart x y" if "(cs(a \<mapsto> c'')) b = Some x" "(cs(a \<mapsto> c'')) b' = Some y" "b \<noteq> b'" for b b' x y
    using that assms(1,2) p unfolding ctxs_wf_def by (cases "b = a"; cases "b' = a") auto
  then show ?thesis
    using w o unfolding ctxs_wf_def by (auto split: if_splits)
qed

lemma BuildCtx_frame:
  "BuildCtx tr ops c (dm, rm) = Some (st, c', dm', rm') \<Longrightarrow> mapped dm' = mapped dm \<and> mapped rm' = mapped rm \<and> same_ctx c c'"
  by (auto simp: BuildCtx_def same_ctxI(3) dest: BuildMoveCtx_frame BuildCrcCtx_frame split: option.splits operations.splits if_splits)

lemma dsa_einv_ctx:
  assumes inv: "dsa_einv e busy idle" and a: "a \<in> idle" and wf: "ctxs_wf ((dsa_ctxs e)(a \<mapsto> c)) dm rm"
    and d: "length (wq_list d) = length (wq_list (dsa_dispatcher e))"
    and e': "e' = e\<lparr> dsa_ctxs := (dsa_ctxs e)(a \<mapsto> c), descs := dm, recs := rm, dsa_dispatcher := d, dsa_tls := t \<rparr>"
  shows "dsa_einv e' busy idle" "in_hardware (length (wq_list d)) n c \<Longrightarrow> dsa_einv e' (busy(a \<mapsto> n)) (idle - {a})"
proof -
  have i: "dom busy \<union> idle \<subseteq> dom (dsa_ctxs e)" "dom busy \<inter> idle = {}"
      "\<And>b m x. busy b = Some m \<Longrightarrow> dsa_ctxs e b = Some x \<Longrightarrow> in_hardware (length (wq_list d)) m x"
    using inv d by (simp_all add: dsa_einv_def)
  then have "busy a = None"
    using a by auto
  then show "dsa_einv e' busy idle"
    using i wf unfolding dsa_einv_def e' by (auto split: if_splits)
  show "dsa_einv e' (busy(a \<mapsto> n)) (idle - {a})" if h: "in_hardware (length (wq_list d)) n c"
    using i wf h a unfolding dsa_einv_def e' by (auto split: if_splits)
qed

lemma dsa_submit_einv:
  assumes inv: "dsa_einv e busy idle" and r: "engine_ctx r \<in> idle" "req_op r = Some ops" "req_num r = op_count ops" "valid_ops ops"
    and s: "DsaEngine_Submit r e = Some (st, e')"
  shows "if st = kOk then dsa_einv e' (busy(engine_ctx r \<mapsto> req_num r)) (idle - {engine_ctx r}) else dsa_einv e' busy idle"
proof -
  obtain c where c: "dsa_ctxs e (engine_ctx r) = Some c"
    using inv r(1) by (auto simp: dsa_einv_def)
  obtain st1 c' dm rm where b: "BuildCtx (addresses e) (Some ops) c (descs e, recs e) = Some (st1, c', dm, rm)"
    using s c r(2) by (auto simp: DsaEngine_Submit_def split: option.splits)
  have wf: "ctxs_wf (dsa_ctxs e) (descs e) (recs e)"
    using inv by (simp add: dsa_einv_def)
  have f: "mapped dm = mapped (descs e)" "mapped rm = mapped (recs e)" "same_ctx c c'"
    using BuildCtx_frame [OF b] by simp_all
  note up = ctxs_wf_upd [OF wf c f(3,1,2)]
  show ?thesis
  proof (cases "st1 = kOk")
    case False
    then have "st = st1" "e' = e\<lparr> dsa_ctxs := (dsa_ctxs e)(engine_ctx r \<mapsto> c'), descs := dm, recs := rm \<rparr>"
      using s c b r(2) by (simp_all add: DsaEngine_Submit_def Let_def)
    then show ?thesis
      using dsa_einv_ctx(1) [OF inv r(1) up [of c' None] refl refl, of "dsa_tls e"] False by simp
  next
    case True
    obtain wq tls d where d: "DsaDispatcher_Submit (schedule_hint r) (dsa_tls e) (dsa_dispatcher e) = Some (st, wq, tls, d)"
      and e': "e' = e\<lparr> dsa_ctxs := (dsa_ctxs e)(engine_ctx r \<mapsto> (if wq = None then c' else c'\<lparr> work_queue := wq \<rparr>)), descs := dm, recs := rm, dsa_dispatcher := d, dsa_tls := tls \<rparr>"
      using s c b r(2) True by (auto simp: DsaEngine_Submit_def Let_def split: option.splits)
    note q = dispatcher_queue [OF d]
    have "records_ok c' (op_count ops)" "op_count ops \<le> kMaxSubmittedBatchSize"
      using BuildCtx_records [of "descs e" "recs e" c ops "addresses e"] wf c b True r(4) valid_ops_count [OF r(4)] by (auto simp: ctxs_wf_def)
    then have h: "in_hardware (length (wq_list d)) (req_num r) (c'\<lparr> work_queue := wq \<rparr>)" if "st = kOk"
      using q that r(3) by (auto simp: in_hardware_def records_ok_def rec_at_def)
    have l: "length (wq_list d) = length (wq_list (dsa_dispatcher e))"
      using q by simp
    have u: "ctxs_wf ((dsa_ctxs e)(engine_ctx r \<mapsto> (if wq = None then c' else c'\<lparr> work_queue := wq \<rparr>))) dm rm"
      by (rule up [of _ wq]) simp
    have e'': "e' = e\<lparr> dsa_ctxs := (dsa_ctxs e)(engine_ctx r \<mapsto> (if wq = None then c' else c'\<lparr> work_queue := wq \<rparr>)), descs := dm, recs := rm, dsa_dispatcher := d, dsa_tls := tls \<rparr>"
      using e' by simp
    show ?thesis
      using dsa_einv_ctx [OF inv r(1) u l e''] h q by (cases "st = kOk") auto
  qed
qed


lemma crc_outputs_ok:
  assumes "\<And>r. r \<in> set rs \<Longrightarrow> r \<noteq> 0 \<Longrightarrow> r \<in> mapped rm"
  shows "\<exists>out. crc_outputs rm rs = Some out \<and> length out = length rs"
  using assms by (induction rs) (fastforce simp: GetCrcInDsaCompletionRecord_def mapped_def)+

lemma dsa_check_done:
  assumes inv: "dsa_einv e busy idle" and b: "busy (engine_ctx r) = Some (req_num r)" and c: "dsa_ctxs e (engine_ctx r) = Some c"
  shows "\<exists>out d ret. crc_outputs (recs e) (take (req_num r) (crc_results c)) = Some out \<and> req_num r \<le> length (crc_results c)
    \<and> DsaCheckCompletion (recs e) (dsa_completion_records c) = Some ret \<and> length (wq_list d) = length (wq_list (dsa_dispatcher e))
    \<and> DsaEngine_CheckCompletion r res e
      = Some (if ret = DSA_TASK_WIP then (r, res, e)
              else (r\<lparr> completed := True \<rparr>, res\<lparr> result_status := (if ret = DSA_TASK_SUCCESS then kOk else kHardwareError), result_ctx := user_ctx r, crc_output := out \<rparr>,
                    e\<lparr> dsa_dispatcher := d \<rparr>))"
proof -
  have wf: "ctx_wf (descs e) (recs e) c" and h: "in_hardware (length (wq_list (dsa_dispatcher e))) (req_num r) c"
    using inv b c by (simp_all add: dsa_einv_def ctxs_wf_def)
  have rec: "rec_at c k \<in> mapped (recs e)" if "k < kMaxInternalBatchSize" for k
    using ctx_wf_slots(2) [OF wf that] .
  obtain q where q: "work_queue c = Some q" "q < length (wq_list (dsa_dispatcher e))"
    using h by (auto simp: in_hardware_def)
  obtain out where o: "crc_outputs (recs e) (take (req_num r) (crc_results c)) = Some out"
    using crc_outputs_ok [of "take (req_num r) (crc_results c)" "recs e"] h rec by (fastforce simp: in_hardware_def records_ok_def)
  have l: "req_num r \<le> length (crc_results c)"
    using h wf by (simp add: in_hardware_def ctx_wf_def)
  define d where "d = (dsa_dispatcher e)\<lparr> wq_list := (wq_list (dsa_dispatcher e))[q := snd (fetch_sub_size (wq_list (dsa_dispatcher e) ! q))] \<rparr>"
  have n: "NotifyCompletion q (dsa_dispatcher e) = Some d" "length (wq_list d) = length (wq_list (dsa_dispatcher e))"
    using q(2) by (simp_all add: NotifyCompletion_def d_def)
  obtain ret where t: "DsaCheckCompletion (recs e) (dsa_completion_records c) = Some ret"
    using rec [of 0] by (auto simp: DsaCheckCompletion_def mapped_def slot_0 kMaxInternalBatchSize_def)
  show ?thesis
    using c t l o q(1) n by (cases ret) (auto simp: DsaEngine_CheckCompletion_def)
qed

lemma dsa_check_einv:
  assumes inv: "dsa_einv e busy idle" and b: "busy (engine_ctx r) = Some (req_num r)" and nc: "\<not> completed r"
  shows "\<exists>r' res' e'. DsaEngine_CheckCompletion r res e = Some (r', res', e') \<and> r' = r\<lparr> completed := completed r' \<rparr>
    \<and> (if completed r' then result_ctx res' = user_ctx r \<and> dsa_einv e' (busy(engine_ctx r := None)) (insert (engine_ctx r) idle)
       else res' = res \<and> dsa_einv e' busy idle)"
proof -
  obtain c where c: "dsa_ctxs e (engine_ctx r) = Some c"
    using inv b by (auto simp: dsa_einv_def)
  have i: "dsa_einv (e\<lparr> dsa_dispatcher := d \<rparr>) (busy(engine_ctx r := None)) (insert (engine_ctx r) idle)"
    if "length (wq_list d) = length (wq_list (dsa_dispatcher e))" for d
    using inv b c that unfolding dsa_einv_def by (auto split: if_splits)
  obtain out d ret where d: "length (wq_list d) = length (wq_list (dsa_dispatcher e))"
    and k: "DsaEngine_CheckCompletion r res e
      = Some (if ret = DSA_TASK_WIP then (r, res, e)
              else (r\<lparr> completed := True \<rparr>, res\<lparr> result_status := (if ret = DSA_TASK_SUCCESS then kOk else kHardwareError), result_ctx := user_ctx r, crc_output := out \<rparr>,
                    e\<lparr> dsa_dispatcher := d \<rparr>))"
    using dsa_check_done [OF inv b c, of res] by blast
  show ?thesis
    using i [OF d] inv nc unfolding k by (cases "ret = DSA_TASK_WIP") (simp_all split del: if_split)
qed

lemma aligned_some: "unat a mod 2 = 0 \<Longrightarrow> \<exists>x. GetNextAlignedAddress b a = Some x"
  by (simp add: GetNextAlignedAddress_def)

lemma ctx_wf_mono: "ctx_wf dm rm c \<Longrightarrow> mapped dm \<subseteq> mapped dm' \<Longrightarrow> mapped rm \<subseteq> mapped rm' \<Longrightarrow> ctx_wf dm' rm' c"
  unfolding ctx_wf_def by (elim conjE) (intro conjI; assumption?; rule subset_trans; assumption)

lemma dsa_prealloc_einv:
  assumes inv: "dsa_einv e busy idle" and f: "dsa_fresh al e"
  shows "\<exists>st r' e'. DsaCtxFactory_PreallocateCtx al r e = Some (st, r', e')
    \<and> (if st = kOk then r' = r\<lparr> engine_ctx := engine_ctx r' \<rparr> \<and> engine_ctx r' \<notin> dom busy \<union> idle \<and> dsa_einv e' busy (insert (engine_ctx r') idle)
       else dsa_einv e' busy idle)"
proof (cases "desc_chunk al = 0 \<or> rec_chunk al = 0 \<or> look_up (addresses e) (desc_chunk al) = 0 \<or> look_up (addresses e) (rec_chunk al) = 0")
  case True
  then show ?thesis
    using inv by (auto simp: DsaCtxFactory_PreallocateCtx_def Let_def)
next
  case False
  obtain d dp rd rp where g: "GetNextAlignedAddress (desc_chunk al) kDsaHwDescSize = Some d"
      "GetNextAlignedAddress (look_up (addresses e) (desc_chunk al)) kDsaHwDescSize = Some dp"
      "GetNextAlignedAddress (rec_chunk al) kDsaCompletionRecordSize = Some rd"
      "GetNextAlignedAddress (look_up (addresses e) (rec_chunk al)) kDsaCompletionRecordSize = Some rp"
    using aligned_some [of kDsaHwDescSize] aligned_some [of kDsaCompletionRecordSize] unfolding slot_sizes(3,4) by fastforce
  define c where "c = (new_junk al)\<lparr> desc_memory_chunk := desc_chunk al, completion_record_memory_chunk := rec_chunk al,
     dsa_hw_descs := d, dsa_hw_descs_phys := dp, dsa_completion_records := rd, dsa_completion_records_phys := rp \<rparr>"
  define dm where "dm = (\<lambda>a. if in_chunk (desc_chunk al) kDsaHwDescSize a then Some (desc_junk al a) else descs e a)"
  define rm where "rm = (\<lambda>a. if in_chunk (rec_chunk al) kDsaCompletionRecordSize a then Some (rec_junk al a) else recs e a)"
  have p: "DsaCtxFactory_PreallocateCtx al r e = Some (kOk, r\<lparr> engine_ctx := new_ctx al \<rparr>, e\<lparr> dsa_ctxs := (dsa_ctxs e)(new_ctx al \<mapsto> c), descs := dm, recs := rm \<rparr>)"
    using False g by (simp add: DsaCtxFactory_PreallocateCtx_def Let_def c_def dm_def rm_def)
  have m: "mapped dm = Collect (in_chunk (desc_chunk al) kDsaHwDescSize) \<union> mapped (descs e)" "mapped rm = Collect (in_chunk (rec_chunk al) kDsaCompletionRecordSize) \<union> mapped (recs e)"
    by (auto simp: mapped_def dm_def rm_def split: if_splits)
  have wf: "ctxs_wf (dsa_ctxs e) (descs e) (recs e)" and i: "dom busy \<union> idle \<subseteq> dom (dsa_ctxs e)" "dom busy \<inter> idle = {}" "new_ctx al \<notin> dom (dsa_ctxs e)"
    using inv f by (simp_all add: dsa_einv_def dsa_fresh_def)
  have "ctx_wf dm rm c"
    using f g False unfolding ctx_wf_def m by (simp add: c_def dsa_fresh_def)
  moreover have "ctx_wf dm rm x" "apart c x" "apart x c" if "dsa_ctxs e b = Some x" for b x
  proof -
    have x: "ctx_wf (descs e) (recs e) x"
      using wf that by (simp add: ctxs_wf_def)
    show "ctx_wf dm rm x"
      by (rule ctx_wf_mono [OF x]) (simp_all add: m)
    show "apart c x" "apart x c"
      using x f False unfolding apart_def ctx_wf_def dsa_fresh_def by (auto simp: c_def)
  qed
  ultimately have w: "ctxs_wf ((dsa_ctxs e)(new_ctx al \<mapsto> c)) dm rm"
    using wf unfolding ctxs_wf_def by (auto split: if_splits)
  have "dsa_einv (e\<lparr> dsa_ctxs := (dsa_ctxs e)(new_ctx al \<mapsto> c), descs := dm, recs := rm \<rparr>) busy (insert (new_ctx al) idle)"
    using inv w i unfolding dsa_einv_def by (auto split: if_splits)
  then show ?thesis
    using p i by auto
qed


lemma ctxs_wf_remove:
  assumes wf: "ctxs_wf cs dm rm" and c: "cs a = Some c"
  shows "ctxs_wf (cs(a := None)) (\<lambda>x. if in_chunk (desc_memory_chunk c) kDsaHwDescSize x then None else dm x)
    (\<lambda>x. if in_chunk (completion_record_memory_chunk c) kDsaCompletionRecordSize x then None else rm x)" (is "ctxs_wf _ ?dm ?rm")
proof -
  have m: "mapped ?dm = mapped dm - Collect (in_chunk (desc_memory_chunk c) kDsaHwDescSize)"
    "mapped ?rm = mapped rm - Collect (in_chunk (completion_record_memory_chunk c) kDsaCompletionRecordSize)"
    by (auto simp: mapped_def split: if_splits)
  have "ctx_wf ?dm ?rm x" if x: "cs b = Some x" "b \<noteq> a" for b x
  proof -
    have "apart c x" "ctx_wf dm rm x"
      using wf c x unfolding ctxs_wf_def by blast+
    then show ?thesis
      unfolding ctx_wf_def apart_def m by auto
  qed
  then show ?thesis
    using wf unfolding ctxs_wf_def by (auto split: if_splits)
qed

lemma dsa_clear_einv:
  assumes inv: "dsa_einv e busy idle" and r: "engine_ctx r \<in> idle"
  shows "\<exists>e'. DsaCtxFactory_ClearCtx r e = Some e' \<and> dsa_einv e' busy (idle - {engine_ctx r})"
proof -
  obtain c where c: "dsa_ctxs e (engine_ctx r) = Some c"
    using inv r by (auto simp: dsa_einv_def)
  have wf: "ctxs_wf (dsa_ctxs e) (descs e) (recs e)" and i: "dom busy \<union> idle \<subseteq> dom (dsa_ctxs e)" "dom busy \<inter> idle = {}"
    and h: "\<And>a n x. busy a = Some n \<Longrightarrow> dsa_ctxs e a = Some x \<Longrightarrow> in_hardware (length (wq_list (dsa_dispatcher e))) n x"
    using inv by (simp_all add: dsa_einv_def)
  show ?thesis
    using ctxs_wf_remove [OF wf c] i r h unfolding DsaCtxFactory_ClearCtx_def c dsa_einv_def by (auto split: if_splits)
qed

lemma dsa_env_einv:
  assumes "dsa_einv e busy idle" "dsa_env e e'"
  shows "dsa_einv e' busy idle"
proof -
  have "ctxs_wf (dsa_ctxs e) (descs e') (recs e')"
    using assms ctx_wf_mono [of "descs e" "recs e" _ "descs e'" "recs e'"] by (simp add: ctxs_wf_def dsa_einv_def dsa_env_def)
  then show ?thesis
    using assms by (simp add: dsa_einv_def dsa_env_def)
qed

interpretation dsa: flow_engine dsa_engine dsa_einv dsa_fresh dsa_env
proof (unfold_locales, unfold dsa_engine_def DataFlowEngine.select_convs)
  show "dom busy \<inter> idle = {}" if "dsa_einv e busy idle" for e busy idle
    using that by (simp add: dsa_einv_def)
qed (rule dsa_env_einv dsa_submit_einv dsa_check_einv dsa_prealloc_einv dsa_clear_einv; assumption)+


section \<open>What a batch computes\<close>

lemma BuildCtx_move:
  assumes "ctx_wf dm rm c" "valid_batch ops" "ops \<noteq> []"
  shows "\<exists>st c' dm'. BuildCtx tr (Some (kMove ops)) c (dm, rm) = Some (st, c', dm', clear_first c rm)
    \<and> (if movable tr ops
       then st = kOk \<and> c' = c\<lparr> desc_num := length (move_layout tr c ops), crc_results := move_recs c ops @ drop (length ops) (crc_results c) \<rparr>
         \<and> written c (move_layout tr c ops) dm dm' (length (move_layout tr c ops))
       else st = kBadData)"
proof -
  have "length ops \<le> length (crc_results c)"
    using assms(1,2) by (simp add: ctx_wf_def valid_batch_def)
  then show ?thesis
    using BuildMoveCtx_ok [OF assms(3) valid_batch_wf [OF assms(2)] _ refl ctx_wf_owns [OF assms(1) valid_batch_layout [OF assms(2)]], of tr] assms(3)
    by (simp add: BuildCtx_def)
qed

text \<open>C7: For every batch of moves that a channel accepts and every context the engine has created, \<^verbatim>\<open>BuildMoveCtx\<close> returns.
  It reports bad data exactly when an address has no translation; otherwise the first slots of the context hold exactly
  the descriptors of the batch (a single copy, or a batch descriptor, the copies, and a fence followed by the
  checksums), each with the address of its own completion record, and no other descriptor changes.\<close>

theorem dsa_move_descriptors:
  assumes "ctx_wf dm rm c" "valid_batch ops" "ops \<noteq> []"
  shows "\<exists>st c' dm'. BuildCtx tr (Some (kMove ops)) c (dm, rm) = Some (st, c', dm', clear_first c rm)
    \<and> (st = kOk \<longleftrightarrow> movable tr ops) \<and> (st = kBadData \<longleftrightarrow> \<not> movable tr ops)
    \<and> (st = kOk \<longrightarrow> desc_num c' = length (move_layout tr c ops) \<and> desc_num c' \<le> kMaxInternalBatchSize
        \<and> (\<forall>k < desc_num c'. dm' (desc_at c k) = Some ((move_layout tr c ops ! k)\<lparr> completion_addr := rec_phys_at c k \<rparr>))
        \<and> (\<forall>a. a \<notin> desc_at c ` {..<desc_num c'} \<longrightarrow> dm' a = dm a))"
proof -
  obtain st c' dm' where b: "BuildCtx tr (Some (kMove ops)) c (dm, rm) = Some (st, c', dm', clear_first c rm)"
    and r: "if movable tr ops
       then st = kOk \<and> c' = c\<lparr> desc_num := length (move_layout tr c ops), crc_results := move_recs c ops @ drop (length ops) (crc_results c) \<rparr>
         \<and> written c (move_layout tr c ops) dm dm' (length (move_layout tr c ops))
       else st = kBadData"
    using BuildCtx_move [OF assms, of tr] by blast
  show ?thesis
    using b r valid_batch_layout [OF assms(2), of tr c]
    by (intro exI [of _ st] exI [of _ c'] exI [of _ dm']) (cases "movable tr ops"; simp add: written_def)
qed

lemma crc_outputs_nth:
  "crc_outputs rm rs = Some out \<Longrightarrow> i < length rs \<Longrightarrow>
   out ! i = (if rs ! i \<noteq> 0 then ucast (NOT (the (GetCrcInDsaCompletionRecord rm (rs ! i)))) else 0)"
  by (induction rs arbitrary: i out) (auto simp: nth_Cons split: nat.splits if_splits option.splits)

lemma dsa_submit_move:
  assumes inv: "dsa_einv e busy idle" and r: "engine_ctx r \<in> idle" "req_op r = Some (kMove ops)" "valid_batch ops"
    and s: "DsaEngine_Submit r e = Some (kOk, e1)"
  shows "\<exists>c c'. ctx_wf (descs e) (recs e) c \<and> dsa_ctxs e1 (engine_ctx r) = Some c' \<and> movable (addresses e) ops
    \<and> (\<forall>k. desc_at c' k = desc_at c k \<and> rec_at c' k = rec_at c k \<and> rec_phys_at c' k = rec_phys_at c k)
    \<and> crc_results c' = move_recs c ops @ drop (length ops) (crc_results c) \<and> dsa_completion_records c' = dsa_completion_records c
    \<and> written c (move_layout (addresses e) c ops) (descs e) (descs e1) (length (move_layout (addresses e) c ops))"
proof -
  obtain c where c: "dsa_ctxs e (engine_ctx r) = Some c"
    using inv r(1) by (auto simp: dsa_einv_def)
  then have wf: "ctx_wf (descs e) (recs e) c"
    using inv by (auto simp: dsa_einv_def ctxs_wf_def)
  obtain st1 c' dm rm where b: "BuildCtx (addresses e) (Some (kMove ops)) c (descs e, recs e) = Some (st1, c', dm, rm)"
    using s c r(2) by (auto simp: DsaEngine_Submit_def split: option.splits)
  have ne: "ops \<noteq> []"
    using b by (auto simp: BuildCtx_def)
  have k: "st1 = kOk"
    using s c r(2) b by (auto simp: DsaEngine_Submit_def Let_def split: if_splits)
  obtain wq where d: "dsa_ctxs e1 (engine_ctx r) = Some (if wq = None then c' else c'\<lparr> work_queue := wq \<rparr>)" "descs e1 = dm"
    using s c b r(2) k by (auto simp: DsaEngine_Submit_def Let_def split: option.splits)
  have v: "c' = c\<lparr> desc_num := length (move_layout (addresses e) c ops), crc_results := move_recs c ops @ drop (length ops) (crc_results c) \<rparr>"
      "written c (move_layout (addresses e) c ops) (descs e) dm (length (move_layout (addresses e) c ops))" "movable (addresses e) ops"
    using BuildCtx_move [OF wf r(3) ne, of "addresses e"] b k by (auto split: if_splits)
  show ?thesis
    using wf v d by (intro exI [of _ c] exI [of _ "if wq = None then c' else c'\<lparr> work_queue := wq \<rparr>"] conjI allI) (simp_all add: desc_at_def rec_at_def rec_phys_at_def)
qed


text \<open>The checksums of one operation, read from the records \<open>rm\<close> after the descriptors \<open>dm\<close> have been carried out.\<close>

definition crc_of_record :: "translation \<Rightarrow> DsaCtx \<Rightarrow> desc_memory \<Rightarrow> rec_memory \<Rightarrow> DataFlowMoveOperation \<Rightarrow> u64 \<Rightarrow> bool" where
  "crc_of_record tr c dm rm op v \<longleftrightarrow>
    (if enable_crc op
     then \<exists>k < kMaxInternalBatchSize. \<exists>d cr. dm (desc_at c k) = Some d \<and> reports_crc tr op d \<and> completion_addr d = rec_phys_at c k
       \<and> rm (rec_at c k) = Some cr \<and> v = ucast (NOT (ucast (crc_val cr) :: u32))
     else v = 0)"

lemma reports_crc_completion [simp]: "reports_crc tr op (d\<lparr> completion_addr := a \<rparr>) = reports_crc tr op d"
  by (simp add: reports_crc_def)

lemma crc_output_of_record:
  assumes wf: "ctx_wf dm0 rm0 c" "mapped rm = mapped rm0" and v: "valid_batch ops" "i < length ops"
    and w: "written c (move_layout tr c ops) dm0 dm (length (move_layout tr c ops))"
    and o: "crc_outputs rm (move_recs c ops) = Some out"
  shows "crc_of_record tr c dm rm (ops ! i) (out ! i)"
proof -
  have i: "i < length (move_recs c ops)"
    using v(2) by (simp add: length_move_recs)
  show ?thesis
  proof (cases "enable_crc (ops ! i)")
    case True
    then obtain k where k: "k < length (move_layout tr c ops)" "move_recs c ops ! i = rec_at c k" "reports_crc tr (ops ! i) (move_layout tr c ops ! k)"
      using move_recs_nth [OF valid_batch_wf [OF v(1)] v(2), of tr c] by auto
    have m: "k < kMaxInternalBatchSize"
      using k(1) valid_batch_layout [OF v(1), of tr c] by simp
    obtain cr where cr: "rm (rec_at c k) = Some cr"
      using ctx_wf_slots(2) [OF wf(1) m] wf(2) by (auto simp: mapped_def)
    have "dm (desc_at c k) = Some ((move_layout tr c ops ! k)\<lparr> completion_addr := rec_phys_at c k \<rparr>)"
      using w k(1) by (simp add: written_def)
    then show ?thesis
      using True m k(2,3) cr crc_outputs_nth [OF o i] ctx_wf_slots(3) [OF wf(1) m]
      by (auto simp: crc_of_record_def GetCrcInDsaCompletionRecord_def)
  next
    case False
    then show ?thesis
      using move_recs_nth [OF valid_batch_wf [OF v(1)] v(2), of tr c] crc_outputs_nth [OF o i] by (simp add: crc_of_record_def)
  qed
qed

lemma submit_mapped:
  assumes "DsaEngine_Submit r e = Some (st, e')"
  shows "mapped (recs e') = mapped (recs e)"
proof -
  obtain c st1 c' dm rm where b: "dsa_ctxs e (engine_ctx r) = Some c" "BuildCtx (addresses e) (req_op r) c (descs e, recs e) = Some (st1, c', dm, rm)"
    using assms by (auto simp: DsaEngine_Submit_def split: option.splits)
  then have "recs e' = rm"
    using assms by (auto simp: DsaEngine_Submit_def Let_def split: if_splits option.splits)
  then show ?thesis
    using BuildCtx_frame [OF b(2)] by simp
qed



section \<open>A concrete engine\<close>

definition dsa_start :: DsaEngine where
  "dsa_start = \<lparr> dsa_dispatcher = \<lparr> wq_list = two_queues, strategy = Some (RoundRobinStrategy [0, 1]), dsa_init = True \<rparr>, dsa_tls = tls_counters_init,
     addresses = plain_translation, dsa_ctxs = Map.empty, descs = Map.empty, recs = Map.empty \<rparr>"

definition plain_alloc :: dsa_alloc where
  "plain_alloc = \<lparr> new_ctx = 4, new_junk = plain_ctx, desc_chunk = 0x100010, desc_junk = \<lambda>a. zero_desc, rec_chunk = 0x200008,
     rec_junk = \<lambda>a. \<lparr> rec_status = 0, crc_val = 0 \<rparr> \<rparr>"

lemma dsa_start_einv: "dsa_einv dsa_start Map.empty {}"
  by (simp add: dsa_einv_def dsa_start_def ctxs_wf_def)

lemma plain_alloc_fresh: "dsa_fresh plain_alloc dsa_start"
  by (simp add: dsa_fresh_def plain_alloc_def dsa_start_def plain_ctx_def mapped_def kDsaHwDescSize_def kDsaCompletionRecordSize_def kMaxInternalBatchSize_def)

lemma one_context:
  "\<exists>e. dsa_einv e Map.empty {4} \<and> addresses e = plain_translation \<and> dsa_dispatcher e = dsa_dispatcher dsa_start \<and> dsa_tls e = tls_counters_init"
proof -
  have k: "desc_chunk plain_alloc \<noteq> 0" "rec_chunk plain_alloc \<noteq> 0" "look_up (addresses dsa_start) (desc_chunk plain_alloc) \<noteq> 0" "look_up (addresses dsa_start) (rec_chunk plain_alloc) \<noteq> 0"
    by (simp_all add: plain_alloc_def dsa_start_def plain_translation_def)
  obtain st r' e' where p: "DsaCtxFactory_PreallocateCtx plain_alloc blank_request dsa_start = Some (st, r', e')"
    and i: "st = kOk \<Longrightarrow> dsa_einv e' Map.empty {engine_ctx r'}"
    using dsa_prealloc_einv [OF dsa_start_einv plain_alloc_fresh, of blank_request] by auto
  have "st = kOk" "engine_ctx r' = 4" "addresses e' = plain_translation" "dsa_dispatcher e' = dsa_dispatcher dsa_start" "dsa_tls e' = tls_counters_init"
    using p k by (auto simp: DsaCtxFactory_PreallocateCtx_def Let_def plain_alloc_def dsa_start_def split: option.splits if_splits)
  then show ?thesis
    using i by auto
qed

lemma two_segments_valid: "valid_batch [two_segments]" "movable plain_translation [two_segments]"
  by (simp_all add: valid_batch_def valid_move_def two_segments_def movable_def one_desc_def translatable_def plain_translation_def sum_len_def total_len_def
      kMaxSubmittedBatchSize_def kMaxInternalBatchSize_def kMaxSrcSegmentNum_def kMaxTotalLength_def)

definition plain_request :: DataFlowRequest where
  "plain_request = blank_request\<lparr> engine_ctx := 4, req_op := Some (kMove [two_segments]), req_num := 1, user_ctx := 77 \<rparr>"

lemma plain_submit:
  assumes "dsa_einv e Map.empty {4}" "addresses e = plain_translation" "dsa_dispatcher e = dsa_dispatcher dsa_start" "dsa_tls e = tls_counters_init"
  shows "\<exists>e1. DsaEngine_Submit plain_request e = Some (kOk, e1)"
proof -
  obtain c where c: "dsa_ctxs e 4 = Some c" "ctx_wf (descs e) (recs e) c"
    using assms(1) by (auto simp: dsa_einv_def ctxs_wf_def)
  obtain c' dm rm where b: "BuildCtx plain_translation (Some (kMove [two_segments])) c (descs e, recs e) = Some (kOk, c', dm, rm)"
    using BuildCtx_move [OF c(2) two_segments_valid(1), of plain_translation] two_segments_valid(2) by auto
  have "\<exists>q tls d. DsaDispatcher_Submit 0 tls_counters_init (dsa_dispatcher dsa_start) = Some (kOk, q, tls, d)"
    by (simp add: DsaDispatcher_Submit_def dsa_start_def GetNext_defs tls_counters_init_def two_queues_eq fetch_add_size_def admitted_def Let_def)
  then show ?thesis
    using assms(2-4) c(1) b by (auto simp: DsaEngine_Submit_def plain_request_def blank_request_def Let_def)
qed

theorem dsa_move_descriptors_witness:
  "\<exists>e c st c' dm'. dsa_einv e Map.empty {4} \<and> dsa_ctxs e 4 = Some c \<and> BuildCtx plain_translation (Some (kMove [two_segments])) c (descs e, recs e) = Some (st, c', dm', clear_first c (recs e))
    \<and> st = kOk \<and> desc_num c' = 5"
proof -
  obtain e where e: "dsa_einv e Map.empty {4}"
    using one_context by blast
  then obtain c where c: "dsa_ctxs e 4 = Some c" "ctx_wf (descs e) (recs e) c"
    by (auto simp: dsa_einv_def ctxs_wf_def)
  have n: "length (move_layout plain_translation c [two_segments]) = 5"
    by (simp add: move_layout_def one_desc_def two_segments_def op_descs_def needs_crc_def IsCopyWithCrcOk_def)
  have "[two_segments] \<noteq> []"
    by simp
  from dsa_move_descriptors [OF c(2) two_segments_valid(1) this, of plain_translation] show ?thesis
    using e c(1) two_segments_valid(2) n by auto
qed

definition device_done :: "DsaEngine \<Rightarrow> DsaEngine" where
  "device_done e = e\<lparr> recs := (\<lambda>a. map_option (\<lambda>cr. \<lparr> rec_status = DSA_COMP_SUCCESS, crc_val = 5 \<rparr>) (recs e a)) \<rparr>"

lemma device_done_env: "dsa_env e (device_done e)"
  by (auto simp: dsa_env_def device_done_def mapped_def)

lemma device_done_success: "DsaCheckCompletion (recs (device_done e)) a = Some ret \<Longrightarrow> ret = DSA_TASK_SUCCESS"
  by (auto simp: DsaCheckCompletion_def device_done_def DSA_COMP_SUCCESS_def DSA_COMP_NONE_def)


end
