(* ===== verification/Data_Flow_Manager.thy ===== *)
theory Data_Flow_Manager
  imports Dsa_Engine
begin

text \<open>The resource manager of the data flow service, \<^verbatim>\<open>src/src/data_flow/data_flow_resource_manager.h\<close>, and the
  initialization of the DSA engine.  The manager owns the engines through pointers: \<open>dsa_ptrs\<close> says whether the
  factory of the contexts exists and has the sizes its initialization sets; using one without is \<open>None\<close>.  The state of the engines themselves, the memory pool's answer and the queues the driver reports are
  arguments.\<close>

record DataFlowInitOptions =
  init_dsa :: bool
  schedule_hint_type :: DataFlowScheduleHintType

record dsa_ptrs =
  dispatcher_ptr :: "DsaDispatcher option"
  factory_ready :: bool

record DataFlowResourceManager =
  rm_init :: bool
  sw_engine_ptr :: bool
  dsa_engine_ptr :: "dsa_ptrs option"
  channel_id_counter :: u64

definition DataFlowResourceManager_new :: DataFlowResourceManager where
  "DataFlowResourceManager_new = \<lparr> rm_init = False, sw_engine_ptr = False, dsa_engine_ptr = None, channel_id_counter = 0 \<rparr>"

definition DsaCtxFactory_Init :: "bool \<Rightarrow> StatusCode" where
  "DsaCtxFactory_Init pool_ok = (if pool_ok then kOk else kUnknown)"

definition DsaEngine_Init :: "UioWqInfo list \<Rightarrow> (nat \<Rightarrow> u64) \<Rightarrow> string \<Rightarrow> bool \<Rightarrow> DataFlowInitOptions \<Rightarrow> (StatusCode \<times> dsa_ptrs) option" where
  "DsaEngine_Init found mem flag pool_ok opt =
    (case DsaDispatcher_Init found mem flag (schedule_hint_type opt) DsaDispatcher_new of
       None \<Rightarrow> None
     | Some (st, d) \<Rightarrow>
         if st \<noteq> kOk then Some (st, \<lparr> dispatcher_ptr = Some d, factory_ready = False \<rparr>)
         else Some (DsaCtxFactory_Init pool_ok, \<lparr> dispatcher_ptr = Some d, factory_ready = pool_ok \<rparr>))"

definition Manager_Init :: "UioWqInfo list \<Rightarrow> (nat \<Rightarrow> u64) \<Rightarrow> string \<Rightarrow> bool \<Rightarrow> DataFlowInitOptions \<Rightarrow> DataFlowResourceManager \<Rightarrow>
    (bool \<times> DataFlowResourceManager) option" where
  "Manager_Init found mem flag pool_ok opt m =
    (if rm_init m then Some (True, m)
     else
       let m = m\<lparr> rm_init := True, sw_engine_ptr := True \<rparr> in
       if init_dsa opt
       then map_option (\<lambda>(st, p). (st = kOk, m\<lparr> dsa_engine_ptr := Some p \<rparr>)) (DsaEngine_Init found mem flag pool_ok opt)
       else Some (True, m))"

text \<open>A channel over the software or the DSA engine.  \<open>se\<close> and \<open>de\<close> are the states of the engines, \<open>snews\<close> and \<open>dnews\<close> what
  the allocators answer, \<open>timeout\<close> and \<open>t\<close> the timeout in ticks and the thread.\<close>

datatype channel = SwChannel "SwEngine DataFlowChannelImpl" | DsaChannel "DsaEngine DataFlowChannelImpl"

definition created :: "('c \<Rightarrow> channel) \<Rightarrow> StatusCode \<times> 'c \<Rightarrow> StatusCode \<times> channel option" where
  "created wrap = (\<lambda>(result, ch). (result, if result = kOk then Some (wrap ch) else None))"

definition CreateDataFlowChannel :: "bool \<Rightarrow> SwEngine \<Rightarrow> (nat \<Rightarrow> nat \<times> DataFlowRequest \<times> nat \<times> u64 list) \<Rightarrow> DsaEngine \<Rightarrow>
    (nat \<Rightarrow> nat \<times> DataFlowRequest \<times> dsa_alloc) \<Rightarrow> u64 \<Rightarrow> nat \<Rightarrow> DataFlowChannelOptions \<Rightarrow> DataFlowResourceManager \<Rightarrow>
    ((StatusCode \<times> channel option) \<times> DataFlowResourceManager) option" where
  "CreateDataFlowChannel sse se snews de dnews timeout t opt m =
    (let m' = m\<lparr> channel_id_counter := channel_id_counter m + 1 \<rparr> in
     case engine_type opt of
       kSoftware \<Rightarrow>
         if \<not> sw_engine_ptr m then Some ((kChannelError, None), m)
         else map_option (\<lambda>r. (created SwChannel r, m')) (Channel_Init (sw_engine sse) snews (DataFlowChannelImpl_new se opt timeout t))
     | kDsa \<Rightarrow>
         (case dsa_engine_ptr m of
            None \<Rightarrow> Some ((kChannelError, None), m)
          | Some p \<Rightarrow>
              if \<not> factory_ready p then None
              else map_option (\<lambda>r. (created DsaChannel r, m')) (Channel_Init dsa_engine dnews (DataFlowChannelImpl_new de opt timeout t)))
     | kEngineNum \<Rightarrow> Some ((kNotSupported, None), m))"

definition Manager_Uninit :: "DataFlowResourceManager \<Rightarrow> DataFlowResourceManager" where
  "Manager_Uninit m = (if rm_init m then m\<lparr> sw_engine_ptr := False, dsa_engine_ptr := None, rm_init := False \<rparr> else m)"


section \<open>Channels of a manager\<close>

lemma Channel_Init_reach:
  assumes "flow_engine eng einv fresh env" "einv e Map.empty {}" "fresh_news eng fresh (map news [0..<kIoDepthMaximum]) (DataFlowChannelImpl_new e opt ts t)"
  shows "\<exists>st ch. Channel_Init eng news (DataFlowChannelImpl_new e opt ts t) = Some (st, ch) \<and> (st = kOk \<longrightarrow> channel_reach eng fresh env P ts t opt e ch [] [] 0)"
proof -
  have "all_cached einv (DataFlowChannelImpl_new e opt ts t)"
    using assms(2) by (simp add: all_cached_def lists_ok_def DataFlowChannelImpl_new_def)
  then obtain st ch where "Channel_Init eng news (DataFlowChannelImpl_new e opt ts t) = Some (st, ch)"
    using flow_engine.init_loop_ok [OF assms(1) _ assms(3)] unfolding Channel_Init_def by blast
  then show ?thesis
    using channel_reach.created [OF assms(3)] by auto
qed

text \<open>C34: Creating a channel returns, whichever engine is asked for, as long as the DSA engine is absent or initialized.  It
  hands out a channel exactly when it reports success, over the engine that was asked for, and the channel is in the
  initial state from which the guarantees of delivery hold.\<close>

theorem create_channel_ready:
  assumes "sw_einv se Map.empty {}" "fresh_news (sw_engine sse) sw_fresh (map snews [0..<kIoDepthMaximum]) (DataFlowChannelImpl_new se opt ts t)"
    and "dsa_einv de Map.empty {}" "fresh_news dsa_engine dsa_fresh (map dnews [0..<kIoDepthMaximum]) (DataFlowChannelImpl_new de opt ts t)"
    and "dsa_engine_ptr m = None \<or> factory_ready (the (dsa_engine_ptr m))"
  shows "\<exists>st c m'. CreateDataFlowChannel sse se snews de dnews ts t opt m = Some ((st, c), m') \<and> (c = None \<longleftrightarrow> st \<noteq> kOk)
    \<and> (\<forall>ch. c = Some (SwChannel ch) \<longrightarrow> engine_type opt = kSoftware \<and> channel_reach (sw_engine sse) sw_fresh sw_env P ts t opt se ch [] [] 0)
    \<and> (\<forall>ch. c = Some (DsaChannel ch) \<longrightarrow> engine_type opt = kDsa \<and> channel_reach dsa_engine dsa_fresh dsa_env P ts t opt de ch [] [] 0)"
proof -
  note s = Channel_Init_reach [OF sw.flow_engine_axioms assms(1,2), of P]
  note d = Channel_Init_reach [OF dsa.flow_engine_axioms assms(3,4), of P]
  show ?thesis
  proof (cases "engine_type opt")
    case kSoftware
    moreover obtain st ch where "Channel_Init (sw_engine sse) snews (DataFlowChannelImpl_new se opt ts t) = Some (st, ch)"
      "st = kOk \<longrightarrow> channel_reach (sw_engine sse) sw_fresh sw_env P ts t opt se ch [] [] 0"
      using s by blast
    ultimately show ?thesis
      by (cases "sw_engine_ptr m"; cases "st = kOk") (simp_all add: CreateDataFlowChannel_def created_def Let_def)
  next
    case kDsa
    moreover obtain st ch where "Channel_Init dsa_engine dnews (DataFlowChannelImpl_new de opt ts t) = Some (st, ch)"
      "st = kOk \<longrightarrow> channel_reach dsa_engine dsa_fresh dsa_env P ts t opt de ch [] [] 0"
      using d by blast
    ultimately show ?thesis
      using assms(5) by (cases "dsa_engine_ptr m"; cases "st = kOk") (simp_all add: CreateDataFlowChannel_def created_def Let_def)
  next
    case kEngineNum
    then show ?thesis
      by (simp add: CreateDataFlowChannel_def Let_def)
  qed
qed

text \<open>A memory pool that is exhausted.\<close>

definition no_memory :: "nat \<Rightarrow> nat \<times> DataFlowRequest \<times> dsa_alloc" where
  "no_memory i = (i, blank_request, plain_alloc\<lparr> desc_chunk := 0 \<rparr>)"

theorem create_channel_ready_witness:
  "\<exists>ch m'. CreateDataFlowChannel True sw_start sw_news dsa_start no_memory 10 7 sw_opts (DataFlowResourceManager_new\<lparr> rm_init := True, sw_engine_ptr := True \<rparr>)
      = Some ((kOk, Some (SwChannel ch)), m') \<and> channel_reach (sw_engine True) sw_fresh sw_env pool32 10 7 sw_opts sw_start ch [] [] 0"
proof -
  let ?m = "DataFlowResourceManager_new\<lparr> rm_init := True, sw_engine_ptr := True \<rparr>"
  have u: "map no_memory [0..<kIoDepthMaximum] = no_memory 0 # map no_memory [1..<kIoDepthMaximum]"
    by (simp add: kIoDepthMaximum_def upt_conv_Cons)
  have "dsa_fresh (plain_alloc\<lparr> desc_chunk := 0 \<rparr>) dsa_start"
    using plain_alloc_fresh by (simp add: dsa_fresh_def kDsaHwDescSize_def kMaxInternalBatchSize_def)
  then have d: "fresh_news dsa_engine dsa_fresh (map no_memory [0..<kIoDepthMaximum]) (DataFlowChannelImpl_new dsa_start sw_opts 10 7)"
    unfolding u by (simp add: no_memory_def DataFlowChannelImpl_new_def dsa_engine_def DsaCtxFactory_PreallocateCtx_def)
  have n: "\<forall>i \<in> set [0..<kIoDepthMaximum]. reqs (DataFlowChannelImpl_new sw_start sw_opts 10 7) i = None \<and> sw_ctxs (engine (DataFlowChannelImpl_new sw_start sw_opts 10 7)) i = None"
    by (simp add: DataFlowChannelImpl_new_def sw_start_def)
  from sw_init_loop [OF n distinct_upt, of True] obtain ch where
    f: "fresh_news (sw_engine True) sw_fresh (map sw_news [0..<kIoDepthMaximum]) (DataFlowChannelImpl_new sw_start sw_opts 10 7)"
    and c: "Channel_Init (sw_engine True) sw_news (DataFlowChannelImpl_new sw_start sw_opts 10 7) = Some (kOk, ch)"
    unfolding Channel_Init_def by blast
  have e: "CreateDataFlowChannel True sw_start sw_news dsa_start no_memory 10 7 sw_opts ?m
      = Some ((kOk, Some (SwChannel ch)), ?m\<lparr> channel_id_counter := 1 \<rparr>)"
    using c by (simp add: CreateDataFlowChannel_def created_def sw_opts_def DataFlowResourceManager_new_def)
  have "dsa_engine_ptr ?m = None \<or> factory_ready (the (dsa_engine_ptr ?m))"
    by (simp add: DataFlowResourceManager_new_def)
  from create_channel_ready [OF sw_start_einv f dsa_start_einv d this, of pool32] show ?thesis
    unfolding e by simp
qed


end
