(* ===== verification/Spec2Isabelle.thy ===== *)
theory Spec2Isabelle
  imports Vesal_Status Ring_Queue Checksum Mpsc_Queue Address_Manager Timer_Manager Qat_Codec Qat_Ha Codec_Common Dc_Format Dsa_Dispatcher Periodic_Scheduler Sw_Engine Data_Flow_Manager
begin

text \<open>
  A verification development for veSAL, a user-space library that gives compression, encryption and bulk memory
  operations one asynchronous interface over accelerators (Intel QAT and DSA, Kunpeng KAE) and software engines.  Users
  submit requests to a channel and poll it for results.  Below the channels are engines, and below the engines are
  shared parts: queues, object pools, timers, address translation and checksums.  All paths here are relative to
  \<^verbatim>\<open>src/\<close>.

  \<^bold>\<open>Conventions\<close> (\<open>Vesal_Prelude\<close>).  C++ integers are words of their width (\<open>u8\<close>, \<open>u16\<close>, \<open>u32\<close>, \<open>u64\<close>), so arithmetic wraps
  as it does in the code; counts that cannot wrap in a running system are natural numbers.  Objects live in partial maps
  from addresses to contents.  A function of the model returns \<open>None\<close> where the code would follow a null or dangling
  pointer, leave an array, divide by zero, fail a \<^verbatim>\<open>VESAL_CHECK\<close> or raise; a theorem that says \<open>Some\<close> says that none of this
  happens.  Codes of \<^verbatim>\<open>include/vesal/status.h\<close> are the datatype \<open>StatusCode\<close> of \<open>Vesal_Status\<close>.  Logging and metrics are left
  out everywhere.

  \<^bold>\<open>The shared parts\<close> (\<^verbatim>\<open>src/common/\<close>).

  \<^item> \<open>Ring_Queue\<close> models \<^verbatim>\<open>req_ring_queue.h\<close>, which restores the order of requests: results leave it in the order of the
    requests (C2), and \<open>PopResults\<close> refines delivery of the longest finished prefix (C16).
  \<^item> \<open>Crc_Poly\<close>, \<open>Crc_Table\<close> and \<open>Checksum\<close> model \<^verbatim>\<open>checksum_impl.{h,cc}\<close>.  CRC-32C is arithmetic of polynomials over two
    elements; the table of the code is proved to hold the powers it stands for.  Combining checksums gives the checksum of
    the concatenation (C1); both multiplication paths agree and end (C18).  \<open>Xx_Hash\<close> compares the pointer loops of
    \<open>XxHash\<close> with the published algorithm (C30), on \<open>Byte_Order\<close>, the byte level loads and stores.
  \<^item> \<open>Mpsc_Queue\<close> models \<^verbatim>\<open>mpsc_queue.h\<close> at the level of its atomic operations, as a step relation over any number of
    producers and one consumer: order (C4), memory safety (C5), progress of a spinning consumer (C19).  The contract of
    a queue used by one thread is the locale \<open>fifo_queue\<close> of \<open>Fifo_Interface\<close>, interpreted here and in \<open>Codec_Common\<close>.
  \<^item> \<open>Object_Pool\<close> models \<^verbatim>\<open>object_pool.h\<close>: chunks with their packed free lists, return by another thread, and release at
    thread exit.  Objects never overlap (C8), all chunks are freed once (C21), the geometry fits its table (C22).  Clients
    use it through the locale \<open>object_store\<close>.
  \<^item> \<open>Timer_Manager\<close> models \<^verbatim>\<open>timer_manager.{h,cc}\<close>, a doubly linked list of objects from that pool (locale \<open>recycled_store\<close>):
    the timers that are due fire, in order, and no others (C12).
  \<^item> \<open>Address_Manager\<close> models the address translation of \<^verbatim>\<open>memory_pool_helper.{h,cc}\<close>: contiguous runs (C11), registration
    followed by translation (C20), and an entry of the thread's own table that outlives a registration (C36).
  \<^item> \<open>Periodic_Scheduler\<close> models \<^verbatim>\<open>scheduler.{h,cc}\<close>, its thread and its callers as a step relation at the lock operations:
    no task is lost or duplicated (C33), and a stop can lose its notification (C38).
  \<^item> \<open>Err_Simulation\<close> models the errors tests inject, \<^verbatim>\<open>err_simulation.{h,cc}\<close>.

  \<^bold>\<open>Compression\<close> (\<^verbatim>\<open>src/codec/\<close>, \<^verbatim>\<open>src/common/qat/\<close>).  \<open>Qat_Unit\<close>, \<open>Qat_Unit_Manager\<close> and \<open>Qat_Util\<close> model the instances of the
  driver, their assignment to channels (C10, C23) and the start-up; the driver is the record of its answers.  \<open>Qat_Codec\<close>
  models the life cycle of the QAT codec, the registry of codecs (C25) and injected errors (C24); \<open>Qat_Ha\<close> the
  policy that gives up on a device (C15); \<open>Codec_Types\<close> the options and results with their orders; \<open>Codec_Common\<close> the list of
  finished results (C26, C27, C28) and the validation of buffers; \<open>Dc_Format\<close> the framing of compressed data (C29).

  \<^bold>\<open>Data flow\<close> (\<^verbatim>\<open>src/data_flow/\<close>, \<^verbatim>\<open>dsa-uio-config/\<close>).  A channel calls an engine through a table of functions; what it relies
  on is the locale \<open>flow_engine\<close> of \<open>Data_Flow\<close>.  \<open>Data_Flow_Channel\<close> models \<^verbatim>\<open>data_flow_channel_impl.cc\<close> and \<open>Channel_Contract\<close>
  proves, once for all engines, that accepted requests are delivered exactly once and in order (C3), that polling returns
  (C13), that closing releases everything (C14), and what validation accepts (C35).  \<open>channel_reach\<close> is the history of
  calls; between two calls the environment may act on the engine.  Two engines satisfy the contract: \<open>Sw_Engine\<close>
  (interpretation \<open>sw\<close>), for which a batch is proved to move the data and compute the CRC-32C (C9), and \<open>Dsa_Engine\<close>
  (interpretation \<open>dsa\<close>).  The latter builds on \<open>Dsa_Ctx\<close>, which models \<^verbatim>\<open>dsa_ctx_factory.{h,cc}\<close> and the functions of
  \<^verbatim>\<open>dsa_uio_config.c\<close> that fill descriptors: the descriptors of a batch are exactly its layout (C7) and each reported
  checksum comes from a descriptor that computes it (C6); the device is the part of the environment that writes
  completion records.  \<open>Dsa_Dispatcher\<close> models the choice of a work queue (C31, C32) and its quota under concurrent use
  (C17).  \<open>Data_Flow_Manager\<close> models the manager that owns the engines (C34, C40).

  \<^bold>\<open>Interleaving.\<close>  Where the code is concurrent by design the model is a step relation with one step per atomic operation
  or critical section (\<open>mpsc_step\<close>, \<open>queue_reach\<close>, \<open>sys_step\<close>), under sequential consistency; the relaxed orderings of
  counters are not modelled.  The other components belong to one thread at a time, as their headers say.

  \<^bold>\<open>Loops and bounds.\<close>  Loops over data are structural recursion.  The loops that follow links or test a condition are
  total functions with a termination proof or \<open>partial_function (option)\<close>, with a lemma that they return in every
  reachable state; no fuel is used.  Bounds of the code (128 requests per channel, 128 operations and 1024
  descriptors per batch, 32K chunks, the page sizes) are the constants of the source.

  \<^bold>\<open>Parameters.\<close>  What is not in the repository is an argument: the QAT driver's answers, the queues the DSA driver finds,
  what allocators return (with the hypothesis that live memory is not handed out again), the clock, the checksum and
  carry-less multiplication instructions by their documented meaning.

  \<^bold>\<open>Not modelled.\<close>

  \<^item> The chunk pool behind the memory pool (\<^verbatim>\<open>chunk_pool.{h,cc}\<close>, \<^verbatim>\<open>memory_pool.cc\<close>) and the mapping of huge pages: buddy
    and cache logic around \<^verbatim>\<open>mmap\<close> and \<^verbatim>\<open>/proc\<close>; components that use the pool take its answers as arguments.
  \<^item> The QAT engine, pollers, sessions, buffers and channels (\<^verbatim>\<open>qat_codec_engine\<close>, \<^verbatim>\<open>qat_poller*\<close>, \<^verbatim>\<open>qat_session\<close>,
    \<^verbatim>\<open>qat_buffer\<close>, \<^verbatim>\<open>qat_handle\<close>, \<^verbatim>\<open>qat_codec_*_channel\<close>) and the cypher (\<^verbatim>\<open>src/cypher/\<close>): mostly calls of the vendor's
    asynchronous interface, whose callbacks and data structures are outside the repository.
  \<^item> The software and KAE codecs and the zstd helper: calls of zlib, lz4, zstd and libkaezip.
  \<^item> \<^verbatim>\<open>vesal.cc\<close>, the C interface, the socket listener, logging, metrics and the calibration of the clock
    (\<^verbatim>\<open>timestamp.h\<close>, floating point): input and output, or forwarding of calls.
  \<^item> The discovery of devices in \<^verbatim>\<open>dsa-uio-config/\<close> (system calls on sysfs and VFIO), the dummy drivers, tests, examples,
    benchmarks and scripts.
\<close>

end
